(* ===== verification/Prelude.thy ===== *)
theory Prelude
  imports Main "HOL-Library.Word"
begin

text \<open>
  Shared vocabulary of the development.

  \<^item> \<open>u8\<close> and the byte-list operations the sources use: \<open>slice\<close> (Rust's \<open>xs[i..i+n]\<close>),
    \<open>patch\<close> (\<open>copy_from_slice\<close> into \<open>xs[i..]\<close>), \<open>chunks\<close>, and the little-endian
    conversions \<open>to_le\<close>/\<open>from_le\<close> (\<open>to_le_bytes\<close>, \<open>from_le_bytes\<close>).
  \<^item> The effects of the Rust code: \<open>res\<close> is the outcome of a call (a value, an \<open>Err\<close>, a panic or
    undefined behaviour), \<open>prog\<close> a computation over a state that may also fail to return
    (\<open>None\<close>), with \<open>bind\<close> for the operator \<open>?\<close>.  The state survives an error, as it does in
    the program.
  \<^item> \<open>returns\<close>, the total-correctness predicate the component proofs use: the computation
    returns a value, without error, panic, undefined behaviour or divergence, and the
    postcondition holds of the value and the final state.  \<open>ends\<close> also allows an error, with a
    postcondition of its own.
\<close>

named_theorems run_simps \<open>one-step evaluation of computations\<close>
named_theorems returns_intros \<open>introduction rules for total correctness\<close>

section \<open>Bytes and byte lists\<close>

type_synonym u8 = "8 word"
type_synonym u16 = "16 word"
type_synonym u32 = "32 word"

definition slice :: "nat \<Rightarrow> nat \<Rightarrow> 'a list \<Rightarrow> 'a list" where
  "slice i n xs = take n (drop i xs)"

definition patch :: "nat \<Rightarrow> 'a list \<Rightarrow> 'a list \<Rightarrow> 'a list" where
  "patch i ys xs = take i xs @ ys @ drop (i + length ys) xs"

definition chunks :: "nat \<Rightarrow> nat \<Rightarrow> 'a list \<Rightarrow> 'a list list" where
  "chunks k n xs = map (\<lambda>j. slice (j * k) k xs) [0..<n]"

lemma length_slice [simp]: "i + n \<le> length xs \<Longrightarrow> length (slice i n xs) = n"
  by (simp add: slice_def)

lemma slice_nth: "i + n \<le> length xs \<Longrightarrow> j < n \<Longrightarrow> slice i n xs ! j = xs ! (i + j)"
  by (simp add: slice_def)

lemma slice_0_all [simp]: "slice 0 (length xs) xs = xs"
  by (simp add: slice_def)

lemma slice_empty [simp]: "slice i 0 xs = []"
  by (simp add: slice_def)

lemma length_patch [simp]: "i + length ys \<le> length xs \<Longrightarrow> length (patch i ys xs) = length xs"
  by (simp add: patch_def)

lemma patch_nth:
  assumes "i + length ys \<le> length xs" and "j < length xs"
  shows "patch i ys xs ! j = (if i \<le> j \<and> j < i + length ys then ys ! (j - i) else xs ! j)"
  using assms by (auto simp: patch_def nth_append min_def)

lemma patch_Nil [simp]: "patch i [] xs = xs"
  by (simp add: patch_def)

lemma patch_whole: "length ys = length xs \<Longrightarrow> patch 0 ys xs = ys"
  by (simp add: patch_def)

lemma slice_patch_same [simp]:
  "i + length ys \<le> length xs \<Longrightarrow> length ys = n \<Longrightarrow> slice i n (patch i ys xs) = ys"
  by (simp add: slice_def patch_def)

lemma slice_patch_other:
  assumes "i + length ys \<le> length xs" and "j + n \<le> length xs"
    and "j + n \<le> i \<or> i + length ys \<le> j"
  shows "slice j n (patch i ys xs) = slice j n xs"
  using assms by (intro nth_equalityI) (auto simp: slice_nth patch_nth)

lemma slice_append: "slice i (m + n) xs = slice i m xs @ slice (i + m) n xs"
  by (simp add: slice_def take_add add.commute)

lemma slice_Suc: "i < length xs \<Longrightarrow> slice i (Suc n) xs = xs ! i # slice (Suc i) n xs"
  by (simp add: slice_def Cons_nth_drop_Suc [symmetric])

lemma patch_singleton: "i < length xs \<Longrightarrow> patch i [y] xs = xs[i := y]"
  by (simp add: patch_def upd_conv_take_nth_drop)

lemma patch_patch_append:
  "i + length ys + length zs \<le> length xs \<Longrightarrow>
   patch (i + length ys) zs (patch i ys xs) = patch i (ys @ zs) xs"
  by (intro nth_equalityI) (auto simp: patch_nth nth_append)

lemma length_chunks [simp]: "length (chunks k n xs) = n"
  by (simp add: chunks_def)

lemma chunks_nth [simp]: "j < n \<Longrightarrow> chunks k n xs ! j = slice (j * k) k xs"
  by (simp add: chunks_def)

lemma chunks_Suc: "chunks k (Suc n) xs = chunks k n xs @ [slice (n * k) k xs]"
  by (simp add: chunks_def)

lemma concat_chunks: "concat (chunks k n xs) = take (n * k) xs"
  by (induction n) (simp_all add: chunks_Suc slice_def take_add [symmetric] add.commute, simp add: chunks_def)

lemma chunk_bound: "j < n \<Longrightarrow> n * k \<le> (m::nat) \<Longrightarrow> j * k + k \<le> m"
proof -
  assume "j < n" and m: "n * k \<le> m"
  then have "(j + 1) * k \<le> n * k" by (intro mult_le_mono1) simp
  with m show ?thesis by simp
qed

lemma length_concat_uniform:
  "(\<And>x. x \<in> set xs \<Longrightarrow> length x = k) \<Longrightarrow> length (concat xs) = length xs * k"
  by (induction xs) auto

lemma slice_concat_uniform:
  assumes "\<And>x. x \<in> set xs \<Longrightarrow> length x = k" and "j < length xs"
  shows "slice (j * k) k (concat xs) = xs ! j"
  using assms
proof (induction xs arbitrary: j)
  case Nil
  then show ?case by simp
next
  case (Cons x xs)
  show ?case
  proof (cases j)
    case 0
    with Cons.prems show ?thesis by (simp add: slice_def)
  next
    case (Suc i)
    have "length x = k" using Cons.prems by simp
    then have "slice (j * k) k (concat (x # xs)) = slice (i * k) k (concat xs)"
      using Suc by (simp add: slice_def)
    also have "\<dots> = xs ! i" using Cons Suc by simp
    finally show ?thesis using Suc by simp
  qed
qed

lemma chunks_concat_uniform:
  assumes "\<And>x. x \<in> set xs \<Longrightarrow> length x = k"
  shows "chunks k (length xs) (concat xs) = xs"
  using assms by (intro nth_equalityI) (simp_all add: slice_concat_uniform)

lemma slice_slice: "o' + n \<le> k \<Longrightarrow> slice o' n (slice i k xs) = slice (i + o') n xs"
  by (simp add: slice_def take_drop min_def add.commute)

lemma slice_patch_inside:
  assumes "o' + length ys \<le> k" and "i + k \<le> length xs"
  shows "slice i k (patch (i + o') ys xs) = patch o' ys (slice i k xs)"
  using assms by (intro nth_equalityI) (auto simp: slice_nth patch_nth)

lemma slice_patch_apart:
  assumes "i + length ys \<le> length xs" and "j + n \<le> i \<or> i + length ys \<le> j"
  shows "slice j n (patch i ys xs) = slice j n xs"
  using assms(2)
proof
  assume "j + n \<le> i"
  then show ?thesis using assms(1) by (intro slice_patch_other) auto
next
  assume "i + length ys \<le> j"
  then show ?thesis using assms(1) by (simp add: slice_def patch_def)
qed

lemma slice_in_concat:
  assumes "\<And>x. x \<in> set xs \<Longrightarrow> length x = k" and "i < length xs" and "o' + n \<le> k"
  shows "slice (i * k + o') n (concat xs) = slice o' n (xs ! i)"
  using slice_slice [of o' n k "i * k" "concat xs"] slice_concat_uniform [of xs k i] assms by simp

lemma find_SomeD: "find P xs = Some x \<Longrightarrow> x \<in> set xs \<and> P x"
  by (induction xs) (auto split: if_splits)

lemma slice_replicate: "i + k \<le> n \<Longrightarrow> slice i k (replicate n x) = replicate k x"
  by (simp add: slice_def min_def)

lemma chunks_replicate: "chunks k n (replicate (n * k) x) = replicate n (replicate k x)"
  by (intro nth_equalityI) (auto simp: slice_replicate chunk_bound)

section \<open>Little-endian encodings\<close>

fun to_le :: "nat \<Rightarrow> nat \<Rightarrow> u8 list" where
  "to_le 0 n = []"
| "to_le (Suc k) n = of_nat (n mod 256) # to_le k (n div 256)"

fun from_le :: "u8 list \<Rightarrow> nat" where
  "from_le [] = 0"
| "from_le (b # bs) = unat b + 256 * from_le bs"

lemma length_to_le [simp]: "length (to_le k n) = k"
  by (induction k arbitrary: n) auto

lemma unat_u32_less [simp]: "unat (w :: u32) < 4294967296"
  using unsigned_less [of w] by simp

lemma unat_u16_less [simp]: "unat (w :: u16) < 65536"
  using unsigned_less [of w] by simp

lemma unat_u8_less [simp]: "unat (b :: u8) < 256"
  using unsigned_less [of b] by simp

lemma unat_byte_of_nat [simp]: "unat (of_nat (n mod 256) :: u8) = n mod 256"
  by (simp add: unat_of_nat)

lemma from_le_to_le: "from_le (to_le k n) = n mod 256 ^ k"
proof (induction k arbitrary: n)
  case (Suc k)
  have "n mod 256 ^ Suc k = n mod 256 + 256 * (n div 256 mod 256 ^ k)"
    by (simp add: mod_mult2_eq)
  with Suc show ?case by simp
qed simp

lemma from_le_to_le_id [simp]: "n < 256 ^ k \<Longrightarrow> from_le (to_le k n) = n"
  by (simp add: from_le_to_le)

lemma from_le_less: "from_le bs < 256 ^ length bs"
proof (induction bs)
  case (Cons b bs)
  have "u + 256 * v < 256 * p" if "u < 256" and "v < p" for u v p :: nat
    using that by linarith
  from this [OF unat_u8_less Cons] show ?case by simp
qed simp

lemma to_le_from_le: "length bs = k \<Longrightarrow> to_le k (from_le bs) = bs"
proof (induction bs arbitrary: k)
  case (Cons b bs)
  have b: "unat b < 256" by simp
  then have "of_nat ((unat b + 256 * from_le bs) mod 256) = b" by simp
  moreover have "(unat b + 256 * from_le bs) div 256 = from_le bs"
    using b by simp
  ultimately show ?case using Cons by (cases k) auto
qed simp

text \<open>Unsigned 64-bit addition and subtraction as the shipped (release) build computes them: they wrap.\<close>

definition wadd64 :: "nat \<Rightarrow> nat \<Rightarrow> nat" where
  "wadd64 a b = (a + b) mod 2 ^ 64"

lemma wadd64_small: "a + b < 2 ^ 64 \<Longrightarrow> wadd64 a b = a + b"
  by (simp add: wadd64_def)

definition wsub64 :: "nat \<Rightarrow> nat \<Rightarrow> nat" where
  "wsub64 a b = (if b \<le> a then a - b else 2 ^ 64 - (b - a))"

lemma wsub64_le: "b \<le> a \<Longrightarrow> wsub64 a b = a - b"
  by (simp add: wsub64_def)

section \<open>Computations\<close>

datatype ('e, 'a) res = Ok 'a | Err 'e | Panic | UB

type_synonym ('s, 'e, 'a) prog = "'s \<Rightarrow> (('e, 'a) res \<times> 's) option"

definition ret :: "'a \<Rightarrow> ('s, 'e, 'a) prog" where
  "ret x s = Some (Ok x, s)"

definition throw :: "'e \<Rightarrow> ('s, 'e, 'a) prog" where
  "throw e s = Some (Err e, s)"

definition panic :: "('s, 'e, 'a) prog" where
  "panic s = Some (Panic, s)"

definition undefined_behaviour :: "('s, 'e, 'a) prog" where
  "undefined_behaviour s = Some (UB, s)"

definition bind :: "('s, 'e, 'a) prog \<Rightarrow> ('a \<Rightarrow> ('s, 'e, 'b) prog) \<Rightarrow> ('s, 'e, 'b) prog" where
  "bind m f s =
     (case m s of
        None \<Rightarrow> None
      | Some (r, s') \<Rightarrow>
          (case r of Ok x \<Rightarrow> f x s' | Err e \<Rightarrow> Some (Err e, s') | Panic \<Rightarrow> Some (Panic, s')
           | UB \<Rightarrow> Some (UB, s')))"

definition gets :: "('s \<Rightarrow> 'a) \<Rightarrow> ('s, 'e, 'a) prog" where
  "gets f s = Some (Ok (f s), s)"

definition modify :: "('s \<Rightarrow> 's) \<Rightarrow> ('s, 'e, unit) prog" where
  "modify f s = Some (Ok (), f s)"

definition assert :: "bool \<Rightarrow> ('s, 'e, unit) prog" where
  "assert P = (if P then ret () else panic)"

text \<open>\<open>xs[a..b]\<close>: a slice out of range panics.\<close>

definition sub_slice :: "nat \<Rightarrow> nat \<Rightarrow> 'a list \<Rightarrow> ('s, 'e, 'a list) prog" where
  "sub_slice a b xs = (if a \<le> b \<and> b \<le> length xs then ret (slice a (b - a) xs) else panic)"

text \<open>A \<open>for\<close> loop that carries an accumulator; an error leaves the loop.\<close>

primrec for_each :: "'i list \<Rightarrow> ('i \<Rightarrow> 'a \<Rightarrow> ('s, 'e, 'a) prog) \<Rightarrow> 'a \<Rightarrow> ('s, 'e, 'a) prog" where
  "for_each [] f a = ret a"
| "for_each (i # is) f a = bind (f i a) (for_each is f)"

text \<open>Run a computation on a component of the state, converting its error (\<open>From\<close>).\<close>

definition zoom ::
  "('s \<Rightarrow> 't) \<Rightarrow> ('t \<Rightarrow> 's \<Rightarrow> 's) \<Rightarrow> ('f \<Rightarrow> 'e) \<Rightarrow> ('t, 'f, 'a) prog \<Rightarrow> ('s, 'e, 'a) prog" where
  "zoom g p h m s =
     (case m (g s) of
        None \<Rightarrow> None
      | Some (r, t) \<Rightarrow>
          Some (case r of Ok x \<Rightarrow> Ok x | Err e \<Rightarrow> Err (h e) | Panic \<Rightarrow> Panic | UB \<Rightarrow> UB, p t s))"

text \<open>\<open>match m.await { Err(e) => h(e), ok => ok }\<close>.\<close>

definition catch :: "('s, 'e, 'a) prog \<Rightarrow> ('e \<Rightarrow> ('s, 'e, 'a) prog) \<Rightarrow> ('s, 'e, 'a) prog" where
  "catch m h s =
     (case m s of
        None \<Rightarrow> None
      | Some (r, s') \<Rightarrow> (case r of Err e \<Rightarrow> h e s' | _ \<Rightarrow> Some (r, s')))"

lemma run_ret [run_simps, simp]: "ret x s = Some (Ok x, s)"
  by (simp add: ret_def)

lemma run_throw [run_simps, simp]: "throw e s = Some (Err e, s)"
  by (simp add: throw_def)

lemma run_panic [run_simps, simp]: "panic s = Some (Panic, s)"
  by (simp add: panic_def)

lemma run_ub [run_simps, simp]: "undefined_behaviour s = Some (UB, s)"
  by (simp add: undefined_behaviour_def)

lemma run_gets [run_simps, simp]: "gets f s = Some (Ok (f s), s)"
  by (simp add: gets_def)

lemma run_modify [run_simps, simp]: "modify f s = Some (Ok (), f s)"
  by (simp add: modify_def)

lemma run_assert [run_simps, simp]: "assert P s = (if P then Some (Ok (), s) else Some (Panic, s))"
  by (simp add: assert_def)

lemma run_sub_slice [run_simps]:
  "sub_slice a b xs s =
     (if a \<le> b \<and> b \<le> length xs then Some (Ok (slice a (b - a) xs), s) else Some (Panic, s))"
  by (simp add: sub_slice_def)

lemma run_bind_Ok [run_simps, simp]: "m s = Some (Ok x, s') \<Longrightarrow> bind m f s = f x s'"
  by (simp add: bind_def)

lemma run_bind_True [run_simps, simp]: "m s = Some (Ok True, s') \<Longrightarrow> bind m f s = f True s'"
  by (simp add: bind_def)

lemma run_bind_False [run_simps, simp]: "m s = Some (Ok False, s') \<Longrightarrow> bind m f s = f False s'"
  by (simp add: bind_def)

lemma run_bind_Err [run_simps, simp]: "m s = Some (Err e, s') \<Longrightarrow> bind m f s = Some (Err e, s')"
  by (simp add: bind_def)

lemma run_bind_Panic [run_simps, simp]: "m s = Some (Panic, s') \<Longrightarrow> bind m f s = Some (Panic, s')"
  by (simp add: bind_def)

lemma run_bind_UB [run_simps, simp]: "m s = Some (UB, s') \<Longrightarrow> bind m f s = Some (UB, s')"
  by (simp add: bind_def)

lemma run_bind_None [run_simps, simp]: "m s = None \<Longrightarrow> bind m f s = None"
  by (simp add: bind_def)

lemma bind_assoc: "bind (bind m f) g = bind m (\<lambda>x. bind (f x) g)"
  by (rule ext) (simp add: bind_def split: option.split res.split prod.split)

lemma for_each_append:
  "for_each (is @ js) f a = bind (for_each is f a) (for_each js f)"
proof (induction "is" arbitrary: a)
  case Nil
  show ?case by (rule ext) simp
next
  case (Cons i "is")
  have "for_each (is @ js) f = (\<lambda>x. bind (for_each is f x) (for_each js f))"
    using Cons by (intro ext) simp
  then show ?case by (simp add: bind_assoc)
qed

lemma bind_mono [partial_function_mono]:
  fixes m :: "('x \<Rightarrow> 'y option) \<Rightarrow> ('s, 'e, 'a) prog"
    and g :: "'a \<Rightarrow> ('x \<Rightarrow> 'y option) \<Rightarrow> ('s, 'e, 'b) prog"
  assumes "\<And>s. mono_option (\<lambda>f. m f s)" and "\<And>x s. mono_option (\<lambda>f. g x f s)"
  shows "mono_option (\<lambda>f. bind (m f) (\<lambda>x. g x f) s)"
proof (rule monotoneI)
  fix f f' :: "'x \<Rightarrow> 'y option"
  assume le: "fun_ord option_ord f f'"
  have m: "option_ord (m f s) (m f' s)" for s
    using assms(1) le by (rule monotoneD [of _ _ _ f f'])
  have g: "option_ord (g x f s) (g x f' s)" for x s
    using assms(2) le by (rule monotoneD [of _ _ _ f f'])
  show "option_ord (bind (m f) (\<lambda>x. g x f) s) (bind (m f') (\<lambda>x. g x f') s)"
  proof (cases "m f s")
    case None
    then show ?thesis by (simp add: bind_def flat_ord_def)
  next
    case (Some y)
    then have "m f' s = Some y" using m [of s] by (simp add: flat_ord_def)
    with Some show ?thesis
      using g by (cases y) (simp add: bind_def flat_ord_def split: res.split)
  qed
qed

section \<open>Total correctness\<close>

definition returns :: "(('e, 'a) res \<times> 's) option \<Rightarrow> ('a \<Rightarrow> 's \<Rightarrow> bool) \<Rightarrow> bool" where
  "returns r Q \<longleftrightarrow> (\<exists>x s. r = Some (Ok x, s) \<and> Q x s)"

lemma returnsI: "r = Some (Ok x, s) \<Longrightarrow> Q x s \<Longrightarrow> returns r Q"
  by (auto simp: returns_def)

lemma returnsE:
  assumes "returns r Q"
  obtains x s where "r = Some (Ok x, s)" and "Q x s"
  using assms by (auto simp: returns_def)

lemma returns_bind [returns_intros]:
  "returns (m s) (\<lambda>x s'. returns (f x s') Q) \<Longrightarrow> returns (bind m f s) Q"
  by (auto simp: returns_def)

lemma returns_bind_iff:
  "returns (bind m f s) Q \<longleftrightarrow> returns (m s) (\<lambda>x s'. returns (f x s') Q)"
  by (auto simp: returns_def bind_def split: option.splits res.splits)

lemma returns_mono: "returns r P \<Longrightarrow> (\<And>x s. P x s \<Longrightarrow> Q x s) \<Longrightarrow> returns r Q"
  by (auto simp: returns_def)

lemma returns_Some [simp]: "returns (Some (Ok x, s)) Q \<longleftrightarrow> Q x s"
  by (auto simp: returns_def)

lemma returns_ret [simp]: "returns (ret x s) Q \<longleftrightarrow> Q x s"
  by simp

text \<open>The \<open>for\<close> rule: an invariant indexed by the iterations already done.\<close>

lemma returns_for_each:
  assumes "I 0 a s"
    and "\<And>k a s. k < length is \<Longrightarrow> I k a s \<Longrightarrow> returns (f (is ! k) a s) (I (Suc k))"
  shows "returns (for_each is f a s) (I (length is))"
  using assms
proof (induction "is" arbitrary: I a s)
  case Nil
  then show ?case by simp
next
  case (Cons i "is")
  have "returns (f i a s) (I 1)"
    using Cons.prems(2) [of 0] Cons.prems(1) by simp
  then obtain a' s' where fi: "f i a s = Some (Ok a', s')" and I1: "I 1 a' s'"
    by (rule returnsE)
  have "returns (for_each is f a' s') (I (Suc (length is)))"
    by (rule Cons.IH [of "\<lambda>k. I (Suc k)"]) (use I1 Cons.prems(2) in \<open>force+\<close>)
  with fi show ?case by simp
qed

lemma returns_for_upt:
  assumes "I 0 a s"
    and "\<And>k a s. k < n \<Longrightarrow> I k a s \<Longrightarrow> returns (f k a s) (I (Suc k))"
  shows "returns (for_each [0..<n] f a s) (I n)"
  using returns_for_each [of I a s "[0..<n]" f] assms by simp

text \<open>The computation ends with a value and \<open>Q\<close>, or with an error and \<open>E\<close>.\<close>

definition ends ::
  "(('e, 'a) res \<times> 's) option \<Rightarrow> ('a \<Rightarrow> 's \<Rightarrow> bool) \<Rightarrow> ('e \<Rightarrow> 's \<Rightarrow> bool) \<Rightarrow> bool" where
  "ends r Q E \<longleftrightarrow> (\<exists>x s. r = Some (Ok x, s) \<and> Q x s) \<or> (\<exists>e s. r = Some (Err e, s) \<and> E e s)"

lemma ends_Some [simp]:
  "ends (Some (Ok x, s)) Q E \<longleftrightarrow> Q x s" "ends (Some (Err e, s)) Q E \<longleftrightarrow> E e s"
  by (auto simp: ends_def)

lemma ends_bind: "returns (m s) (\<lambda>x s'. ends (f x s') Q E) \<Longrightarrow> ends (bind m f s) Q E"
  by (auto simp: returns_def)

lemma ends_bind_iff: "ends (bind m f s) Q E \<longleftrightarrow> ends (m s) (\<lambda>x s'. ends (f x s') Q E) E"
  by (auto simp: ends_def bind_def split: option.splits res.splits)

lemma ends_returns: "returns r Q \<Longrightarrow> ends r Q E"
  by (auto simp: returns_def ends_def)

lemma ends_mono: "ends r Q E \<Longrightarrow> (\<And>x s. Q x s \<Longrightarrow> Q' x s) \<Longrightarrow> (\<And>e s. E e s \<Longrightarrow> E' e s) \<Longrightarrow> ends r Q' E'"
  by (auto simp: ends_def)

lemma endsE:
  assumes "ends r Q E"
  obtains (Ok) x s where "r = Some (Ok x, s)" and "Q x s" | (Err) e s where "r = Some (Err e, s)" and "E e s"
  using assms by (auto simp: ends_def)

lemma ends_for_upt:
  assumes "I 0 a s"
    and "\<And>k a s. k < n \<Longrightarrow> I k a s \<Longrightarrow> ends (f k a s) (I (Suc k)) E"
  shows "ends (for_each [0..<n] f a s) (I n) E"
  using assms
proof (induction n)
  case (Suc n)
  have "ends (for_each [0..<n] f a s) (I n) E" by (rule Suc.IH) (use Suc.prems in auto)
  then have "ends (for_each [0..<n] f a s) (\<lambda>x s'. ends (for_each [n] f x s') (I (Suc n)) E) E"
    by (rule ends_mono) (use Suc.prems(2) [of n] in \<open>auto simp: ends_bind_iff elim: ends_mono\<close>)
  then show ?case by (simp add: for_each_append ends_bind_iff)
qed simp

lemma zoom_Ok: "m (g s) = Some (Ok x, t) \<Longrightarrow> zoom g p h m s = Some (Ok x, p t s)"
  by (simp add: zoom_def)

lemma zoom_Err: "m (g s) = Some (Err e, t) \<Longrightarrow> zoom g p h m s = Some (Err (h e), p t s)"
  by (simp add: zoom_def)

lemma returns_zoom [returns_intros]:
  "returns (m (g s)) (\<lambda>x t. Q x (p t s)) \<Longrightarrow> returns (zoom g p h m s) Q"
  by (auto simp: returns_def zoom_def)

end
