(* ===== verification/Block_Device.thy ===== *)
theory Block_Device
  imports Prelude
begin

text \<open>
  The block-device interface, \<open>library/filesystem/src/device/mod.rs\<close>.

  A \<open>dyn BlockDevice\<close> is a pair of a table of methods and the object's data; \<open>block_device\<close> is
  the table, polymorphic in the data \<open>'d\<close>, and the data is the state the methods run on.  The
  trait's provided methods \<open>write_blocks\<close>, \<open>read_blocks\<close>, \<open>write_zeros\<close> and \<open>clear_blocks\<close> are
  the \<open>default_\<close> definitions, over the methods an implementation supplies.

  The locale \<open>reliable_device\<close> is the contract the trait documents: an access inside
  \<open>0..block_count()\<close> with a buffer of the documented length succeeds, a write changes the named
  blocks and no other, a read returns them.  \<open>single_block_device\<close> is the part of the contract an
  implementation that keeps the provided methods has to prove; its sublocale relation shows that
  the provided methods give the rest.
\<close>

datatype BlockDeviceError = OutOfBounds | OutOfMemory | DeviceIoError

record 'd block_device =
  block_size :: "'d \<Rightarrow> nat"
  block_count :: "'d \<Rightarrow> nat"
  write_block :: "nat \<Rightarrow> u8 list \<Rightarrow> ('d, BlockDeviceError, unit) prog"
  read_block :: "nat \<Rightarrow> u8 list \<Rightarrow> ('d, BlockDeviceError, u8 list) prog"
  write_blocks :: "nat \<Rightarrow> nat \<Rightarrow> u8 list \<Rightarrow> ('d, BlockDeviceError, unit) prog"
  read_blocks :: "nat \<Rightarrow> nat \<Rightarrow> u8 list \<Rightarrow> ('d, BlockDeviceError, u8 list) prog"
  write_zeros :: "nat \<Rightarrow> nat \<Rightarrow> ('d, BlockDeviceError, unit) prog"
  clear_blocks :: "nat \<Rightarrow> nat \<Rightarrow> ('d, BlockDeviceError, unit) prog"

section \<open>Provided methods\<close>

definition default_write_blocks ::
  "('d \<Rightarrow> nat) \<Rightarrow> (nat \<Rightarrow> u8 list \<Rightarrow> ('d, BlockDeviceError, unit) prog)
   \<Rightarrow> nat \<Rightarrow> nat \<Rightarrow> u8 list \<Rightarrow> ('d, BlockDeviceError, unit) prog" where
  "default_write_blocks bsize wb block_index count buf =
     bind (gets bsize) (\<lambda>size.
       for_each [0..<count] (\<lambda>i _.
         bind (sub_slice (i * size) (i * size + size) buf) (\<lambda>part.
         wb (block_index + i) part)) ())"

definition default_read_blocks ::
  "('d \<Rightarrow> nat) \<Rightarrow> (nat \<Rightarrow> u8 list \<Rightarrow> ('d, BlockDeviceError, u8 list) prog)
   \<Rightarrow> nat \<Rightarrow> nat \<Rightarrow> u8 list \<Rightarrow> ('d, BlockDeviceError, u8 list) prog" where
  "default_read_blocks bsize rb block_index count buf =
     bind (gets bsize) (\<lambda>size.
       for_each [0..<count] (\<lambda>i buf.
         bind (sub_slice (i * size) (i * size + size) buf) (\<lambda>part.
         bind (rb (block_index + i) part) (\<lambda>part.
         ret (patch (i * size) part buf)))) buf)"

definition default_write_zeros ::
  "('d \<Rightarrow> nat) \<Rightarrow> (nat \<Rightarrow> nat \<Rightarrow> u8 list \<Rightarrow> ('d, BlockDeviceError, unit) prog)
   \<Rightarrow> nat \<Rightarrow> nat \<Rightarrow> ('d, BlockDeviceError, unit) prog" where
  "default_write_zeros bsize wbs block_index count =
     bind (gets bsize) (\<lambda>size. wbs block_index count (replicate (size * count) 0))"

definition default_clear_blocks ::
  "(nat \<Rightarrow> nat \<Rightarrow> ('d, BlockDeviceError, unit) prog)
   \<Rightarrow> nat \<Rightarrow> nat \<Rightarrow> ('d, BlockDeviceError, unit) prog" where
  "default_clear_blocks wz block_index count = wz block_index count"

text \<open>A method table that keeps every provided method.\<close>

definition default_device ::
  "('d \<Rightarrow> nat) \<Rightarrow> ('d \<Rightarrow> nat)
   \<Rightarrow> (nat \<Rightarrow> u8 list \<Rightarrow> ('d, BlockDeviceError, unit) prog)
   \<Rightarrow> (nat \<Rightarrow> u8 list \<Rightarrow> ('d, BlockDeviceError, u8 list) prog) \<Rightarrow> 'd block_device" where
  "default_device bsize bcount wb rb =
     \<lparr>block_size = bsize, block_count = bcount, write_block = wb, read_block = rb,
      write_blocks = default_write_blocks bsize wb,
      read_blocks = default_read_blocks bsize rb,
      write_zeros = default_write_zeros bsize (default_write_blocks bsize wb),
      clear_blocks = default_clear_blocks
        (default_write_zeros bsize (default_write_blocks bsize wb))\<rparr>"

section \<open>The contract\<close>

text \<open>\<open>blocks\<close> is the content of the device and \<open>dinv\<close> the invariant of its data.\<close>

locale single_block_device =
  fixes bsize :: "'d \<Rightarrow> nat" and bcount :: "'d \<Rightarrow> nat"
    and wb :: "nat \<Rightarrow> u8 list \<Rightarrow> ('d, BlockDeviceError, unit) prog"
    and rb :: "nat \<Rightarrow> u8 list \<Rightarrow> ('d, BlockDeviceError, u8 list) prog"
    and blocks :: "'d \<Rightarrow> u8 list list" and dinv :: "'d \<Rightarrow> bool"
  assumes count_blocks: "dinv d \<Longrightarrow> bcount d = length (blocks d)"
    and length_block: "dinv d \<Longrightarrow> i < length (blocks d) \<Longrightarrow> length (blocks d ! i) = bsize d"
    and read_ok: "dinv d \<Longrightarrow> i < length (blocks d) \<Longrightarrow> length buf = bsize d \<Longrightarrow>
      rb i buf d = Some (Ok (blocks d ! i), d)"
    and write_ok: "dinv d \<Longrightarrow> i < length (blocks d) \<Longrightarrow> length buf = bsize d \<Longrightarrow>
      returns (wb i buf d)
        (\<lambda>_ d'. dinv d' \<and> bsize d' = bsize d \<and> blocks d' = (blocks d)[i := buf])"

locale reliable_device =
  fixes dev :: "'d block_device" and blocks :: "'d \<Rightarrow> u8 list list" and dinv :: "'d \<Rightarrow> bool"
  assumes block_count_blocks: "dinv d \<Longrightarrow> block_count dev d = length (blocks d)"
    and length_block: "dinv d \<Longrightarrow> i < length (blocks d) \<Longrightarrow>
      length (blocks d ! i) = block_size dev d"
    and read_block_ok: "dinv d \<Longrightarrow> i < length (blocks d) \<Longrightarrow> length buf = block_size dev d \<Longrightarrow>
      read_block dev i buf d = Some (Ok (blocks d ! i), d)"
    and write_block_ok: "dinv d \<Longrightarrow> i < length (blocks d) \<Longrightarrow> length buf = block_size dev d \<Longrightarrow>
      returns (write_block dev i buf d)
        (\<lambda>_ d'. dinv d' \<and> block_size dev d' = block_size dev d \<and> blocks d' = (blocks d)[i := buf])"
    and read_blocks_ok: "dinv d \<Longrightarrow> i + n \<le> length (blocks d) \<Longrightarrow>
      length buf = n * block_size dev d \<Longrightarrow>
      read_blocks dev i n buf d = Some (Ok (concat (slice i n (blocks d))), d)"
    and write_blocks_ok: "dinv d \<Longrightarrow> i + n \<le> length (blocks d) \<Longrightarrow>
      length buf = n * block_size dev d \<Longrightarrow>
      returns (write_blocks dev i n buf d)
        (\<lambda>_ d'. dinv d' \<and> block_size dev d' = block_size dev d \<and>
           blocks d' = patch i (chunks (block_size dev d) n buf) (blocks d))"
    and write_zeros_ok: "dinv d \<Longrightarrow> i + n \<le> length (blocks d) \<Longrightarrow>
      returns (write_zeros dev i n d)
        (\<lambda>_ d'. dinv d' \<and> block_size dev d' = block_size dev d \<and>
           blocks d' = patch i (replicate n (replicate (block_size dev d) 0)) (blocks d))"

context single_block_device
begin

lemma default_write_blocks_ok:
  assumes inv: "dinv d" and rng: "i + n \<le> length (blocks d)" and len: "length buf = n * bsize d"
  shows "returns (default_write_blocks bsize wb i n buf d)
    (\<lambda>_ d'. dinv d' \<and> bsize d' = bsize d \<and>
       blocks d' = patch i (chunks (bsize d) n buf) (blocks d))"
proof -
  let ?I = "\<lambda>k _ d'. dinv d' \<and> bsize d' = bsize d \<and>
      blocks d' = patch i (chunks (bsize d) k buf) (blocks d)"
  let ?f = "\<lambda>k _. bind (sub_slice (k * bsize d) (k * bsize d + bsize d) buf) (wb (i + k))"
  have step: "returns (?f k u d') (?I (Suc k))" if k: "k < n" and I: "?I k u d'" for k u d'
  proof -
    have le: "k * bsize d + bsize d \<le> length buf" using k len chunk_bound by simp
    have "returns (wb (i + k) (slice (k * bsize d) (bsize d) buf) d')
      (\<lambda>_ e. dinv e \<and> bsize e = bsize d' \<and>
         blocks e = (blocks d')[i + k := slice (k * bsize d) (bsize d) buf])"
      using I k rng le by (intro write_ok) auto
    moreover have "(patch i (chunks (bsize d) k buf) (blocks d))
        [i + k := slice (k * bsize d) (bsize d) buf] =
      patch i (chunks (bsize d) (Suc k) buf) (blocks d)"
      using k rng patch_patch_append [of i "chunks (bsize d) k buf" _ "blocks d"]
      by (simp add: chunks_Suc patch_singleton [symmetric])
    ultimately show ?thesis
      using I le by (auto simp: run_simps elim!: returns_mono)
  qed
  have "returns (for_each [0..<n] ?f () d) (?I n)"
    by (rule returns_for_upt) (use inv step in \<open>simp_all add: chunks_def\<close>)
  then show ?thesis by (simp add: default_write_blocks_def)
qed

lemma default_read_blocks_ok:
  assumes inv: "dinv d" and rng: "i + n \<le> length (blocks d)" and len: "length buf = n * bsize d"
  shows "default_read_blocks bsize rb i n buf d = Some (Ok (concat (slice i n (blocks d))), d)"
proof -
  let ?B = "\<lambda>k. concat (slice i k (blocks d))"
  let ?I = "\<lambda>k b d'. d' = d \<and> b = patch 0 (?B k) buf"
  let ?f = "\<lambda>k b. bind (sub_slice (k * bsize d) (k * bsize d + bsize d) b) (\<lambda>part.
     bind (rb (i + k) part) (\<lambda>part. ret (patch (k * bsize d) part b)))"
  have lenB: "length (?B k) = k * bsize d" if "k \<le> n" for k
  proof -
    have "length x = bsize d" if "x \<in> set (slice i k (blocks d))" for x
      using that inv length_block by (auto simp: slice_def in_set_conv_nth)
    with that rng show ?thesis by (simp add: length_concat_uniform)
  qed
  have step: "returns (?f k b d') (?I (Suc k))" if k: "k < n" and I: "?I k b d'" for k b d'
  proof -
    have le: "k * bsize d + bsize d \<le> length buf" using k len chunk_bound by simp
    have lb: "length b = length buf" using I k lenB [of k] le by simp
    have blk: "length (blocks d ! (i + k)) = bsize d" using inv k rng length_block by simp
    have Suc: "?B (Suc k) = ?B k @ blocks d ! (i + k)"
      using k rng by (simp add: slice_append [of i k 1, simplified] slice_Suc)
    have "patch (k * bsize d) (blocks d ! (i + k)) b = patch 0 (?B (Suc k)) buf"
      using patch_patch_append [of 0 "?B k" "blocks d ! (i + k)" buf] I le blk lenB [of k] k
      by (simp add: Suc)
    moreover have "rb (i + k) (slice (k * bsize d) (bsize d) b) d = Some (Ok (blocks d ! (i + k)), d)"
      using inv k rng le lb by (intro read_ok) auto
    ultimately show ?thesis
      using I le lb by (simp add: run_simps)
  qed
  have "returns (for_each [0..<n] ?f buf d) (?I n)"
    by (rule returns_for_upt) (use step in \<open>simp_all\<close>)
  then show ?thesis
    using lenB [of n] len
    by (auto simp: default_read_blocks_def patch_whole elim!: returnsE)
qed

lemma default_write_zeros_ok:
  assumes inv: "dinv d" and rng: "i + n \<le> length (blocks d)"
  shows "returns (default_write_zeros bsize (default_write_blocks bsize wb) i n d)
    (\<lambda>_ d'. dinv d' \<and> bsize d' = bsize d \<and>
       blocks d' = patch i (replicate n (replicate (bsize d) 0)) (blocks d))"
proof -
  let ?z = "replicate (bsize d * n) (0 :: u8)"
  have "chunks (bsize d) n ?z = replicate n (replicate (bsize d) 0)"
    by (metis chunks_replicate mult.commute)
  then show ?thesis
    using default_write_blocks_ok [OF inv rng, of ?z]
    by (simp add: default_write_zeros_def mult.commute)
qed

end

sublocale single_block_device \<subseteq> reliable: reliable_device "default_device bsize bcount wb rb" blocks dinv
  by unfold_locales
    (simp_all add: default_device_def count_blocks length_block read_ok write_ok
      default_read_blocks_ok default_write_blocks_ok default_write_zeros_ok)

end
