(* ===== verification/Memory_Device.thy ===== *)
theory Memory_Device
  imports Block_Device
begin

text \<open>
  The in-memory block device, \<open>library/filesystem/src/device/memory.rs\<close>: a flat byte vector cut
  into blocks of equal size.  The component meets the single-block contract, so the interpretation
  \<open>memory\<close> makes every consequence of the block-device contract available for it.
\<close>

record MemoryDevice =
  md_data :: "u8 list"
  md_block_size :: nat
  md_block_count :: nat

text \<open>
  \<open>MemoryDevice::new\<close>: the size is rounded up to whole blocks in \<open>u64\<close> arithmetic; a block size
  of zero panics in the division.
\<close>

definition memory_new :: "nat \<Rightarrow> nat \<Rightarrow> (BlockDeviceError, MemoryDevice) res" where
  "memory_new size_in_bytes bsize =
     (if bsize = 0 then Panic
      else let aligned_size = ((size_in_bytes + bsize - 1) mod 2 ^ 64) div bsize * bsize in
        Ok \<lparr>md_data = replicate aligned_size 0, md_block_size = bsize,
            md_block_count = aligned_size div bsize\<rparr>)"

definition memory_write_block ::
  "nat \<Rightarrow> u8 list \<Rightarrow> (MemoryDevice, BlockDeviceError, unit) prog" where
  "memory_write_block block_index buf d =
     (if block_index \<ge> md_block_count d then Some (Err OutOfBounds, d)
      else if length buf < md_block_size d then Some (Err OutOfBounds, d)
      else let start = block_index * md_block_size d; fin = start + md_block_size d in
        if fin \<le> length (md_data d)
        then Some (Ok (), d\<lparr>md_data := patch start (take (md_block_size d) buf) (md_data d)\<rparr>)
        else Some (Panic, d))"

definition memory_read_block ::
  "nat \<Rightarrow> u8 list \<Rightarrow> (MemoryDevice, BlockDeviceError, u8 list) prog" where
  "memory_read_block block_index buf d =
     (if block_index \<ge> md_block_count d then Some (Err OutOfBounds, d)
      else if length buf < md_block_size d then Some (Err OutOfBounds, d)
      else let start = block_index * md_block_size d; fin = start + md_block_size d in
        if fin \<le> length (md_data d)
        then Some (Ok (patch 0 (slice start (md_block_size d) (md_data d)) buf), d)
        else Some (Panic, d))"

definition memory_device :: "MemoryDevice block_device" where
  "memory_device = default_device md_block_size md_block_count memory_write_block memory_read_block"

section \<open>Contract\<close>

definition memory_inv :: "MemoryDevice \<Rightarrow> bool" where
  "memory_inv d \<longleftrightarrow> length (md_data d) = md_block_count d * md_block_size d"

definition memory_blocks :: "MemoryDevice \<Rightarrow> u8 list list" where
  "memory_blocks d = chunks (md_block_size d) (md_block_count d) (md_data d)"

lemma memory_new_inv: "memory_new sz bsize = Ok d \<Longrightarrow> memory_inv d"
  by (auto simp: memory_new_def memory_inv_def Let_def split: if_splits)

lemma memory_block_range:
  "memory_inv d \<Longrightarrow> i < md_block_count d \<Longrightarrow>
   i * md_block_size d + md_block_size d \<le> length (md_data d)"
  by (auto simp: memory_inv_def intro: chunk_bound)

lemma chunks_patch:
  assumes i: "i < n" and len: "n * k \<le> length xs" and ys: "length ys = k"
  shows "chunks k n (patch (i * k) ys xs) = (chunks k n xs)[i := ys]"
proof (rule nth_equalityI)
  fix j assume "j < length (chunks k n (patch (i * k) ys xs))"
  then have j: "j < n" by simp
  have ib: "i * k + k \<le> length xs" and jb: "j * k + k \<le> length xs"
    using i j len chunk_bound by auto
  show "chunks k n (patch (i * k) ys xs) ! j = (chunks k n xs)[i := ys] ! j"
  proof (cases "j = i")
    case True
    with j ib ys show ?thesis by simp
  next
    case False
    have "j * k + k \<le> i * k \<or> i * k + k \<le> j * k"
      using False chunk_bound [of j i k] chunk_bound [of i j k] by (cases "j < i") auto
    with False j ib jb ys show ?thesis by (simp add: slice_patch_other)
  qed
qed simp

interpretation memory: single_block_device md_block_size md_block_count
  memory_write_block memory_read_block memory_blocks memory_inv
proof unfold_locales
  fix d i and buf :: "u8 list"
  assume inv: "memory_inv d"
  show "md_block_count d = length (memory_blocks d)"
    by (simp add: memory_blocks_def)
  assume i: "i < length (memory_blocks d)"
  then have i': "i < md_block_count d" by (simp add: memory_blocks_def)
  note rng = memory_block_range [OF inv i']
  show "length (memory_blocks d ! i) = md_block_size d"
    using i' rng by (simp add: memory_blocks_def)
  assume buf: "length buf = md_block_size d"
  show "memory_read_block i buf d = Some (Ok (memory_blocks d ! i), d)"
    using i' rng buf by (simp add: memory_read_block_def memory_blocks_def patch_whole)
  show "returns (memory_write_block i buf d)
    (\<lambda>_ d'. memory_inv d' \<and> md_block_size d' = md_block_size d \<and>
       memory_blocks d' = (memory_blocks d)[i := buf])"
    using i' rng buf inv
    by (simp add: memory_write_block_def memory_blocks_def memory_inv_def chunks_patch)
qed

lemma memory_reliable: "reliable_device memory_device memory_blocks memory_inv"
  unfolding memory_device_def by (rule memory.reliable.reliable_device_axioms)

end
