(* ===== verification/Mbr.thy ===== *)
theory Mbr
  imports Memory_Device
begin

text \<open>
  MBR partitions, \<open>library/filesystem/src/device/mbr.rs\<close>.

  A partition device holds an \<open>Arc\<close> of the disk and its own, immutable, bounds: the model keeps the
  bounds in \<open>MbrPartitionDevice\<close> and runs the methods on the state of the shared disk, so that two
  partitions of one disk do see each other's writes.  \<open>mbr_device\<close> is the method table of a
  partition.  The \<open>u64\<close> additions of the range checks are written with their wrap-around.

  A partition of a reliable disk is a reliable device (\<open>mbr_reliable\<close>); the range checks however
  compare with the partition's end on the disk instead of its length, and \<open>mbr_escape\<close> shows what
  that lets through.  \<open>mbr_format\<close> followed by \<open>mbr_mount\<close> gives the partitions back.
\<close>

unbundle bit_operations_syntax

definition MBR_PARTITION_TABLE_OFFSET :: nat where
  "MBR_PARTITION_TABLE_OFFSET = 446"

definition MBR_PARTITION_ENTRY_SIZE :: nat where
  "MBR_PARTITION_ENTRY_SIZE = 16"

definition MBR_PARTITION_ENTRY_COUNT :: nat where
  "MBR_PARTITION_ENTRY_COUNT = 4"

lemmas mbr_const_defs =
  MBR_PARTITION_TABLE_OFFSET_def MBR_PARTITION_ENTRY_SIZE_def MBR_PARTITION_ENTRY_COUNT_def

record MbrPartitionDevice =
  mp_partition_type :: u8
  mp_start :: nat
  mp_end :: nat

datatype MbrMountError = MbrMountIo BlockDeviceError | MbrMountBlockSize

datatype MbrFormatError = MbrFormatIo BlockDeviceError | MbrFormatBlockSize | MbrBadArgument

record MbrPartitionEntry =
  pe_bootable :: bool
  pe_start :: nat
  pe_end :: nat
  pe_partition_type :: u8

section \<open>Partition table\<close>

text \<open>\<open>lba_to_chs\<close>: the cylinder/head/sector triple of a logical block address.\<close>

definition lba_to_chs :: "nat \<Rightarrow> u8 \<times> u8 \<times> u8" where
  "lba_to_chs lba =
     (let cylinder = lba div (256 * 63);
          head = lba mod (256 * 63) div 63;
          sectors = lba mod 63 + 1;
          (cylinder, head, sectors) =
            (if cylinder > 1023 \<or> head > 255 \<or> sectors > 63 then (1023, 255, 63)
             else (cylinder, head, sectors))
      in (of_nat head,
          of_nat (sectors AND 0x3f) OR of_nat (drop_bit 6 cylinder AND 0xc0),
          of_nat (cylinder AND 0xff)))"

text \<open>One table entry of \<open>mount\<close>: an unused or out-of-range entry is skipped.\<close>

definition mbr_parse_entry :: "nat \<Rightarrow> u8 list \<Rightarrow> MbrPartitionDevice option" where
  "mbr_parse_entry bcount entry =
     (let ptype = entry ! 4 in
      if ptype = 0 then None
      else let start = from_le (slice 8 4 entry); count = from_le (slice 12 4 entry) in
        if start + count \<ge> 2 ^ 32 then None
        else let fin = start + count in
          if start = 0 \<or> start \<ge> bcount \<or> fin > bcount then None
          else Some \<lparr>mp_partition_type = ptype, mp_start = start, mp_end = fin\<rparr>)"

definition mbr_mount ::
  "'d block_device \<Rightarrow> ('d, MbrMountError, MbrPartitionDevice option list) prog" where
  "mbr_mount dev =
     bind (gets (block_count dev)) (\<lambda>bcount.
     bind (gets (block_size dev)) (\<lambda>bsize.
     if bsize < 512 then throw MbrMountBlockSize
     else
       bind (zoom id (\<lambda>t _. t) MbrMountIo (read_block dev 0 (replicate bsize 0))) (\<lambda>buf.
       for_each [0..<MBR_PARTITION_ENTRY_COUNT] (\<lambda>i partitions.
         let slice_start = MBR_PARTITION_TABLE_OFFSET + i * MBR_PARTITION_ENTRY_SIZE;
             slice_end = slice_start + MBR_PARTITION_ENTRY_SIZE in
         bind (sub_slice slice_start slice_end buf) (\<lambda>entry.
         ret (partitions[i := mbr_parse_entry bcount entry])))
         (replicate MBR_PARTITION_ENTRY_COUNT None))))"

text \<open>The sixteen bytes \<open>format\<close> writes for a partition.\<close>

definition mbr_entry_bytes :: "MbrPartitionEntry \<Rightarrow> u8 list" where
  "mbr_entry_bytes p =
     (let (h1, s1, c1) = lba_to_chs (pe_start p); (h2, s2, c2) = lba_to_chs (pe_end p) in
      [if pe_bootable p then 0x80 else 0, h1, s1, c1, pe_partition_type p, h2, s2, c2]
      @ to_le 4 (pe_start p) @ to_le 4 (pe_end p - pe_start p))"

definition mbr_format ::
  "'d block_device \<Rightarrow> MbrPartitionEntry option list
   \<Rightarrow> ('d, MbrFormatError, MbrPartitionDevice option list) prog" where
  "mbr_format dev parts =
     bind (gets (block_count dev)) (\<lambda>bcount.
     bind (gets (block_size dev)) (\<lambda>bsize.
     if bsize < 512 then throw MbrFormatBlockSize
     else
       bind (zoom id (\<lambda>t _. t) MbrFormatIo (read_block dev 0 (replicate bsize 0))) (\<lambda>buf.
       bind (for_each [0..<MBR_PARTITION_ENTRY_COUNT] (\<lambda>i (buf, partitions).
         let slice_start = MBR_PARTITION_TABLE_OFFSET + i * MBR_PARTITION_ENTRY_SIZE;
             slice_end = slice_start + MBR_PARTITION_ENTRY_SIZE in
         bind (sub_slice slice_start slice_end buf) (\<lambda>_.
         case parts ! i of
           None \<Rightarrow> ret (patch slice_start (replicate MBR_PARTITION_ENTRY_SIZE 0) buf, partitions)
         | Some p \<Rightarrow>
             if pe_partition_type p = 0 \<or> pe_start p = 0 \<or> pe_start p > pe_end p
                \<or> pe_end p > bcount
             then throw MbrBadArgument
             else ret (patch slice_start (mbr_entry_bytes p) buf,
               partitions[i := Some \<lparr>mp_partition_type = pe_partition_type p,
                 mp_start = pe_start p, mp_end = pe_end p\<rparr>])))
         (buf, replicate MBR_PARTITION_ENTRY_COUNT None)) (\<lambda>(buf, partitions).
       bind (zoom id (\<lambda>t _. t) MbrFormatIo (write_block dev 0 buf)) (\<lambda>_.
       ret partitions)))))"

section \<open>The partition as a block device\<close>

definition mbr_block_count :: "MbrPartitionDevice \<Rightarrow> 'd \<Rightarrow> nat" where
  "mbr_block_count p d = mp_end p - mp_start p"

definition mbr_write_block ::
  "'d block_device \<Rightarrow> MbrPartitionDevice \<Rightarrow> nat \<Rightarrow> u8 list \<Rightarrow> ('d, BlockDeviceError, unit) prog" where
  "mbr_write_block dev p block_index buf =
     (if block_index > mp_end p then throw OutOfBounds
      else write_block dev (wadd64 block_index (mp_start p)) buf)"

definition mbr_read_block ::
  "'d block_device \<Rightarrow> MbrPartitionDevice \<Rightarrow> nat \<Rightarrow> u8 list \<Rightarrow> ('d, BlockDeviceError, u8 list) prog" where
  "mbr_read_block dev p block_index buf =
     (if block_index > mp_end p then throw OutOfBounds
      else read_block dev (wadd64 block_index (mp_start p)) buf)"

definition mbr_write_blocks ::
  "'d block_device \<Rightarrow> MbrPartitionDevice \<Rightarrow> nat \<Rightarrow> nat \<Rightarrow> u8 list
   \<Rightarrow> ('d, BlockDeviceError, unit) prog" where
  "mbr_write_blocks dev p block_index count buf =
     (if wadd64 block_index count > mp_end p then throw OutOfBounds
      else write_blocks dev (wadd64 block_index (mp_start p)) count buf)"

definition mbr_read_blocks ::
  "'d block_device \<Rightarrow> MbrPartitionDevice \<Rightarrow> nat \<Rightarrow> nat \<Rightarrow> u8 list
   \<Rightarrow> ('d, BlockDeviceError, u8 list) prog" where
  "mbr_read_blocks dev p block_index count buf =
     (if wadd64 block_index count > mp_end p then throw OutOfBounds
      else read_blocks dev (wadd64 block_index (mp_start p)) count buf)"

definition mbr_write_zeros ::
  "'d block_device \<Rightarrow> MbrPartitionDevice \<Rightarrow> nat \<Rightarrow> nat \<Rightarrow> ('d, BlockDeviceError, unit) prog" where
  "mbr_write_zeros dev p block_index count =
     (if wadd64 block_index count > mp_end p then throw OutOfBounds
      else write_zeros dev (wadd64 block_index (mp_start p)) count)"

definition mbr_clear_blocks ::
  "'d block_device \<Rightarrow> MbrPartitionDevice \<Rightarrow> nat \<Rightarrow> nat \<Rightarrow> ('d, BlockDeviceError, unit) prog" where
  "mbr_clear_blocks dev p block_index count =
     (if wadd64 block_index count > mp_end p then throw OutOfBounds
      else clear_blocks dev (wadd64 block_index (mp_start p)) count)"

definition mbr_device :: "'d block_device \<Rightarrow> MbrPartitionDevice \<Rightarrow> 'd block_device" where
  "mbr_device dev p =
     \<lparr>block_size = block_size dev, block_count = mbr_block_count p,
      write_block = mbr_write_block dev p, read_block = mbr_read_block dev p,
      write_blocks = mbr_write_blocks dev p, read_blocks = mbr_read_blocks dev p,
      write_zeros = mbr_write_zeros dev p, clear_blocks = mbr_clear_blocks dev p\<rparr>"

section \<open>A partition of a reliable disk is a reliable device\<close>

definition mbr_blocks :: "('d \<Rightarrow> u8 list list) \<Rightarrow> MbrPartitionDevice \<Rightarrow> 'd \<Rightarrow> u8 list list" where
  "mbr_blocks blocks p d = slice (mp_start p) (mp_end p - mp_start p) (blocks d)"

definition mbr_inv ::
  "('d \<Rightarrow> u8 list list) \<Rightarrow> ('d \<Rightarrow> bool) \<Rightarrow> MbrPartitionDevice \<Rightarrow> 'd \<Rightarrow> bool" where
  "mbr_inv blocks dinv p d \<longleftrightarrow>
     dinv d \<and> mp_start p \<le> mp_end p \<and> mp_end p \<le> length (blocks d) \<and> mp_end p < 2 ^ 32"

lemma slice_list_update:
  "i < n \<Longrightarrow> st + n \<le> length xs \<Longrightarrow> slice st n (xs[st + i := y]) = (slice st n xs)[i := y]"
  by (simp add: slice_def drop_update_swap take_update_swap)

context reliable_device
begin

lemma mbr_reliable_device:
  "reliable_device (mbr_device dev p) (mbr_blocks blocks p) (mbr_inv blocks dinv p)"
proof unfold_locales
  fix d i n and buf :: "u8 list"
  let ?st = "mp_start p" and ?fin = "mp_end p"
  assume "mbr_inv blocks dinv p d"
  then have inv: "dinv d" and le: "?st \<le> ?fin" "?fin \<le> length (blocks d)" "?fin < 2 ^ 32"
    by (auto simp: mbr_inv_def)
  have small: "wadd64 j ?st = ?st + j" if "j \<le> ?fin" for j
    using that le by (simp add: wadd64_small add.commute)
  have small2: "wadd64 j m = j + m" if "j + m \<le> ?fin" for j m
    using that le by (simp add: wadd64_small)
  have len: "length (mbr_blocks blocks p d) = ?fin - ?st"
    using le by (simp add: mbr_blocks_def)
  show "block_count (mbr_device dev p) d = length (mbr_blocks blocks p d)"
    using len by (simp add: mbr_device_def mbr_block_count_def)
  {
    assume "i < length (mbr_blocks blocks p d)"
    then have i: "i < ?fin - ?st" by (simp add: len)
    then have nth: "mbr_blocks blocks p d ! i = blocks d ! (?st + i)"
      using le by (simp add: mbr_blocks_def slice_nth)
    show "length (mbr_blocks blocks p d ! i) = block_size (mbr_device dev p) d"
      using i le inv by (simp add: nth length_block mbr_device_def)
    assume buf: "length buf = block_size (mbr_device dev p) d"
    then have buf': "length buf = block_size dev d" by (simp add: mbr_device_def)
    show "read_block (mbr_device dev p) i buf d = Some (Ok (mbr_blocks blocks p d ! i), d)"
      using i le inv buf' small [of i]
      by (simp add: mbr_device_def mbr_read_block_def read_block_ok nth)
    have "returns (write_block dev (?st + i) buf d)
        (\<lambda>_ d'. dinv d' \<and> block_size dev d' = block_size dev d \<and>
           blocks d' = (blocks d)[?st + i := buf])"
      using i le inv buf' by (intro write_block_ok) auto
    then show "returns (write_block (mbr_device dev p) i buf d)
      (\<lambda>_ d'. mbr_inv blocks dinv p d' \<and>
         block_size (mbr_device dev p) d' = block_size (mbr_device dev p) d \<and>
         mbr_blocks blocks p d' = (mbr_blocks blocks p d)[i := buf])"
      using i le
      by (auto simp: mbr_device_def mbr_write_block_def small mbr_inv_def mbr_blocks_def
          slice_list_update elim!: returns_mono)
  }
  assume "i + n \<le> length (mbr_blocks blocks p d)"
  then have i: "i + n \<le> ?fin - ?st" by (simp add: len)
  then have w: "wadd64 i ?st = ?st + i" "wadd64 i n = i + n"
    using le by (simp_all add: small small2)
  have "returns (write_zeros dev (?st + i) n d)
      (\<lambda>_ d'. dinv d' \<and> block_size dev d' = block_size dev d \<and>
         blocks d' = patch (?st + i) (replicate n (replicate (block_size dev d) 0)) (blocks d))"
    using i le inv by (intro write_zeros_ok) auto
  then show "returns (write_zeros (mbr_device dev p) i n d)
    (\<lambda>_ d'. mbr_inv blocks dinv p d' \<and>
       block_size (mbr_device dev p) d' = block_size (mbr_device dev p) d \<and>
       mbr_blocks blocks p d' =
         patch i (replicate n (replicate (block_size (mbr_device dev p) d) 0)) (mbr_blocks blocks p d))"
    using i le
    by (auto simp: mbr_device_def mbr_write_zeros_def w mbr_inv_def mbr_blocks_def
        slice_patch_inside elim!: returns_mono)
  assume "length buf = n * block_size (mbr_device dev p) d"
  then have buf: "length buf = n * block_size dev d" by (simp add: mbr_device_def)
  show "read_blocks (mbr_device dev p) i n buf d =
      Some (Ok (concat (slice i n (mbr_blocks blocks p d))), d)"
    using i le inv buf
    by (simp add: mbr_device_def mbr_read_blocks_def w read_blocks_ok mbr_blocks_def
        slice_slice)
  have "returns (write_blocks dev (?st + i) n buf d)
      (\<lambda>_ d'. dinv d' \<and> block_size dev d' = block_size dev d \<and>
         blocks d' = patch (?st + i) (chunks (block_size dev d) n buf) (blocks d))"
    using i le inv buf by (intro write_blocks_ok) auto
  then show "returns (write_blocks (mbr_device dev p) i n buf d)
    (\<lambda>_ d'. mbr_inv blocks dinv p d' \<and>
       block_size (mbr_device dev p) d' = block_size (mbr_device dev p) d \<and>
       mbr_blocks blocks p d' =
         patch i (chunks (block_size (mbr_device dev p) d) n buf) (mbr_blocks blocks p d))"
    using i le
    by (auto simp: mbr_device_def mbr_write_blocks_def w mbr_inv_def mbr_blocks_def
        slice_patch_inside elim!: returns_mono)
qed

end

interpretation memory_partition: reliable_device "mbr_device memory_device p"
  "mbr_blocks memory_blocks p" "mbr_inv memory_blocks memory_inv p" for p
  using memory_reliable by (rule reliable_device.mbr_reliable_device)

section \<open>Format and mount\<close>

text \<open>A table entry that \<open>format\<close> accepts and that names at least one block of the disk's range.\<close>

definition mbr_entry_ok :: "nat \<Rightarrow> MbrPartitionEntry \<Rightarrow> bool" where
  "mbr_entry_ok bcount p \<longleftrightarrow>
     pe_partition_type p \<noteq> 0 \<and> 0 < pe_start p \<and> pe_start p \<le> pe_end p \<and> pe_start p < bcount \<and>
     pe_end p \<le> bcount \<and> pe_end p < 2 ^ 32"

definition mbr_entry_device :: "MbrPartitionEntry \<Rightarrow> MbrPartitionDevice" where
  "mbr_entry_device p =
     \<lparr>mp_partition_type = pe_partition_type p, mp_start = pe_start p, mp_end = pe_end p\<rparr>"

definition mbr_slot_bytes :: "MbrPartitionEntry option \<Rightarrow> u8 list" where
  "mbr_slot_bytes e = (case e of None \<Rightarrow> replicate 16 0 | Some p \<Rightarrow> mbr_entry_bytes p)"

lemma length_mbr_entry_bytes [simp]: "length (mbr_entry_bytes p) = 16"
  by (simp add: mbr_entry_bytes_def split: prod.split)

lemma length_mbr_slot_bytes [simp]: "length (mbr_slot_bytes e) = 16"
  by (simp add: mbr_slot_bytes_def split: option.split)

lemma mbr_parse_slot_bytes:
  assumes "\<And>p. e = Some p \<Longrightarrow> mbr_entry_ok bcount p"
  shows "mbr_parse_entry bcount (mbr_slot_bytes e) = map_option mbr_entry_device e"
proof (cases e)
  case None
  then show ?thesis by (simp add: mbr_slot_bytes_def mbr_parse_entry_def numeral_eq_Suc)
next
  case (Some p)
  with assms have ok: "mbr_entry_ok bcount p" by simp
  have b4: "mbr_entry_bytes p ! 4 = pe_partition_type p"
    and s8: "slice 8 4 (mbr_entry_bytes p) = to_le 4 (pe_start p)"
    and s12: "slice 12 4 (mbr_entry_bytes p) = to_le 4 (pe_end p - pe_start p)"
    by (simp_all add: mbr_entry_bytes_def slice_def split: prod.split)
  show ?thesis
    using Some ok
    by (auto simp: mbr_slot_bytes_def mbr_parse_entry_def b4 s8 s12 mbr_entry_ok_def
        mbr_entry_device_def from_le_to_le_id Let_def)
qed

lemma list4_prefix_update:
  "k < 4 \<Longrightarrow> length xs = 4 \<Longrightarrow>
   (take k xs @ replicate (4 - k) z)[k := xs ! k] = take (Suc k) xs @ replicate (4 - Suc k) z"
  by (auto simp: list_update_append take_Suc_conv_app_nth Suc_diff_Suc [symmetric])

context reliable_device
begin

lemma mbr_mount_slots:
  assumes inv: "dinv d" and ne: "0 < length (blocks d)" and bs: "512 \<le> block_size dev d"
    and slots: "\<And>j. j < 4 \<Longrightarrow> slice (446 + j * 16) 16 (blocks d ! 0) = mbr_slot_bytes (es ! j)"
    and ok: "\<And>j p. j < 4 \<Longrightarrow> es ! j = Some p \<Longrightarrow> mbr_entry_ok (length (blocks d)) p"
    and es: "length es = 4"
  shows "mbr_mount dev d = Some (Ok (map (map_option mbr_entry_device) es), d)"
proof -
  let ?buf = "blocks d ! 0" and ?ps = "map (map_option mbr_entry_device) es"
  let ?f = "\<lambda>i partitions. bind (sub_slice (446 + i * 16) (446 + i * 16 + 16) ?buf)
    (\<lambda>entry. ret (partitions[i := mbr_parse_entry (length (blocks d)) entry]))"
  let ?I = "\<lambda>k parts d'. d' = d \<and> parts = take k ?ps @ replicate (4 - k) None"
  have len: "length ?buf = block_size dev d" using inv ne length_block by simp
  have step: "returns (?f k parts d') (?I (Suc k))" if k: "k < 4" and I: "?I k parts d'" for k parts d'
  proof -
    have "mbr_parse_entry (length (blocks d)) (slice (446 + k * 16) 16 ?buf) = ?ps ! k"
      using mbr_parse_slot_bytes [of "es ! k"] ok [OF k] slots [OF k] k es by simp
    with I k bs len es list4_prefix_update [of k ?ps None] show ?thesis
      by (simp add: run_simps)
  qed
  have "returns (for_each [0..<4] ?f (replicate 4 None) d) (?I 4)"
    by (rule returns_for_upt [where I = ?I, OF _ step]) simp_all
  moreover have "read_block dev 0 (replicate (block_size dev d) 0) d = Some (Ok ?buf, d)"
    using inv ne by (simp add: read_block_ok)
  ultimately show ?thesis
    using bs es inv
    by (auto simp: mbr_mount_def mbr_const_defs block_count_blocks zoom_Ok elim!: returnsE)
qed

lemma mbr_format_slots:
  assumes inv: "dinv d" and ne: "0 < length (blocks d)" and bs: "512 \<le> block_size dev d"
    and ok: "\<And>j p. j < 4 \<Longrightarrow> es ! j = Some p \<Longrightarrow> mbr_entry_ok (length (blocks d)) p"
    and es: "length es = 4"
  shows "returns (mbr_format dev es d) (\<lambda>parts d'.
    parts = map (map_option mbr_entry_device) es \<and> dinv d' \<and>
    block_size dev d' = block_size dev d \<and>
    (\<exists>buf. blocks d' = (blocks d)[0 := buf] \<and>
       (\<forall>j<4. slice (446 + j * 16) 16 buf = mbr_slot_bytes (es ! j))))"
proof -
  let ?buf = "blocks d ! 0" and ?ps = "map (map_option mbr_entry_device) es"
  let ?f = "\<lambda>i (buf, partitions). bind (sub_slice (446 + i * 16) (446 + i * 16 + 16) buf) (\<lambda>_.
    case es ! i of None \<Rightarrow> ret (patch (446 + i * 16) (replicate 16 0) buf, partitions)
    | Some p \<Rightarrow>
        if pe_partition_type p = 0 \<or> pe_start p = 0 \<or> pe_start p > pe_end p
           \<or> pe_end p > length (blocks d)
        then throw MbrBadArgument
        else ret (patch (446 + i * 16) (mbr_entry_bytes p) buf,
          partitions[i := Some \<lparr>mp_partition_type = pe_partition_type p,
            mp_start = pe_start p, mp_end = pe_end p\<rparr>]))"
  let ?I = "\<lambda>k (buf, parts) d'. d' = d \<and> length buf = block_size dev d \<and>
    parts = take k ?ps @ replicate (4 - k) None \<and>
    (\<forall>j<k. slice (446 + j * 16) 16 buf = mbr_slot_bytes (es ! j))"
  have step: "returns (?f k bp d') (?I (Suc k))" if k: "k < 4" and I: "?I k bp d'" for k bp d'
  proof -
    obtain buf parts where bp: "bp = (buf, parts)" by (cases bp)
    let ?new = "patch (446 + k * 16) (mbr_slot_bytes (es ! k)) buf"
    have lb: "length buf = block_size dev d" using I bp by simp
    have "slice (446 + j * 16) 16 ?new = mbr_slot_bytes (es ! j)" if "j < Suc k" for j
    proof (cases "j = k")
      case False
      with that have "j < k" by simp
      with I bp have "slice (446 + j * 16) 16 buf = mbr_slot_bytes (es ! j)" by simp
      with \<open>j < k\<close> k bs lb show ?thesis by (simp add: slice_patch_other)
    qed (use k bs lb in simp)
    moreover have "parts[k := None] = parts"
      using I bp k es by (simp add: list_update_same_conv nth_append)
    then have "?f k bp d' = Some (Ok (?new, parts[k := ?ps ! k]), d)"
      using I bp k bs lb es ok [OF k]
      by (cases "es ! k") (simp_all add: run_simps mbr_slot_bytes_def mbr_entry_ok_def mbr_entry_device_def)
    moreover have "parts[k := ?ps ! k] = take (Suc k) ?ps @ replicate (4 - Suc k) None"
      using I bp k es list4_prefix_update [of k ?ps None] by simp
    ultimately show ?thesis using k bs lb by simp
  qed
  have loop: "returns (for_each [0..<4] ?f (?buf, replicate 4 None) d) (?I 4)"
    by (rule returns_for_upt [where I = ?I, OF _ step]) (use inv ne length_block in simp_all)
  then obtain buf where run: "for_each [0..<4] ?f (?buf, replicate 4 None) d = Some (Ok (buf, ?ps), d)"
    and buf: "length buf = block_size dev d"
      "\<forall>j<4. slice (446 + j * 16) 16 buf = mbr_slot_bytes (es ! j)"
    using es by (auto elim!: returnsE)
  have "returns (write_block dev 0 buf d) (\<lambda>_ d'. dinv d' \<and>
      block_size dev d' = block_size dev d \<and> blocks d' = (blocks d)[0 := buf])"
    using inv ne buf by (intro write_block_ok) auto
  moreover have "read_block dev 0 (replicate (block_size dev d) 0) d = Some (Ok ?buf, d)"
    using inv ne by (simp add: read_block_ok)
  ultimately show ?thesis
    unfolding mbr_format_def mbr_const_defs Let_def
    using bs inv run buf
    by (auto simp: block_count_blocks zoom_Ok elim!: returnsE)
qed

end

section \<open>Properties\<close>

text \<open>
  C19. Formatting a disk with four valid partition entries succeeds, changes only the first block of
  the disk, and mounting the disk afterwards gives back exactly the partitions that were formatted.
\<close>

theorem mbr_format_mount:
  assumes "reliable_device dev blocks dinv" and "dinv d" and "0 < length (blocks d)"
    and "512 \<le> block_size dev d" and "length es = 4"
    and "\<And>p. Some p \<in> set es \<Longrightarrow> mbr_entry_ok (length (blocks d)) p"
  shows "returns (mbr_format dev es d) (\<lambda>parts d'.
    parts = map (map_option mbr_entry_device) es \<and>
    length (blocks d') = length (blocks d) \<and>
    (\<forall>i. 0 < i \<longrightarrow> i < length (blocks d) \<longrightarrow> blocks d' ! i = blocks d ! i) \<and>
    mbr_mount dev d' = Some (Ok parts, d'))"
proof -
  have ok: "mbr_entry_ok (length (blocks d)) p" if "j < 4" "es ! j = Some p" for j p
    using assms(5,6) that by (metis nth_mem)
  have "returns (mbr_format dev es d) (\<lambda>parts d'.
    parts = map (map_option mbr_entry_device) es \<and> dinv d' \<and>
    block_size dev d' = block_size dev d \<and>
    (\<exists>buf. blocks d' = (blocks d)[0 := buf] \<and>
       (\<forall>j<4. slice (446 + j * 16) 16 buf = mbr_slot_bytes (es ! j))))"
    using assms ok by (intro reliable_device.mbr_format_slots) auto
  then show ?thesis
  proof (rule returns_mono, elim conjE exE)
    fix parts d' buf
    assume parts: "parts = map (map_option mbr_entry_device) es" and inv: "dinv d'"
      and bs: "block_size dev d' = block_size dev d" and blocks: "blocks d' = (blocks d)[0 := buf]"
      and slots: "\<forall>j<4. slice (446 + j * 16) 16 buf = mbr_slot_bytes (es ! j)"
    have "mbr_mount dev d' = Some (Ok parts, d')"
      unfolding parts
      by (rule reliable_device.mbr_mount_slots [OF assms(1)])
        (use assms inv bs blocks slots ok in simp_all)
    with parts blocks show "parts = map (map_option mbr_entry_device) es \<and>
      length (blocks d') = length (blocks d) \<and>
      (\<forall>i. 0 < i \<longrightarrow> i < length (blocks d) \<longrightarrow> blocks d' ! i = blocks d ! i) \<and>
      mbr_mount dev d' = Some (Ok parts, d')"
      by simp
  qed
qed

definition example_disk :: "nat \<Rightarrow> MemoryDevice" where
  "example_disk n = \<lparr>md_data = replicate (n * 512) 0, md_block_size = 512, md_block_count = n\<rparr>"

lemma example_disk_inv [simp]: "memory_inv (example_disk n)"
  by (simp add: example_disk_def memory_inv_def)

lemma example_disk_blocks [simp]: "length (memory_blocks (example_disk n)) = n"
  by (simp add: example_disk_def memory_blocks_def)

lemma memory_device_block_size [simp]: "block_size memory_device = md_block_size"
  by (simp add: memory_device_def default_device_def)

definition example_entry :: "MbrPartitionEntry" where
  "example_entry = \<lparr>pe_bootable = True, pe_start = 1, pe_end = 3, pe_partition_type = 0x0c\<rparr>"

theorem mbr_format_mount_witness:
  "returns (mbr_format memory_device [Some example_entry, None, None, None] (example_disk 4))
    (\<lambda>parts d'. parts = [Some (mbr_entry_device example_entry), None, None, None] \<and>
       mbr_mount memory_device d' = Some (Ok parts, d'))"
proof -
  have "returns (mbr_format memory_device [Some example_entry, None, None, None] (example_disk 4))
    (\<lambda>parts d'. parts = map (map_option mbr_entry_device) [Some example_entry, None, None, None] \<and>
      length (memory_blocks d') = length (memory_blocks (example_disk 4)) \<and>
      (\<forall>i. 0 < i \<longrightarrow> i < length (memory_blocks (example_disk 4)) \<longrightarrow>
         memory_blocks d' ! i = memory_blocks (example_disk 4) ! i) \<and>
      mbr_mount memory_device d' = Some (Ok parts, d'))"
    by (rule mbr_format_mount [OF memory_reliable])
      (auto simp: mbr_entry_ok_def example_entry_def example_disk_def [of 4] memory_inv_def
        memory_blocks_def)
  then show ?thesis by (rule returns_mono) simp
qed

text \<open>
  C15. Two partitions of one disk that do not overlap are isolated for accesses inside the partition:
  a write to a block of the first one succeeds, changes that block of it, and leaves every block of
  the second one as it was.
\<close>

theorem mbr_partitions_isolated:
  assumes "reliable_device dev blocks dinv"
    and "mbr_inv blocks dinv p d" and "mbr_inv blocks dinv q d"
    and "mp_end p \<le> mp_start q \<or> mp_end q \<le> mp_start p"
    and "i < mbr_block_count p d" and "length buf = block_size dev d"
  shows "returns (write_block (mbr_device dev p) i buf d) (\<lambda>_ d'.
    mbr_inv blocks dinv p d' \<and> mbr_inv blocks dinv q d' \<and>
    mbr_blocks blocks p d' = (mbr_blocks blocks p d)[i := buf] \<and>
    mbr_blocks blocks q d' = mbr_blocks blocks q d)"
proof -
  note p = assms(2) [unfolded mbr_inv_def] and q = assms(3) [unfolded mbr_inv_def]
  have i: "mp_start p + i < mp_end p"
    using assms(5) by (simp add: mbr_block_count_def)
  have "returns (write_block dev (mp_start p + i) buf d)
      (\<lambda>_ d'. dinv d' \<and> block_size dev d' = block_size dev d \<and>
         blocks d' = (blocks d)[mp_start p + i := buf])"
    using assms(1,6) p i by (intro reliable_device.write_block_ok) auto
  moreover have "wadd64 i (mp_start p) = mp_start p + i"
    using p i by (simp add: wadd64_small add.commute)
  moreover have "slice (mp_start q) (mp_end q - mp_start q) ((blocks d)[mp_start p + i := buf]) =
      slice (mp_start q) (mp_end q - mp_start q) (blocks d)"
    using assms(4) i p q by (intro nth_equalityI) (auto simp: slice_nth)
  moreover have "slice (mp_start p) (mp_end p - mp_start p) ((blocks d)[mp_start p + i := buf]) =
      (slice (mp_start p) (mp_end p - mp_start p) (blocks d))[i := buf]"
    using i p by (intro slice_list_update) auto
  ultimately show ?thesis
    using p q i
    by (auto simp: mbr_device_def mbr_write_block_def mbr_inv_def mbr_blocks_def elim!: returns_mono)
qed

theorem mbr_partitions_isolated_witness:
  "returns (write_block
      (mbr_device memory_device \<lparr>mp_partition_type = 0x0c, mp_start = 1, mp_end = 3\<rparr>) 1
      (replicate 512 7) (example_disk 4))
    (\<lambda>_ d'. mbr_blocks memory_blocks \<lparr>mp_partition_type = 0x0c, mp_start = 3, mp_end = 4\<rparr> d' =
       mbr_blocks memory_blocks \<lparr>mp_partition_type = 0x0c, mp_start = 3, mp_end = 4\<rparr>
         (example_disk 4))"
  by (rule returns_mono [OF mbr_partitions_isolated [OF memory_reliable,
        of "\<lparr>mp_partition_type = 0x0c, mp_start = 1, mp_end = 3\<rparr>" _
          "\<lparr>mp_partition_type = 0x0c, mp_start = 3, mp_end = 4\<rparr>"]])
    (auto simp: mbr_inv_def mbr_block_count_def example_disk_def [of 4] memory_inv_def
      memory_blocks_def)

text \<open>
  C20. The range check of the partition's single-block methods compares the index with the end of
  the partition on the disk: for every index from the number of blocks of the partition up to that
  end, a write is accepted whenever the disk has the block, and it lands on the disk block
  \<open>mp_start p + i\<close>, which lies outside the partition.
\<close>

theorem mbr_escape:
  assumes "reliable_device dev blocks dinv" and "mbr_inv blocks dinv p d"
    and "mbr_block_count p d \<le> i" and "i \<le> mp_end p"
    and "mp_start p + i < length (blocks d)" and "length buf = block_size dev d"
  shows "mp_end p \<le> mp_start p + i \<and>
    returns (write_block (mbr_device dev p) i buf d)
      (\<lambda>_ d'. blocks d' = (blocks d)[mp_start p + i := buf])"
proof -
  note p = assms(2) [unfolded mbr_inv_def]
  have "returns (write_block dev (mp_start p + i) buf d)
      (\<lambda>_ d'. dinv d' \<and> block_size dev d' = block_size dev d \<and>
         blocks d' = (blocks d)[mp_start p + i := buf])"
    using assms p by (intro reliable_device.write_block_ok) auto
  moreover have "wadd64 i (mp_start p) = mp_start p + i"
    using p assms(4) by (simp add: wadd64_small add.commute)
  ultimately show ?thesis
    using assms(3,4) p
    by (auto simp: mbr_device_def mbr_write_block_def mbr_block_count_def elim!: returns_mono)
qed

theorem mbr_escape_witness:
  "returns (write_block
      (mbr_device memory_device \<lparr>mp_partition_type = 0x0c, mp_start = 1, mp_end = 3\<rparr>) 2
      (replicate 512 7) (example_disk 4))
    (\<lambda>_ d'. memory_blocks d' = (memory_blocks (example_disk 4))[3 := replicate 512 7])"
proof -
  let ?p = "\<lparr>mp_partition_type = 0x0c, mp_start = 1, mp_end = 3\<rparr>"
  have "mp_end ?p \<le> mp_start ?p + 2 \<and>
    returns (write_block (mbr_device memory_device ?p) 2 (replicate 512 7) (example_disk 4))
      (\<lambda>_ d'. memory_blocks d' = (memory_blocks (example_disk 4))[mp_start ?p + 2 := replicate 512 7])"
    by (rule mbr_escape [OF memory_reliable])
      (auto simp: mbr_inv_def mbr_block_count_def example_disk_def [of 4] memory_inv_def
        memory_blocks_def)
  then show ?thesis by (simp add: numeral_3_eq_3)
qed

text \<open>
  The cylinder/head/sector triple loses the two high bits of the cylinder: the first block of
  cylinder 256 gets the same triple as block 0, although both are far below the 1023-cylinder limit
  that the function saturates at.
\<close>

theorem lba_to_chs_loses_cylinder:
  "lba_to_chs (256 * (256 * 63)) = lba_to_chs 0"
  by (simp add: lba_to_chs_def Let_def)

end
