(* ===== verification/Rust_Str.thy ===== *)
theory Rust_Str
  imports Prelude
begin

text \<open>
  The part of Rust's string library the file system uses.

  A \<open>str\<close> is the list of its Unicode scalar values.  \<open>utf8_encode\<close> is \<open>as_bytes\<close>, \<open>from_utf8\<close>
  and \<open>from_utf8_lossy\<close> are the checked and the lossy conversion (each maximal invalid prefix becomes
  one U+FFFD), \<open>encode_utf16\<close> and \<open>from_utf16_lossy\<close> the conversions of the long file names.  The
  lemmas are the round trips.
\<close>

type_synonym rstr = "nat list"

definition is_scalar :: "nat \<Rightarrow> bool" where
  "is_scalar c \<longleftrightarrow> c < 0xD800 \<or> (0xE000 \<le> c \<and> c < 0x110000)"

section \<open>UTF-8\<close>

definition utf8_char :: "nat \<Rightarrow> u8 list" where
  "utf8_char c =
     (if c < 0x80 then [of_nat c]
      else if c < 0x800 then [of_nat (0xC0 + c div 64), of_nat (0x80 + c mod 64)]
      else if c < 0x10000 then
        [of_nat (0xE0 + c div 4096), of_nat (0x80 + c div 64 mod 64), of_nat (0x80 + c mod 64)]
      else
        [of_nat (0xF0 + c div 262144), of_nat (0x80 + c div 4096 mod 64),
         of_nat (0x80 + c div 64 mod 64), of_nat (0x80 + c mod 64)])"

definition utf8_encode :: "rstr \<Rightarrow> u8 list" where
  "utf8_encode s = concat (map utf8_char s)"

definition byte_in :: "nat \<Rightarrow> nat \<Rightarrow> u8 list \<Rightarrow> nat \<Rightarrow> bool" where
  "byte_in lo hi bs i \<longleftrightarrow> i < length bs \<and> lo \<le> unat (bs ! i) \<and> unat (bs ! i) \<le> hi"

text \<open>
  One step of the decoder on a non-empty input: the scalar value and its width, or the length of the
  invalid prefix.
\<close>

definition utf8_step :: "u8 list \<Rightarrow> nat option \<times> nat" where
  "utf8_step bs =
     (let b = (\<lambda>i. unat (bs ! i)) in
      if b 0 < 0x80 then (Some (b 0), 1)
      else if 0xC2 \<le> b 0 \<and> b 0 \<le> 0xDF then
        (if byte_in 0x80 0xBF bs 1 then (Some ((b 0 - 0xC0) * 64 + (b 1 - 0x80)), 2)
         else (None, 1))
      else if 0xE0 \<le> b 0 \<and> b 0 \<le> 0xEF then
        (if byte_in (if b 0 = 0xE0 then 0xA0 else 0x80) (if b 0 = 0xED then 0x9F else 0xBF) bs 1 then
           (if byte_in 0x80 0xBF bs 2 then
              (Some ((b 0 - 0xE0) * 4096 + (b 1 - 0x80) * 64 + (b 2 - 0x80)), 3)
            else (None, 2))
         else (None, 1))
      else if 0xF0 \<le> b 0 \<and> b 0 \<le> 0xF4 then
        (if byte_in (if b 0 = 0xF0 then 0x90 else 0x80) (if b 0 = 0xF4 then 0x8F else 0xBF) bs 1 then
           (if byte_in 0x80 0xBF bs 2 then
              (if byte_in 0x80 0xBF bs 3 then
                 (Some ((b 0 - 0xF0) * 262144 + (b 1 - 0x80) * 4096 + (b 2 - 0x80) * 64
                    + (b 3 - 0x80)), 4)
               else (None, 3))
            else (None, 2))
         else (None, 1))
      else (None, 1))"

lemma utf8_step_pos: "(r, n) = utf8_step bs \<Longrightarrow> 0 < n"
  by (auto simp: utf8_step_def Let_def split: if_splits)

function from_utf8 :: "u8 list \<Rightarrow> rstr option" where
  "from_utf8 [] = Some []"
| "from_utf8 (x # xs) =
     (case utf8_step (x # xs) of
        (None, n) \<Rightarrow> None
      | (Some c, n) \<Rightarrow> map_option (Cons c) (from_utf8 (drop n (x # xs))))"
  by pat_completeness auto
termination
  by (relation "measure length") (auto dest: utf8_step_pos)

function from_utf8_lossy :: "u8 list \<Rightarrow> rstr" where
  "from_utf8_lossy [] = []"
| "from_utf8_lossy (x # xs) =
     (case utf8_step (x # xs) of
        (None, n) \<Rightarrow> 0xFFFD # from_utf8_lossy (drop n (x # xs))
      | (Some c, n) \<Rightarrow> c # from_utf8_lossy (drop n (x # xs)))"
  by pat_completeness auto
termination
  by (relation "measure length") (auto dest: utf8_step_pos)

lemma unat_u8_of_nat: "n < 256 \<Longrightarrow> unat (of_nat n :: u8) = n"
  by (simp add: unat_of_nat)

lemma base64_3: "c div 4096 * 4096 + c div 64 mod 64 * 64 + c mod 64 = (c :: nat)"
proof -
  have "c div 4096 = c div 64 div 64" by (simp add: div_mult2_eq [symmetric])
  moreover have "c div 64 div 64 * 64 + c div 64 mod 64 = c div 64" by simp
  moreover have "c div 64 * 64 + c mod 64 = c" by simp
  ultimately show ?thesis by linarith
qed

lemma base64_4:
  "c div 262144 * 262144 + c div 4096 mod 64 * 4096 + c div 64 mod 64 * 64 + c mod 64 = (c :: nat)"
proof -
  have "c div 262144 = c div 4096 div 64" by (simp add: div_mult2_eq [symmetric])
  moreover have "c div 4096 div 64 * 64 + c div 4096 mod 64 = c div 4096" by simp
  ultimately show ?thesis using base64_3 [of c] by linarith
qed

lemma utf8_step_char:
  assumes "is_scalar c"
  shows "utf8_step (utf8_char c @ rest) = (Some c, length (utf8_char c))"
proof -
  consider "c < 0x80" | "0x80 \<le> c" "c < 0x800" | "0x800 \<le> c" "c < 0x10000"
    | "0x10000 \<le> c" "c < 0x110000"
    using assms by (atomize_elim) (auto simp: is_scalar_def)
  then show ?thesis
  proof cases
    case 1
    then show ?thesis by (simp add: utf8_char_def utf8_step_def unat_u8_of_nat)
  next
    case 2
    then have "2 \<le> c div 64" "c div 64 < 32" by auto
    with 2 show ?thesis
      by (simp add: utf8_char_def utf8_step_def unat_u8_of_nat byte_in_def del: of_nat_add)
  next
    case 3
    define a b d where "a = c div 4096" and "b = c div 64 mod 64" and "d = c mod 64"
    note abd = this [symmetric]
    have c: "a * 4096 + b * 64 + d = c" unfolding abd [symmetric] by (rule base64_3)
    have lt: "a < 16" "b < 64" "d < 64" using 3 by (auto simp: abd [symmetric])
    have "a = 0 \<Longrightarrow> 32 \<le> b" "a = 13 \<Longrightarrow> b \<le> 31"
      using 3 c lt assms by (auto simp: is_scalar_def)
    then show ?thesis
      using 3 lt c
      by (simp add: utf8_char_def utf8_step_def abd unat_u8_of_nat byte_in_def del: of_nat_add)
  next
    case 4
    define a b d e where "a = c div 262144" and "b = c div 4096 mod 64"
      and "d = c div 64 mod 64" and "e = c mod 64"
    note abd = this [symmetric]
    have c: "a * 262144 + b * 4096 + d * 64 + e = c" unfolding abd [symmetric] by (rule base64_4)
    have lt: "a < 5" "b < 64" "d < 64" "e < 64" using 4 by (auto simp: abd [symmetric])
    have "a = 0 \<Longrightarrow> 16 \<le> b" "a = 4 \<Longrightarrow> b \<le> 15"
      using 4 c lt by auto
    then show ?thesis
      using 4 lt c
      by (simp add: utf8_char_def utf8_step_def abd unat_u8_of_nat byte_in_def del: of_nat_add)
  qed
qed

lemma utf8_char_Cons: "\<exists>x xs. utf8_char c = x # xs"
  by (simp add: utf8_char_def)

lemma utf8_encode_eq_Nil [simp]: "utf8_encode s = [] \<longleftrightarrow> s = []"
  by (cases s) (auto simp: utf8_encode_def utf8_char_def)

lemma from_utf8_encode: "\<forall>c \<in> set s. is_scalar c \<Longrightarrow> from_utf8 (utf8_encode s) = Some s"
proof (induction s)
  case Nil
  then show ?case by (simp add: utf8_encode_def)
next
  case (Cons c s)
  obtain x xs where x: "utf8_char c = x # xs" using utf8_char_Cons by blast
  have "utf8_encode (c # s) = x # xs @ utf8_encode s" by (simp add: utf8_encode_def x)
  with Cons utf8_step_char [of c "utf8_encode s"] show ?case by (simp add: x)
qed

section \<open>UTF-16\<close>

definition utf16_char :: "nat \<Rightarrow> u16 list" where
  "utf16_char c =
     (if c < 0x10000 then [of_nat c]
      else [of_nat (0xD800 + (c - 0x10000) div 0x400), of_nat (0xDC00 + (c - 0x10000) mod 0x400)])"

definition encode_utf16 :: "rstr \<Rightarrow> u16 list" where
  "encode_utf16 s = concat (map utf16_char s)"

fun from_utf16_lossy :: "u16 list \<Rightarrow> rstr" where
  "from_utf16_lossy [] = []"
| "from_utf16_lossy (x # xs) =
     (let u = unat x in
      if u < 0xD800 \<or> 0xE000 \<le> u then u # from_utf16_lossy xs
      else if 0xDC00 \<le> u then 0xFFFD # from_utf16_lossy xs
      else (case xs of
              [] \<Rightarrow> [0xFFFD]
            | y # ys \<Rightarrow>
                (let v = unat y in
                 if 0xDC00 \<le> v \<and> v < 0xE000
                 then (0x10000 + (u - 0xD800) * 0x400 + (v - 0xDC00)) # from_utf16_lossy ys
                 else 0xFFFD # from_utf16_lossy xs)))"

lemma unat_u16_of_nat: "n < 65536 \<Longrightarrow> unat (of_nat n :: u16) = n"
  by (simp add: unat_of_nat)

lemma from_utf16_char:
  assumes "is_scalar c"
  shows "from_utf16_lossy (utf16_char c @ rest) = c # from_utf16_lossy rest"
proof (cases "c < 0x10000")
  case True
  with assms show ?thesis by (auto simp: utf16_char_def unat_u16_of_nat is_scalar_def Let_def)
next
  case False
  then have "(c - 0x10000) div 0x400 < 0x400" "0x10000 \<le> c"
    using assms by (auto simp: is_scalar_def)
  with False show ?thesis
    by (simp add: utf16_char_def unat_u16_of_nat Let_def del: of_nat_add)
qed

lemma from_utf16_encode: "\<forall>c \<in> set s. is_scalar c \<Longrightarrow> from_utf16_lossy (encode_utf16 s) = s"
  by (induction s) (simp_all add: encode_utf16_def from_utf16_char)

lemma encode_utf16_eq_Nil [simp]: "encode_utf16 s = [] \<longleftrightarrow> s = []"
  by (cases s) (auto simp: encode_utf16_def utf16_char_def Let_def)

lemma encode_utf16_inject:
  "\<forall>c \<in> set s. is_scalar c \<Longrightarrow> \<forall>c \<in> set t. is_scalar c \<Longrightarrow>
   encode_utf16 s = encode_utf16 t \<longleftrightarrow> s = t"
  by (metis from_utf16_encode)

lemma encode_utf16_nonzero:
  assumes "\<forall>c \<in> set s. is_scalar c \<and> c \<noteq> 0" and "u \<in> set (encode_utf16 s)"
  shows "u \<noteq> 0"
proof -
  obtain c where c: "c \<in> set s" "u \<in> set (utf16_char c)"
    using assms(2) by (auto simp: encode_utf16_def)
  then have "is_scalar c" "c \<noteq> 0" using assms(1) by auto
  then have "unat u \<noteq> 0"
    using c(2)
    by (auto simp: utf16_char_def is_scalar_def unat_u16_of_nat simp del: of_nat_add split: if_splits)
  then show ?thesis by auto
qed

end
