(* ===== verification/Path.thy ===== *)
theory Path
  imports Rust_Str
begin

text \<open>
  File paths, \<open>library/filesystem/src/path/mod.rs\<close>: a \<open>PathBuf\<close> is a list of segments, a \<open>Path\<close> a
  borrowed slice of them.  Parsing splits at the delimiter, drops empty pieces and decodes the rest.
\<close>

definition DELIMITER :: u8 where
  "DELIMITER = 0x2F"

record PathBuf =
  segments :: "rstr list"

type_synonym path_slice = "rstr list"

datatype ParsePathError = InvalidSegments

text \<open>\<open>slice::split\<close>: the pieces between the delimiters, one more than there are delimiters.\<close>

fun split_on :: "'a \<Rightarrow> 'a list \<Rightarrow> 'a list list" where
  "split_on d [] = [[]]"
| "split_on d (x # xs) =
     (if x = d then [] # split_on d xs
      else (case split_on d xs of [] \<Rightarrow> [[x]] | y # ys \<Rightarrow> (x # y) # ys))"

definition from_bytes :: "u8 list \<Rightarrow> (ParsePathError, PathBuf) res" where
  "from_bytes bytes =
     (if bytes = [] then Ok \<lparr>segments = []\<rparr>
      else (case those (map from_utf8 (filter (\<lambda>b. b \<noteq> []) (split_on DELIMITER bytes))) of
              None \<Rightarrow> Err InvalidSegments
            | Some segs \<Rightarrow> Ok \<lparr>segments = segs\<rparr>))"

definition path_from_str :: "rstr \<Rightarrow> (ParsePathError, PathBuf) res" where
  "path_from_str s = from_bytes (utf8_encode s)"

definition path_extends :: "PathBuf \<Rightarrow> PathBuf \<Rightarrow> PathBuf" where
  "path_extends self other = self\<lparr>segments := segments self @ segments other\<rparr>"

definition as_path :: "PathBuf \<Rightarrow> path_slice" where
  "as_path p = segments p"

definition path_add :: "PathBuf \<Rightarrow> PathBuf \<Rightarrow> PathBuf" where
  "path_add self rhs = \<lparr>segments = segments self @ segments rhs\<rparr>"

definition is_root :: "path_slice \<Rightarrow> bool" where
  "is_root p = (p = [])"

definition path_parent :: "path_slice \<Rightarrow> path_slice" where
  "path_parent p = (if is_root p then [] else take (length p - 1) p)"

definition last_segment :: "path_slice \<Rightarrow> rstr option" where
  "last_segment p = (if p = [] then None else Some (last p))"

section \<open>Parsing\<close>

lemma split_on_ne [simp]: "split_on d xs \<noteq> []"
  by (induction xs) (auto split: list.splits)

lemma split_on_append_delim: "split_on d (xs @ d # ys) = split_on d xs @ split_on d ys"
  by (induction xs) (auto split: list.splits)

lemma split_on_no_delim: "d \<notin> set xs \<Longrightarrow> split_on d xs = [xs]"
  by (induction xs) auto

lemma those_append:
  "those (xs @ ys) = Option.bind (those xs) (\<lambda>a. map_option ((@) a) (those ys))"
proof (induction xs)
  case Nil
  show ?case by (cases "those ys") auto
next
  case (Cons x xs)
  then show ?case by (cases x; cases "those xs"; cases "those ys") auto
qed

lemma those_map_Some: "(\<And>x. x \<in> set xs \<Longrightarrow> f x = Some (g x)) \<Longrightarrow> those (map f xs) = Some (map g xs)"
  by (induction xs) auto

lemma those_SomeD: "those xs = Some ys \<Longrightarrow> y \<in> set ys \<Longrightarrow> Some y \<in> set xs"
proof (induction xs arbitrary: ys)
  case (Cons x xs)
  then show ?case by (cases x; cases "those xs") auto
qed simp

lemma utf8_step_small:
  assumes "utf8_step bs = (Some c, n)" and "c < 0x80"
  shows "c = unat (bs ! 0)"
proof -
  have "0x80 \<le> c" if "\<not> unat (bs ! 0) < 0x80"
    using assms(1) that
    by (auto simp: utf8_step_def Let_def byte_in_def split: if_splits)
  with assms show ?thesis
    by (fastforce simp: utf8_step_def Let_def)
qed

lemma from_utf8_chars:
  "from_utf8 bs = Some s \<Longrightarrow> c \<in> set s \<Longrightarrow> c < 0x80 \<Longrightarrow> of_nat c \<in> set bs"
proof (induction bs arbitrary: s rule: from_utf8.induct)
  case (2 x xs)
  from "2.prems"(1) obtain c0 n s' where step: "utf8_step (x # xs) = (Some c0, n)"
    and rest: "from_utf8 (drop n (x # xs)) = Some s'" and s: "s = c0 # s'"
    by (auto split: prod.splits option.splits)
  show ?case
  proof (cases "c = c0")
    case True
    then have "c = unat x" using utf8_step_small [OF step] "2.prems"(3) by simp
    then show ?thesis by simp
  next
    case False
    then have "c \<in> set s'" using "2.prems"(2) s by simp
    then have "of_nat c \<in> set (drop n (x # xs))"
      using "2.IH" [OF step [symmetric] refl rest] "2.prems"(3) step by simp
    then show ?thesis by (rule in_set_dropD)
  qed
qed simp

lemma from_utf8_Nil: "from_utf8 bs = Some [] \<Longrightarrow> bs = []"
  by (cases bs) (auto split: prod.splits option.splits)

lemma split_on_pieces: "p \<in> set (split_on d xs) \<Longrightarrow> d \<notin> set p"
  by (induction xs arbitrary: p) (auto split: if_splits list.splits)

lemma utf8_char_no_slash: "is_scalar c \<Longrightarrow> c \<noteq> 0x2F \<Longrightarrow> DELIMITER \<notin> set (utf8_char c)"
proof -
  assume "is_scalar c" and "c \<noteq> 0x2F"
  then have "unat b \<noteq> 0x2F" if "b \<in> set (utf8_char c)" for b
    using that
    by (auto simp: utf8_char_def is_scalar_def unat_u8_of_nat simp del: of_nat_add split: if_splits)
  moreover have "unat DELIMITER = 0x2F" by (simp add: DELIMITER_def)
  ultimately show ?thesis by metis
qed

text \<open>The textual form of a path: a delimiter before each segment.\<close>

definition path_render :: "PathBuf \<Rightarrow> u8 list" where
  "path_render p = concat (map (\<lambda>s. DELIMITER # utf8_encode s) (segments p))"

definition segment_ok :: "rstr \<Rightarrow> bool" where
  "segment_ok s \<longleftrightarrow> s \<noteq> [] \<and> (\<forall>c \<in> set s. is_scalar c \<and> c \<noteq> 0x2F)"

lemma utf8_encode_no_slash: "segment_ok s \<Longrightarrow> DELIMITER \<notin> set (utf8_encode s)"
  using utf8_char_no_slash by (auto simp: segment_ok_def utf8_encode_def)

lemma split_on_concat_delim:
  "(\<And>s. s \<in> set ss \<Longrightarrow> d \<notin> set s) \<Longrightarrow> split_on d (concat (map (Cons d) ss)) = [] # ss"
proof (induction ss)
  case Nil
  then show ?case by simp
next
  case (Cons s ss)
  show ?case
  proof (cases ss)
    case Nil
    with Cons.prems show ?thesis by (simp add: split_on_no_delim)
  next
    case (Cons t ts)
    let ?rest = "t @ concat (map (Cons d) ts)"
    have "split_on d (concat (map (Cons d) ss)) = [] # ss" using Cons.IH Cons.prems by simp
    then have "split_on d ?rest = ss" using Cons by simp
    then show ?thesis
      using Cons Cons.prems split_on_append_delim [of d s ?rest] by (simp add: split_on_no_delim)
  qed
qed

section \<open>Properties\<close>

text \<open>
  Parsing respects concatenation: a path written as \<open>a/b\<close> parses to the path of \<open>a\<close> followed by
  the path of \<open>b\<close> when both parse, and to the parse error otherwise.
\<close>

theorem from_bytes_join:
  "from_bytes (a @ DELIMITER # b) =
     (case (from_bytes a, from_bytes b) of
        (Ok p, Ok q) \<Rightarrow> Ok (path_add p q)
      | _ \<Rightarrow> Err InvalidSegments)"
proof -
  let ?segs = "\<lambda>bs. those (map from_utf8 (filter (\<lambda>b. b \<noteq> []) (split_on DELIMITER bs)))"
  have fb: "from_bytes bs = (case ?segs bs of None \<Rightarrow> Err InvalidSegments
      | Some segs \<Rightarrow> Ok \<lparr>segments = segs\<rparr>)" for bs
    by (simp add: from_bytes_def)
  have "?segs (a @ DELIMITER # b) = Option.bind (?segs a) (\<lambda>x. map_option ((@) x) (?segs b))"
    by (simp add: split_on_append_delim those_append)
  then show ?thesis
    unfolding fb by (cases "?segs a"; cases "?segs b") (simp_all add: path_add_def)
qed



text \<open>
  C22. Whatever bytes are parsed, the segments of the result are never empty and never contain the
  delimiter.
\<close>

theorem from_bytes_segments:
  "from_bytes bs = Ok p \<Longrightarrow> s \<in> set (segments p) \<Longrightarrow> s \<noteq> [] \<and> 0x2F \<notin> set s"
proof -
  assume "from_bytes bs = Ok p" and s: "s \<in> set (segments p)"
  then have "those (map from_utf8 (filter (\<lambda>b. b \<noteq> []) (split_on DELIMITER bs))) =
      Some (segments p)"
    by (auto simp: from_bytes_def split: if_splits option.splits)
  from those_SomeD [OF this s] obtain b where b: "b \<noteq> []" "b \<in> set (split_on DELIMITER bs)"
    and dec: "from_utf8 b = Some s"
    by auto
  have "DELIMITER \<notin> set b" using b(2) by (rule split_on_pieces)
  moreover have "of_nat 0x2F \<in> set b" if "0x2F \<in> set s"
    using from_utf8_chars [OF dec that] by simp
  ultimately show ?thesis using dec b(1) from_utf8_Nil by (auto simp: DELIMITER_def)
qed

theorem from_bytes_segments_witness:
  "\<exists>p. from_bytes [0x2F, 0x61, 0x2F, 0x2F, 0x62] = Ok p \<and>
     (\<forall>s \<in> set (segments p). s \<noteq> [] \<and> 0x2F \<notin> set s)"
proof -
  have "from_bytes [0x2F, 0x61, 0x2F, 0x2F, 0x62] = Ok \<lparr>segments = [[0x61], [0x62]]\<rparr>"
    by (simp add: from_bytes_def DELIMITER_def utf8_step_def)
  from this from_bytes_segments [OF this] show ?thesis by blast
qed

end
