(* ===== verification/Fat32_Layout.thy ===== *)
theory Fat32_Layout
  imports Path Block_Device
begin

text \<open>
  The on-disk structures of the FAT32 file system and the pure functions over them,
  \<open>library/filesystem/src/fs/fat32.rs\<close>: the boot record \<open>BPB\<close>, \<open>FSInfo\<close>, the short and long
  directory entries with their packed byte layouts, the consistency checks of \<open>mount\<close>, the cluster
  count of \<open>with_format\<close>, and the encoding and matching of file names.

  Struct fields are words of the declared width; a field read as \<open>as u64\<close> is its \<open>unat\<close>.  The packed
  structs are converted to and from bytes with \<open>DiskStruct\<close> in the source
  (\<open>library/filesystem/src/internal/mod.rs\<close>); here each has an encoder and a decoder and the lemma
  that they are inverse.
\<close>

unbundle bit_operations_syntax

section \<open>Fields\<close>

definition enc16 :: "u16 \<Rightarrow> u8 list" where
  "enc16 w = to_le 2 (unat w)"

definition enc32 :: "u32 \<Rightarrow> u8 list" where
  "enc32 w = to_le 4 (unat w)"

definition dec16 :: "nat \<Rightarrow> u8 list \<Rightarrow> u16" where
  "dec16 off bs = of_nat (from_le (slice off 2 bs))"

definition dec32 :: "nat \<Rightarrow> u8 list \<Rightarrow> u32" where
  "dec32 off bs = of_nat (from_le (slice off 4 bs))"

lemma length_enc16 [simp]: "length (enc16 w) = 2"
  by (simp add: enc16_def)

lemma length_enc32 [simp]: "length (enc32 w) = 4"
  by (simp add: enc32_def)

lemma of_nat_from_le_enc16 [simp]: "of_nat (from_le (enc16 w)) = w"
proof -
  have "unat w < 256 ^ 2" using unsigned_less [of w] by simp
  then show ?thesis unfolding enc16_def by (subst from_le_to_le_id) simp_all
qed

lemma of_nat_from_le_enc32 [simp]: "of_nat (from_le (enc32 w)) = w"
proof -
  have "unat w < 256 ^ 4" using unsigned_less [of w] by simp
  then show ?thesis unfolding enc32_def by (subst from_le_to_le_id) simp_all
qed

lemma slice_append_skip:
  "length xs \<le> off \<Longrightarrow> slice off n (xs @ ys) = slice (off - length xs) n ys"
  by (simp add: slice_def)

lemma slice_Cons_skip: "0 < off \<Longrightarrow> slice off n (x # xs) = slice (off - 1) n xs"
  by (cases off) (simp_all add: slice_def)

lemma slice_all: "length xs = n \<Longrightarrow> slice 0 n xs = xs"
  by (simp add: slice_def)

lemma slice_append_here: "length xs = n \<Longrightarrow> slice 0 n (xs @ ys) = xs"
  by (simp add: slice_def)

lemma nth_append_skip: "length xs \<le> off \<Longrightarrow> (xs @ ys) ! off = ys ! (off - length xs)"
  by (simp add: nth_append)

definition concat_enc16 :: "u16 list \<Rightarrow> u8 list" where
  "concat_enc16 ws = concat (map enc16 ws)"

definition decs16 :: "nat \<Rightarrow> nat \<Rightarrow> u8 list \<Rightarrow> u16 list" where
  "decs16 off n bs = map (\<lambda>i. dec16 (off + 2 * i) bs) [0..<n]"

lemma length_concat_enc16 [simp]: "length (concat_enc16 ws) = 2 * length ws"
  by (induction ws) (auto simp: concat_enc16_def)

lemma decs16_slice:
  assumes "off + 2 * n \<le> length bs"
  shows "decs16 off n bs = decs16 0 n (slice off (2 * n) bs)"
proof -
  have "slice (off + 2 * i) 2 bs = slice (2 * i) 2 (slice off (2 * n) bs)" if "i < n" for i
    using that assms by (intro nth_equalityI) (auto simp: slice_nth add.assoc)
  then show ?thesis by (simp add: decs16_def dec16_def)
qed

lemma decs16_concat: "decs16 0 (length ws) (concat_enc16 ws) = ws"
proof -
  have "slice (2 * i) 2 (concat (map enc16 ws)) = map enc16 ws ! i" if "i < length ws" for i
    using that by (subst mult.commute, intro slice_concat_uniform) auto
  then show ?thesis
    by (intro nth_equalityI) (auto simp: decs16_def dec16_def concat_enc16_def)
qed

section \<open>Boot record and FSInfo\<close>

record BPB =
  bpb_reserved_code :: "u8 list"
  bpb_oem_id :: "u8 list"
  bpb_bytes_per_sector :: u16
  bpb_sectors_per_cluster :: u8
  bpb_reserved_sector_count :: u16
  bpb_num_fats :: u8
  bpb_root_entry_count :: u16
  bpb_total_sectors_16 :: u16
  bpb_media :: u8
  bpb_fat_size_16 :: u16
  bpb_sectors_per_track :: u16
  bpb_num_heads :: u16
  bpb_hidden_sectors :: u32
  bpb_total_sectors_32 :: u32
  bpb_fat_size_32 :: u32
  bpb_ext_flags :: u16
  bpb_fs_version :: u16
  bpb_root_cluster :: u32
  bpb_fs_info :: u16
  bpb_bk_boot_sector :: u16
  bpb_reserved :: "u8 list"
  bpb_drive_number :: u8
  bpb_reserved1 :: u8
  bpb_boot_signature :: u8
  bpb_volume_id :: u32
  bpb_volume_label :: "u8 list"
  bpb_fs_type :: "u8 list"
  bpb_code :: "u8 list"
  bpb_boot_sector_signature :: u16

definition BPB_BOOT_SECTOR_SIGNATURE :: u16 where
  "BPB_BOOT_SECTOR_SIGNATURE = 0xAA55"

definition bpb_arrays_ok :: "BPB \<Rightarrow> bool" where
  "bpb_arrays_ok b \<longleftrightarrow>
     length (bpb_reserved_code b) = 3 \<and> length (bpb_oem_id b) = 8 \<and> length (bpb_reserved b) = 12 \<and>
     length (bpb_volume_label b) = 11 \<and> length (bpb_fs_type b) = 8 \<and> length (bpb_code b) = 420"

definition bpb_encode :: "BPB \<Rightarrow> u8 list" where
  "bpb_encode b =
     bpb_reserved_code b @ bpb_oem_id b @ enc16 (bpb_bytes_per_sector b)
     @ [bpb_sectors_per_cluster b] @ enc16 (bpb_reserved_sector_count b) @ [bpb_num_fats b]
     @ enc16 (bpb_root_entry_count b) @ enc16 (bpb_total_sectors_16 b) @ [bpb_media b]
     @ enc16 (bpb_fat_size_16 b) @ enc16 (bpb_sectors_per_track b) @ enc16 (bpb_num_heads b)
     @ enc32 (bpb_hidden_sectors b) @ enc32 (bpb_total_sectors_32 b) @ enc32 (bpb_fat_size_32 b)
     @ enc16 (bpb_ext_flags b) @ enc16 (bpb_fs_version b) @ enc32 (bpb_root_cluster b)
     @ enc16 (bpb_fs_info b) @ enc16 (bpb_bk_boot_sector b) @ bpb_reserved b
     @ [bpb_drive_number b] @ [bpb_reserved1 b] @ [bpb_boot_signature b]
     @ enc32 (bpb_volume_id b) @ bpb_volume_label b @ bpb_fs_type b @ bpb_code b
     @ enc16 (bpb_boot_sector_signature b)"

definition bpb_decode :: "u8 list \<Rightarrow> BPB" where
  "bpb_decode bs =
     \<lparr>bpb_reserved_code = slice 0 3 bs, bpb_oem_id = slice 3 8 bs,
      bpb_bytes_per_sector = dec16 11 bs, bpb_sectors_per_cluster = bs ! 13,
      bpb_reserved_sector_count = dec16 14 bs, bpb_num_fats = bs ! 16,
      bpb_root_entry_count = dec16 17 bs, bpb_total_sectors_16 = dec16 19 bs,
      bpb_media = bs ! 21, bpb_fat_size_16 = dec16 22 bs, bpb_sectors_per_track = dec16 24 bs,
      bpb_num_heads = dec16 26 bs, bpb_hidden_sectors = dec32 28 bs,
      bpb_total_sectors_32 = dec32 32 bs, bpb_fat_size_32 = dec32 36 bs,
      bpb_ext_flags = dec16 40 bs, bpb_fs_version = dec16 42 bs, bpb_root_cluster = dec32 44 bs,
      bpb_fs_info = dec16 48 bs, bpb_bk_boot_sector = dec16 50 bs, bpb_reserved = slice 52 12 bs,
      bpb_drive_number = bs ! 64, bpb_reserved1 = bs ! 65, bpb_boot_signature = bs ! 66,
      bpb_volume_id = dec32 67 bs, bpb_volume_label = slice 71 11 bs,
      bpb_fs_type = slice 82 8 bs, bpb_code = slice 90 420 bs,
      bpb_boot_sector_signature = dec16 510 bs\<rparr>"

record FSInfo =
  fi_lead_signature :: u32
  fi_reserved1 :: "u8 list"
  fi_struct_signature :: u32
  fi_free_cluster_count :: u32
  fi_next_free_cluster :: u32
  fi_reserved2 :: "u8 list"
  fi_trail_signature :: u32

definition FSINFO_LEAD_SIGNATURE :: u32 where
  "FSINFO_LEAD_SIGNATURE = 0x41615252"

definition FSINFO_STRUCT_SIGNATURE :: u32 where
  "FSINFO_STRUCT_SIGNATURE = 0x61417272"

definition FSINFO_TRAIL_SIGNATURE :: u32 where
  "FSINFO_TRAIL_SIGNATURE = 0xAA550000"

definition fsinfo_arrays_ok :: "FSInfo \<Rightarrow> bool" where
  "fsinfo_arrays_ok f \<longleftrightarrow> length (fi_reserved1 f) = 480 \<and> length (fi_reserved2 f) = 12"

definition fsinfo_encode :: "FSInfo \<Rightarrow> u8 list" where
  "fsinfo_encode f =
     enc32 (fi_lead_signature f) @ fi_reserved1 f @ enc32 (fi_struct_signature f)
     @ enc32 (fi_free_cluster_count f) @ enc32 (fi_next_free_cluster f) @ fi_reserved2 f
     @ enc32 (fi_trail_signature f)"

definition fsinfo_decode :: "u8 list \<Rightarrow> FSInfo" where
  "fsinfo_decode bs =
     \<lparr>fi_lead_signature = dec32 0 bs, fi_reserved1 = slice 4 480 bs,
      fi_struct_signature = dec32 484 bs, fi_free_cluster_count = dec32 488 bs,
      fi_next_free_cluster = dec32 492 bs, fi_reserved2 = slice 496 12 bs,
      fi_trail_signature = dec32 508 bs\<rparr>"

lemma bpb_encode_length: "bpb_arrays_ok b \<Longrightarrow> length (bpb_encode b) = 512"
  by (simp add: bpb_arrays_ok_def bpb_encode_def)

lemma fsinfo_encode_length: "fsinfo_arrays_ok f \<Longrightarrow> length (fsinfo_encode f) = 512"
  by (simp add: fsinfo_arrays_ok_def fsinfo_encode_def)

lemma bpb_decode_encode:
  assumes "bpb_arrays_ok b"
  shows "bpb_decode (bpb_encode b @ rest) = b"
  using assms
  by (simp add: bpb_arrays_ok_def bpb_decode_def bpb_encode_def dec16_def dec32_def
      slice_append_skip slice_Cons_skip slice_append_here nth_append_skip)

lemma fsinfo_decode_encode:
  assumes "fsinfo_arrays_ok f"
  shows "fsinfo_decode (fsinfo_encode f @ rest) = f"
  using assms
  by (simp add: fsinfo_arrays_ok_def fsinfo_decode_def fsinfo_encode_def dec32_def
      slice_append_skip slice_Cons_skip slice_append_here)

lemma bpb_decode_arrays: "512 \<le> length bs \<Longrightarrow> bpb_arrays_ok (bpb_decode bs)"
  by (simp add: bpb_arrays_ok_def bpb_decode_def)

lemma fsinfo_decode_arrays: "512 \<le> length bs \<Longrightarrow> fsinfo_arrays_ok (fsinfo_decode bs)"
  by (simp add: fsinfo_arrays_ok_def fsinfo_decode_def)

section \<open>Directory entries\<close>

record DirectoryEntryShort =
  de_name :: "u8 list"
  de_ext :: "u8 list"
  de_attr :: u8
  de_reserved :: u8
  de_create_time_tenths :: u8
  de_create_time :: u16
  de_create_date :: u16
  de_last_access_date :: u16
  de_first_cluster_high :: u16
  de_write_time :: u16
  de_write_date :: u16
  de_first_cluster_low :: u16
  de_file_size :: u32

record DirectoryEntryLong =
  le_order :: u8
  le_name1 :: "u16 list"
  le_attr :: u8
  le_type :: u8
  le_checksum :: u8
  le_name2 :: "u16 list"
  le_first_cluster_low :: u16
  le_name3 :: "u16 list"

definition ATTR_READ_ONLY :: u8 where "ATTR_READ_ONLY = 0x01"
definition ATTR_HIDDEN :: u8 where "ATTR_HIDDEN = 0x02"
definition ATTR_SYSTEM :: u8 where "ATTR_SYSTEM = 0x04"
definition ATTR_VOLUME_ID :: u8 where "ATTR_VOLUME_ID = 0x08"
definition ATTR_DIRECTORY :: u8 where "ATTR_DIRECTORY = 0x10"
definition ATTR_ARCHIVE :: u8 where "ATTR_ARCHIVE = 0x20"

definition ATTR_LONG_NAME :: u8 where
  "ATTR_LONG_NAME = ATTR_READ_ONLY OR ATTR_HIDDEN OR ATTR_SYSTEM OR ATTR_VOLUME_ID"

lemmas attr_defs =
  ATTR_READ_ONLY_def ATTR_HIDDEN_def ATTR_SYSTEM_def ATTR_VOLUME_ID_def ATTR_DIRECTORY_def
  ATTR_ARCHIVE_def ATTR_LONG_NAME_def

definition NAME1_LEN :: nat where "NAME1_LEN = 5"
definition NAME2_LEN :: nat where "NAME2_LEN = 6"
definition NAME3_LEN :: nat where "NAME3_LEN = 2"

definition short_arrays_ok :: "DirectoryEntryShort \<Rightarrow> bool" where
  "short_arrays_ok e \<longleftrightarrow> length (de_name e) = 8 \<and> length (de_ext e) = 3"

definition long_arrays_ok :: "DirectoryEntryLong \<Rightarrow> bool" where
  "long_arrays_ok e \<longleftrightarrow>
     length (le_name1 e) = 5 \<and> length (le_name2 e) = 6 \<and> length (le_name3 e) = 2"

definition short_encode :: "DirectoryEntryShort \<Rightarrow> u8 list" where
  "short_encode e =
     de_name e @ de_ext e @ [de_attr e] @ [de_reserved e] @ [de_create_time_tenths e]
     @ enc16 (de_create_time e) @ enc16 (de_create_date e) @ enc16 (de_last_access_date e)
     @ enc16 (de_first_cluster_high e) @ enc16 (de_write_time e) @ enc16 (de_write_date e)
     @ enc16 (de_first_cluster_low e) @ enc32 (de_file_size e)"

definition short_decode :: "u8 list \<Rightarrow> DirectoryEntryShort" where
  "short_decode bs =
     \<lparr>de_name = slice 0 8 bs, de_ext = slice 8 3 bs, de_attr = bs ! 11, de_reserved = bs ! 12,
      de_create_time_tenths = bs ! 13, de_create_time = dec16 14 bs, de_create_date = dec16 16 bs,
      de_last_access_date = dec16 18 bs, de_first_cluster_high = dec16 20 bs,
      de_write_time = dec16 22 bs, de_write_date = dec16 24 bs,
      de_first_cluster_low = dec16 26 bs, de_file_size = dec32 28 bs\<rparr>"

definition long_encode :: "DirectoryEntryLong \<Rightarrow> u8 list" where
  "long_encode e =
     [le_order e] @ concat_enc16 (le_name1 e) @ [le_attr e] @ [le_type e] @ [le_checksum e]
     @ concat_enc16 (le_name2 e) @ enc16 (le_first_cluster_low e) @ concat_enc16 (le_name3 e)"

definition long_decode :: "u8 list \<Rightarrow> DirectoryEntryLong" where
  "long_decode bs =
     \<lparr>le_order = bs ! 0, le_name1 = decs16 1 NAME1_LEN bs, le_attr = bs ! 11, le_type = bs ! 12,
      le_checksum = bs ! 13, le_name2 = decs16 14 NAME2_LEN bs,
      le_first_cluster_low = dec16 26 bs, le_name3 = decs16 28 NAME3_LEN bs\<rparr>"

lemma short_encode_length: "short_arrays_ok e \<Longrightarrow> length (short_encode e) = 32"
  by (simp add: short_arrays_ok_def short_encode_def)

lemma long_encode_length: "long_arrays_ok e \<Longrightarrow> length (long_encode e) = 32"
  by (simp add: long_arrays_ok_def long_encode_def)

lemma short_decode_encode:
  assumes "short_arrays_ok e"
  shows "short_decode (short_encode e) = e"
  using assms
  by (simp add: short_arrays_ok_def short_decode_def short_encode_def dec16_def dec32_def
      slice_append_skip slice_Cons_skip slice_append_here nth_append_skip slice_all)

lemma decs16_here:
  assumes "slice off (2 * length ws) bs = concat_enc16 ws" and "off + 2 * length ws \<le> length bs"
  shows "decs16 off (length ws) bs = ws"
  using assms by (simp add: decs16_slice decs16_concat)

lemma long_decode_encode:
  assumes "long_arrays_ok e"
  shows "long_decode (long_encode e) = e"
proof -
  note lens = assms [unfolded long_arrays_ok_def]
  note layout = long_encode_def slice_append_skip slice_Cons_skip slice_append_here slice_all
  have "decs16 1 (length (le_name1 e)) (long_encode e) = le_name1 e"
    using lens by (intro decs16_here) (simp_all add: layout)
  moreover have "decs16 14 (length (le_name2 e)) (long_encode e) = le_name2 e"
    using lens by (intro decs16_here) (simp_all add: layout)
  moreover have "decs16 28 (length (le_name3 e)) (long_encode e) = le_name3 e"
    using lens by (intro decs16_here) (simp_all add: layout)
  moreover have "dec16 26 (long_encode e) = le_first_cluster_low e"
    using lens by (simp add: dec16_def layout)
  ultimately show ?thesis
    using lens
    by (simp add: long_decode_def NAME1_LEN_def NAME2_LEN_def NAME3_LEN_def)
       (simp add: long_encode_def nth_append_skip)
qed

section \<open>Checks of \<open>mount\<close>\<close>

datatype MountError = MountIoError BlockDeviceError | InvalidFormat
datatype FormatError = FormatIoError BlockDeviceError | DeviceTooSmall

definition is_power_of_two :: "nat \<Rightarrow> bool" where
  "is_power_of_two n \<longleftrightarrow> list_ex (\<lambda>k. n = 2 ^ k) [0..<64]"

definition check_bpb :: "BPB \<Rightarrow> nat \<Rightarrow> nat \<Rightarrow> (MountError, unit) res" where
  "check_bpb bpb bsize bcount =
    (if bpb_bytes_per_sector bpb < 512
        \<or> unat (bpb_bytes_per_sector bpb) > bsize
        \<or> \<not> is_power_of_two (unat (bpb_bytes_per_sector bpb)) then Err InvalidFormat
     else if bpb_sectors_per_cluster bpb = 0
        \<or> \<not> is_power_of_two (unat (bpb_sectors_per_cluster bpb)) then Err InvalidFormat
     else if bpb_reserved_sector_count bpb = 0
        \<or> unat (bpb_reserved_sector_count bpb) > bcount then Err InvalidFormat
     else if bpb_num_fats bpb = 0 then Err InvalidFormat
     else if bpb_root_entry_count bpb \<noteq> 0 then Err InvalidFormat
     else if bpb_fat_size_16 bpb \<noteq> 0 then Err InvalidFormat
     else if bpb_total_sectors_16 bpb = 0 \<and> unat (bpb_total_sectors_32 bpb) \<noteq> bcount
       then Err InvalidFormat
     else if bpb_total_sectors_16 bpb \<noteq> 0 \<and> unat (bpb_total_sectors_16 bpb) \<noteq> bcount
       then Err InvalidFormat
     else if bpb_total_sectors_16 bpb \<noteq> 0 \<and> bpb_total_sectors_32 bpb \<noteq> 0
       then Err InvalidFormat
     else if bpb_fat_size_32 bpb = 0 then Err InvalidFormat
     else if bpb_root_cluster bpb < 2 then Err InvalidFormat
     else if bpb_boot_signature bpb \<noteq> 0x28 \<and> bpb_boot_signature bpb \<noteq> 0x29 then Err InvalidFormat
     else if bpb_boot_sector_signature bpb \<noteq> BPB_BOOT_SECTOR_SIGNATURE then Err InvalidFormat
     else Ok ())"

definition check_fs_info :: "FSInfo \<Rightarrow> (MountError, unit) res" where
  "check_fs_info f =
    (if fi_lead_signature f \<noteq> FSINFO_LEAD_SIGNATURE then Err InvalidFormat
     else if fi_struct_signature f \<noteq> FSINFO_STRUCT_SIGNATURE then Err InvalidFormat
     else if fi_trail_signature f \<noteq> FSINFO_TRAIL_SIGNATURE then Err InvalidFormat
     else Ok ())"

section \<open>Cluster count of a new file system\<close>

definition calc_cluster_count :: "nat \<Rightarrow> nat \<Rightarrow> nat \<Rightarrow> nat \<Rightarrow> nat \<times> nat" where
  "calc_cluster_count reserved_sector_count bytes_per_sector sectors_per_cluster bcount =
    (let cluster_per_fat = bytes_per_sector div 4;
         sector_per_group = 2 + cluster_per_fat * sectors_per_cluster;
         virtual_block_count =
           wadd64 (wsub64 bcount reserved_sector_count) (sectors_per_cluster * 2);
         group_count = virtual_block_count div sector_per_group;
         remain_block_count = virtual_block_count - sector_per_group * group_count;
         (remain_cluster, remain_block_count) =
           (if remain_block_count > 2
            then let remain_cluster = (remain_block_count - 2) div sectors_per_cluster
                 in (remain_cluster, remain_block_count - 2 - remain_cluster * sectors_per_cluster)
            else (0, remain_block_count));
         cluster_total = (group_count * cluster_per_fat + remain_cluster) - 2
     in (cluster_total, remain_block_count))"

text \<open>The number of FAT sectors that \<open>n\<close> data clusters and the two reserved entries need.\<close>

definition fat_sectors_for :: "nat \<Rightarrow> nat \<Rightarrow> nat" where
  "fat_sectors_for bytes_per_sector n =
     (n + 2 + (bytes_per_sector div 4 - 1)) div (bytes_per_sector div 4)"

lemma ceil_div_eq:
  fixes g r c :: nat
  assumes "0 < r" and "r \<le> c"
  shows "(g * c + r + (c - 1)) div c = g + 1"
proof -
  have "g * c + r + (c - 1) = (g + 1) * c + (r - 1)" using assms by (simp add: algebra_simps)
  moreover have "r - 1 < c" using assms by simp
  ultimately show ?thesis by (simp add: div_add1_eq del: mult_Suc)
qed

lemma fat_sectors_for_mono: "m \<le> n \<Longrightarrow> fat_sectors_for bps m \<le> fat_sectors_for bps n"
  unfolding fat_sectors_for_def by (intro div_le_mono) simp

lemma calc_cluster_count_split:
  assumes "calc_cluster_count reserved bps spc bcount = (n, rest)" and "0 < n"
    and "reserved \<le> bcount" and "bcount + 2 * spc < 2 ^ 64" and "0 < spc"
  obtains (partial) g r where "n + 2 = g * (bps div 4) + r" and "r < bps div 4"
      and "bcount = reserved + 2 * g + 2 + n * spc + rest" and "rest < spc"
  | (full) g where "n + 2 = g * (bps div 4)"
      and "bcount = reserved + 2 * g + n * spc + rest" and "rest \<le> 2"
proof -
  define c where "c = bps div 4"
  define v where "v = bcount - reserved + 2 * spc"
  define k where "k = 2 + c * spc"
  define g where "g = v div k"
  define m where "m = v mod k"
  define r where "r = (if m > 2 then (m - 2) div spc else 0)"
  have v: "v = k * g + m" unfolding g_def m_def by (rule mult_div_mod_eq [symmetric])
  have m: "m < k" unfolding m_def k_def by simp
  have w: "wadd64 (wsub64 bcount reserved) (spc * 2) = v"
    using assms(3,4) by (simp add: wadd64_def wsub64_le v_def)
  have "calc_cluster_count reserved bps spc bcount
      = (g * c + r - 2, if m > 2 then m - 2 - r * spc else m)"
    unfolding calc_cluster_count_def Let_def c_def [symmetric] w k_def [symmetric] g_def [symmetric]
    by (simp add: r_def v)
  then have calc: "n = g * c + r - 2" "rest = (if m > 2 then m - 2 - r * spc else m)"
    using assms(1) by simp_all
  have n2: "n + 2 = g * c + r" using calc(1) \<open>0 < n\<close> by simp
  have size: "bcount + 2 * spc = reserved + (2 + c * spc) * g + m"
    using v assms(3) unfolding v_def k_def by linarith
  have spread: "n * spc + 2 * spc = g * c * spc + r * spc"
    using n2 by (metis add_mult_distrib)
  show ?thesis
  proof (cases "m > 2")
    case True
    then have r: "r = (m - 2) div spc" by (simp add: r_def)
    have rs: "r * spc \<le> m - 2" unfolding r by simp
    have "m - 2 - r * spc < spc"
      using mod_less_divisor [OF \<open>0 < spc\<close>, of "m - 2"] unfolding r
      by (simp add: minus_div_mult_eq_mod)
    moreover have "r < c"
      using m True \<open>0 < spc\<close> unfolding r k_def by (simp add: less_mult_imp_div_less)
    moreover have "bcount = reserved + 2 * g + 2 + n * spc + (m - 2 - r * spc)"
      using size spread rs True by (simp add: algebra_simps)
    ultimately show ?thesis
      using partial [of g r] n2 calc(2) True unfolding c_def by auto
  next
    case False
    then have "bcount = reserved + 2 * g + n * spc + m"
      using size spread by (simp add: r_def algebra_simps)
    then show ?thesis
      using full [of g] n2 calc(2) False unfolding c_def r_def by auto
  qed
qed

text \<open>
  C23. The cluster count that \<open>calc_cluster_count\<close> computes for a new file system is the largest that
  fits: the reserved sectors, the sectors it reports as left over, two FATs large enough for all
  clusters (and the two reserved entries) and the clusters themselves fit on the device, and one
  cluster more would not.
\<close>

theorem calc_cluster_count_maximal:
  assumes "calc_cluster_count reserved bps spc bcount = (n, rest)" and "0 < n"
    and "reserved \<le> bcount" and "bcount + 2 * spc < 2 ^ 64" and "0 < spc" and "4 \<le> bps"
  shows "reserved + rest + 2 * fat_sectors_for bps n + n * spc \<le> bcount
       \<and> bcount < reserved + 2 * fat_sectors_for bps (n + 1) + (n + 1) * spc"
  using assms(1-5)
proof (cases rule: calc_cluster_count_split)
  case (partial g r)
  have c: "0 < bps div 4" using \<open>4 \<le> bps\<close> by (simp add: div_greater_zero_iff)
  have "fat_sectors_for bps (n + 1) = g + 1"
    using partial(1,2) ceil_div_eq [of "r + 1" "bps div 4" g] by (simp add: fat_sectors_for_def)
  moreover have "fat_sectors_for bps n \<le> g + 1"
    using fat_sectors_for_mono [of n "n + 1" bps] calculation by simp
  ultimately show ?thesis using partial by (simp add: algebra_simps)
next
  case (full g)
  have c: "0 < bps div 4" using \<open>4 \<le> bps\<close> by (simp add: div_greater_zero_iff)
  have "fat_sectors_for bps (n + 1) = g + 1"
    using full(1) c ceil_div_eq [of 1 "bps div 4" g] by (simp add: fat_sectors_for_def)
  moreover have "fat_sectors_for bps n = g"
    using full(1) c by (simp add: fat_sectors_for_def flip: add_diff_assoc)
  ultimately show ?thesis using full \<open>0 < spc\<close> by (simp add: algebra_simps)
qed

theorem calc_cluster_count_maximal_witness:
  "calc_cluster_count 2 512 8 1022 = (127, 0)
   \<and> 2 + 2 * fat_sectors_for 512 127 + 127 * 8 \<le> (1022 :: nat)"
proof -
  have "calc_cluster_count 2 512 8 1022 = (127, 0)"
    by (simp add: calc_cluster_count_def wadd64_def wsub64_def)
  then show ?thesis
    using calc_cluster_count_maximal [of 2 512 8 1022 127 0] by simp
qed

end
