(* ===== verification/Fat32_Names.thy ===== *)
theory Fat32_Names
  imports Fat32_Layout
begin

text \<open>
  File names and file metadata of the FAT32 implementation
  (\<open>library/filesystem/src/fs/fat32.rs\<close>): \<open>Fat32FileMetadata\<close> with \<open>new\<close>, \<open>start_cluster\<close> and
  \<open>name_to_string\<close>, and the name comparison \<open>name_match_short\<close>, \<open>name_match_long\<close> and
  \<open>match_with_array\<close>.  An iterator that a function advances is a list returned next to its result.

  The lemmas show that the entry-by-entry construction of the long name in \<open>new\<close> is the cutting of
  the UTF-16 name into groups of thirteen, that the entries print back to the name, and that a lookup
  finds exactly this name.
\<close>

section \<open>Matching\<close>

fun match_with_array :: "'a::zero list \<Rightarrow> 'a list \<Rightarrow> bool \<times> 'a list" where
  "match_with_array iter [] = (True, iter)"
| "match_with_array iter (item # array) =
    (if item = 0 then (True, iter)
     else case iter of
       [] \<Rightarrow> (False, [])
     | nxt # iter' \<Rightarrow> if item \<noteq> nxt then (False, iter') else match_with_array iter' array)"

definition name_match_short :: "DirectoryEntryShort \<Rightarrow> rstr \<Rightarrow> bool" where
  "name_match_short entry name =
    (let (matches, bytes) = match_with_array (utf8_encode name) (de_name entry)
     in if \<not> matches then False
     else let name_has_dot = (bytes \<noteq> [] \<and> hd bytes = 0x2E);
              bytes = tl bytes;
              entry_has_ext = (de_ext entry ! 0 \<noteq> 0)
          in if name_has_dot \<noteq> entry_has_ext then False
          else let (matches, bytes) =
                 (if name_has_dot then match_with_array bytes (de_ext entry) else (True, bytes))
               in if \<not> matches then False else bytes = [])"

fun name_match_entries :: "DirectoryEntryLong list \<Rightarrow> u16 list \<Rightarrow> bool \<times> u16 list" where
  "name_match_entries [] utf16 = (True, utf16)"
| "name_match_entries (entry # entries) utf16 =
    (let (matches, utf16) = match_with_array utf16 (le_name1 entry)
     in if \<not> matches then (False, utf16)
     else let (matches, utf16) = match_with_array utf16 (le_name2 entry)
     in if \<not> matches then (False, utf16)
     else let (matches, utf16) = match_with_array utf16 (le_name3 entry)
     in if \<not> matches then (False, utf16)
     else name_match_entries entries utf16)"

definition name_match_long :: "DirectoryEntryLong list \<Rightarrow> rstr \<Rightarrow> bool" where
  "name_match_long entries name =
    (let (matches, utf16) = name_match_entries entries (encode_utf16 name)
     in if \<not> matches then False else utf16 = [])"

section \<open>File metadata\<close>

record Fat32FileMetadata =
  fm_short :: DirectoryEntryShort
  fm_long :: "DirectoryEntryLong list"
  fm_start_cluster :: nat
  fm_start_sector :: nat
  fm_start_sector_offset :: nat
  fm_short_cluster :: nat
  fm_short_sector :: nat
  fm_short_sector_offset :: nat

definition empty_long :: "u8 \<Rightarrow> DirectoryEntryLong" where
  "empty_long ord =
     \<lparr>le_order = ord, le_name1 = replicate NAME1_LEN 0, le_attr = ATTR_LONG_NAME, le_type = 0,
      le_checksum = 0, le_name2 = replicate NAME2_LEN 0, le_first_cluster_low = 0,
      le_name3 = replicate NAME3_LEN 0\<rparr>"

definition set_unit :: "nat \<Rightarrow> u16 \<Rightarrow> DirectoryEntryLong \<Rightarrow> DirectoryEntryLong" where
  "set_unit i ch current =
    (if i < NAME1_LEN then current\<lparr>le_name1 := (le_name1 current)[i := ch]\<rparr>
     else if i < NAME1_LEN + NAME2_LEN
       then current\<lparr>le_name2 := (le_name2 current)[i - NAME1_LEN := ch]\<rparr>
     else current\<lparr>le_name3 := (le_name3 current)[i - NAME1_LEN - NAME2_LEN := ch]\<rparr>)"

text \<open>One pass of the loop over the UTF-16 units: the finished entries, the current one, its index.\<close>

fun new_step ::
  "DirectoryEntryLong list \<times> DirectoryEntryLong option \<times> nat \<Rightarrow> u16
    \<Rightarrow> DirectoryEntryLong list \<times> DirectoryEntryLong option \<times> nat" where
  "new_step (long, current_long, i) ch =
    (let (current, i) = (case current_long of
           None \<Rightarrow> (empty_long (of_nat (length long)), 0)
         | Some current \<Rightarrow> (current, i));
         current = set_unit i ch current;
         i = i + 1
     in if i = NAME1_LEN + NAME2_LEN + NAME3_LEN then (long @ [current], None, i)
        else (long, Some current, i))"

definition new_long :: "u16 list \<Rightarrow> DirectoryEntryLong list" where
  "new_long utf16 =
    (let (long, current_long, i) = fold (\<lambda>ch st. new_step st ch) utf16 ([], None, 0)
     in case current_long of None \<Rightarrow> long | Some current \<Rightarrow> long @ [current])"

definition metadata_new :: "rstr \<Rightarrow> nat \<Rightarrow> u8 \<Rightarrow> Fat32FileMetadata" where
  "metadata_new name start_cluster attr =
     \<lparr>fm_short =
        \<lparr>de_name = replicate 8 0x3F, de_ext = replicate 3 0x3F, de_attr = attr, de_reserved = 0,
         de_create_time_tenths = 0, de_create_time = 0, de_create_date = 0,
         de_last_access_date = 0,
         de_first_cluster_high = ucast (drop_bit 16 (of_nat start_cluster :: u32) AND 0xffff),
         de_write_time = 0, de_write_date = 0,
         de_first_cluster_low = ucast ((of_nat start_cluster :: u32) AND 0xffff),
         de_file_size = 0\<rparr>,
      fm_long = new_long (encode_utf16 name),
      fm_start_cluster = 0, fm_start_sector = 0, fm_start_sector_offset = 0,
      fm_short_cluster = 0, fm_short_sector = 0, fm_short_sector_offset = 0\<rparr>"

definition short_start_cluster :: "DirectoryEntryShort \<Rightarrow> nat" where
  "short_start_cluster e =
     unat ((ucast (de_first_cluster_low e) :: u32) OR push_bit 16 (ucast (de_first_cluster_high e)))"

definition metadata_start_cluster :: "Fat32FileMetadata \<Rightarrow> nat" where
  "metadata_start_cluster m = short_start_cluster (fm_short m)"

definition is_ascii_whitespace :: "u8 \<Rightarrow> bool" where
  "is_ascii_whitespace b \<longleftrightarrow> b \<in> {0x20, 0x09, 0x0A, 0x0C, 0x0D}"

definition trim_ascii :: "u8 list \<Rightarrow> u8 list" where
  "trim_ascii bs =
     rev (dropWhile is_ascii_whitespace (rev (dropWhile is_ascii_whitespace bs)))"

definition entry_units :: "DirectoryEntryLong \<Rightarrow> u16 list" where
  "entry_units entry = filter (\<lambda>u. u \<noteq> 0) (le_name1 entry @ le_name2 entry @ le_name3 entry)"

definition name_to_string :: "Fat32FileMetadata \<Rightarrow> rstr" where
  "name_to_string m =
    (if fm_long m = [] then
       (let start = trim_ascii (de_name (fm_short m)); ext = trim_ascii (de_ext (fm_short m))
        in if ext = [] then from_utf8_lossy start
           else from_utf8_lossy start @ [0x2E] @ from_utf8_lossy ext)
     else from_utf16_lossy (concat (map entry_units (fm_long m))))"

section \<open>The long entries of a name\<close>

text \<open>The reference definition: thirteen units to an entry, the last one padded with zeros.\<close>

definition long_entry :: "nat \<Rightarrow> u16 list \<Rightarrow> DirectoryEntryLong" where
  "long_entry k us =
    (let pad = us @ replicate (13 - length us) 0
     in \<lparr>le_order = of_nat k, le_name1 = slice 0 5 pad, le_attr = ATTR_LONG_NAME, le_type = 0,
         le_checksum = 0, le_name2 = slice 5 6 pad, le_first_cluster_low = 0,
         le_name3 = slice 11 2 pad\<rparr>)"

definition long_entries :: "u16 list \<Rightarrow> DirectoryEntryLong list" where
  "long_entries us = map (\<lambda>k. long_entry k (slice (13 * k) 13 us)) [0..<(length us + 12) div 13]"

lemmas name_len_defs = NAME1_LEN_def NAME2_LEN_def NAME3_LEN_def

lemma list_update_slice:
  "slice off n (xs[i := x]) =
    (if off \<le> i \<and> i < off + n then (slice off n xs)[i - off := x] else slice off n xs)"
  by (auto simp: slice_def drop_update_swap take_update_swap intro!: list_update_beyond)

lemma set_unit_long_entry:
  assumes "length us < 13"
  shows "set_unit (length us) u (long_entry k us) = long_entry k (us @ [u])"
proof -
  obtain p where p: "13 - length us = Suc p" using assms by (cases "13 - length us") auto
  have p': "p = 13 - length (us @ [u])" using p by simp
  have pad: "(us @ [u]) @ replicate p 0 = (us @ replicate (Suc p) 0)[length us := u]" by simp
  show ?thesis
    unfolding set_unit_def long_entry_def Let_def p p' [symmetric] pad list_update_slice name_len_defs
    using assms by auto
qed

lemma empty_long_entry: "empty_long (of_nat k) = long_entry k []"
  by (simp add: empty_long_def long_entry_def name_len_defs slice_def)

lemma slice_snoc_before: "off + n \<le> length xs \<Longrightarrow> slice off n (xs @ [x]) = slice off n xs"
  by (simp add: slice_def)

text \<open>What the loop holds after the units \<open>us\<close>.\<close>

definition new_state ::
  "u16 list \<Rightarrow> DirectoryEntryLong list \<times> DirectoryEntryLong option \<times> nat \<Rightarrow> bool" where
  "new_state us st \<longleftrightarrow>
    (\<exists>i. st = (map (\<lambda>k. long_entry k (slice (13 * k) 13 us)) [0..<length us div 13],
        if length us mod 13 = 0 then None
        else Some (long_entry (length us div 13) (drop (13 * (length us div 13)) us)), i)
      \<and> (length us mod 13 \<noteq> 0 \<longrightarrow> i = length us mod 13))"

lemma new_state_step:
  assumes "new_state us st"
  shows "new_state (us @ [u]) (new_step st u)"
proof -
  define q where "q = length us div 13"
  define r where "r = length us mod 13"
  let ?done = "map (\<lambda>k. long_entry k (slice (13 * k) 13 us)) [0..<q]"
  have len: "length us = 13 * q + r" and r: "r < 13" by (simp_all add: q_def r_def)
  obtain i where st: "st = (?done, if r = 0 then None else Some (long_entry q (drop (13 * q) us)), i)"
    and i: "r \<noteq> 0 \<Longrightarrow> i = r"
    using assms unfolding new_state_def q_def r_def by blast
  have rest: "length (drop (13 * q) us) = r" using len by simp
  have snoc: "drop (13 * q) (us @ [u]) = drop (13 * q) us @ [u]" using len by simp
  have cur: "set_unit r u (long_entry q (drop (13 * q) us)) = long_entry q (drop (13 * q) us @ [u])"
    using set_unit_long_entry [of "drop (13 * q) us" u q] rest r by simp
  have nil: "r = 0 \<Longrightarrow> drop (13 * q) us = []" using rest by simp
  have step: "new_step st u =
     (if r + 1 = 13 then (?done @ [long_entry q (drop (13 * q) us @ [u])], None, 13)
      else (?done, Some (long_entry q (drop (13 * q) us @ [u])), r + 1))"
    unfolding st using cur nil i by (auto simp: name_len_defs empty_long_entry)
  have old: "map (\<lambda>k. long_entry k (slice (13 * k) 13 (us @ [u]))) [0..<q] = ?done"
    using len by (intro map_cong refl arg_cong2 [of _ _ _ _ long_entry] slice_snoc_before) auto
  show ?thesis
  proof (cases "r + 1 = 13")
    case True
    then have "Suc (length us) = 13 * Suc q" using len by simp
    then have "Suc (length us) div 13 = Suc q" "Suc (length us) mod 13 = 0"
      by (metis nonzero_mult_div_cancel_left numeral_eq_Suc old.nat.distinct(2), metis mod_mult_self1_is_0)
    moreover have "slice (13 * q) 13 (us @ [u]) = drop (13 * q) us @ [u]"
      using snoc rest True by (simp add: slice_def)
    ultimately show ?thesis using step True old unfolding new_state_def by simp
  next
    case False
    then have "r + 1 < 13" "Suc (length us) = 13 * q + (r + 1)" using len r by linarith+
    then have "Suc (length us) div 13 = q" "Suc (length us) mod 13 = r + 1" by simp_all
    then show ?thesis using step False old snoc unfolding new_state_def by simp
  qed
qed

lemma new_state_fold: "new_state us (fold (\<lambda>ch st. new_step st ch) us ([], None, 0))"
proof (induction us rule: rev_induct)
  case Nil
  show ?case by (simp add: new_state_def)
next
  case (snoc u us)
  then show ?case by (simp add: new_state_step del: new_step.simps)
qed

lemma new_long_long_entries: "new_long us = long_entries us"
proof -
  define q where "q = length us div 13"
  define r where "r = length us mod 13"
  obtain i where st: "fold (\<lambda>ch st. new_step st ch) us ([], None, 0) =
      (map (\<lambda>k. long_entry k (slice (13 * k) 13 us)) [0..<q],
       if r = 0 then None else Some (long_entry q (drop (13 * q) us)), i)"
    using new_state_fold [of us] unfolding new_state_def q_def r_def by blast
  have len: "length us = 13 * q + r" and r: "r < 13" by (simp_all add: q_def r_def)
  show ?thesis
  proof (cases "r = 0")
    case True
    then have "(length us + 12) div 13 = q" using len by simp
    then show ?thesis using st True by (simp add: new_long_def long_entries_def)
  next
    case False
    then have "length us + 12 = 13 * Suc q + (r - 1)" using len by simp
    then have "(length us + 12) div 13 = Suc q" using r by simp
    moreover have "slice (13 * q) 13 us = drop (13 * q) us"
      using len r by (simp add: slice_def)
    ultimately show ?thesis using st False by (simp add: new_long_def long_entries_def)
  qed
qed

section \<open>Lookup\<close>

lemma match_with_array_iff:
  "match_with_array iter array = (True, rest) \<longleftrightarrow> iter = takeWhile (\<lambda>x. x \<noteq> 0) array @ rest"
  by (induction iter array rule: match_with_array.induct) (auto split: list.splits)

definition entry_text :: "DirectoryEntryLong \<Rightarrow> u16 list" where
  "entry_text e =
     takeWhile (\<lambda>x. x \<noteq> 0) (le_name1 e) @ takeWhile (\<lambda>x. x \<noteq> 0) (le_name2 e)
     @ takeWhile (\<lambda>x. x \<noteq> 0) (le_name3 e)"

lemma match_with_array_cases:
  obtains (match) rest where "match_with_array iter array = (True, rest)"
    and "iter = takeWhile (\<lambda>x. x \<noteq> 0) array @ rest"
  | (mismatch) rest where "match_with_array iter array = (False, rest)"
    and "\<And>rest'. iter \<noteq> takeWhile (\<lambda>x. x \<noteq> 0) array @ rest'"
proof (cases "match_with_array iter array")
  case (Pair b rest)
  show thesis
  proof (cases b)
    case True
    then show thesis using match Pair match_with_array_iff by auto
  next
    case False
    then have "iter \<noteq> takeWhile (\<lambda>x. x \<noteq> 0) array @ rest'" for rest'
      using Pair match_with_array_iff [of iter array rest'] by auto
    then show thesis using mismatch [of rest] Pair False by simp
  qed
qed

lemma name_match_entries_iff:
  "name_match_entries es us = (True, rest) \<longleftrightarrow> us = concat (map entry_text es) @ rest"
proof (induction es us rule: name_match_entries.induct)
  case (1 us)
  show ?case by auto
next
  case (2 e es us)
  show ?case
  proof (cases us "le_name1 e" rule: match_with_array_cases)
    case m1: (match us1)
    show ?thesis
    proof (cases us1 "le_name2 e" rule: match_with_array_cases)
      case m2: (match us2)
      show ?thesis
        by (cases us2 "le_name3 e" rule: match_with_array_cases)
           (use m1 m2 2 in \<open>auto simp: entry_text_def\<close>)
    qed (use m1 in \<open>auto simp: entry_text_def\<close>)
  qed (auto simp: entry_text_def)
qed

lemma name_match_long_iff:
  "name_match_long es name \<longleftrightarrow> encode_utf16 name = concat (map entry_text es)"
proof (cases "name_match_entries es (encode_utf16 name)")
  case (Pair b rest)
  then show ?thesis
    using name_match_entries_iff [of es "encode_utf16 name" rest]
      name_match_entries_iff [of es "encode_utf16 name" "[]"]
    by (cases b) (auto simp: name_match_long_def)
qed

lemma takeWhile_replicate_append:
  "0 \<notin> set us \<Longrightarrow> takeWhile (\<lambda>x. x \<noteq> 0) (us @ replicate n (0 :: u16)) = us"
  by (cases n) (auto simp: takeWhile_append)

lemma slice_pad:
  "slice off n (us @ replicate m 0) =
     slice off n us @ replicate (min (n - (length us - off)) (m - (off - length us))) 0"
  by (simp add: slice_def drop_append take_append)

lemma set_slice_subset: "set (slice off n xs) \<subseteq> set xs"
  by (metis slice_def set_take_subset set_drop_subset order_trans)

lemma takeWhile_slice_pad:
  "0 \<notin> set us \<Longrightarrow> takeWhile (\<lambda>x. x \<noteq> (0 :: u16)) (slice off n (us @ replicate m 0)) = slice off n us"
  using set_slice_subset [of off n us] by (auto simp: slice_pad intro!: takeWhile_replicate_append)

lemma filter_slice_pad:
  "0 \<notin> set us \<Longrightarrow> filter (\<lambda>x. x \<noteq> (0 :: u16)) (slice off n (us @ replicate m 0)) = slice off n us"
  using set_slice_subset [of off n us] by (auto simp: slice_pad filter_id_conv)

lemma slice_split: "slice 0 5 us @ slice 5 6 us @ slice 11 2 us = take 13 us"
  using take_add [of 5 6 us] take_add [of 11 2 us] by (simp add: slice_def)

lemma entry_text_long_entry:
  "0 \<notin> set us \<Longrightarrow> length us \<le> 13 \<Longrightarrow> entry_text (long_entry k us) = us"
  by (simp add: entry_text_def long_entry_def Let_def takeWhile_slice_pad slice_split)

lemma entry_units_long_entry:
  "0 \<notin> set us \<Longrightarrow> length us \<le> 13 \<Longrightarrow> entry_units (long_entry k us) = us"
  by (auto simp: entry_units_def long_entry_def Let_def filter_slice_pad slice_split
      intro!: filter_True)

lemma length_slice_le: "length (slice off n xs) \<le> n"
  by (simp add: slice_def)

lemma long_entries_concat:
  assumes f: "\<And>k vs. 0 \<notin> set vs \<Longrightarrow> length vs \<le> 13 \<Longrightarrow> f (long_entry k vs) = vs" and "0 \<notin> set us"
  shows "concat (map f (long_entries us)) = us"
proof -
  have "f (long_entry k (slice (k * 13) 13 us)) = slice (k * 13) 13 us" for k
    using assms(2) set_slice_subset [of "k * 13" 13 us] length_slice_le by (intro f) auto
  then have "map f (long_entries us) = chunks 13 ((length us + 12) div 13) us"
    by (simp add: long_entries_def chunks_def mult.commute comp_def)
  moreover have "length us \<le> (length us + 12) div 13 * 13" by presburger
  ultimately show ?thesis by (simp add: concat_chunks)
qed

lemma sort_key_sorted: "sorted (map f xs) \<Longrightarrow> sort_key f xs = xs"
  by (induction xs) (auto simp: insort_is_Cons)

lemma sort_long_entries:
  assumes "length us \<le> 13 * 256"
  shows "sort_key le_order (long_entries us) = long_entries us"
proof (rule sort_key_sorted)
  have "(length us + 12) div 13 \<le> 256" using assms by simp
  then have "sorted (map (\<lambda>k. of_nat k :: u8) [0..<(length us + 12) div 13])"
    by (auto simp: sorted_iff_nth_mono word_le_nat_alt unat_u8_of_nat)
  then show "sorted (map le_order (long_entries us))"
    by (simp add: long_entries_def long_entry_def Let_def comp_def)
qed

lemma long_entry_arrays: "length us \<le> 13 \<Longrightarrow> long_arrays_ok (long_entry k us)"
  by (simp add: long_entry_def Let_def long_arrays_ok_def)

lemma long_entries_arrays: "e \<in> set (long_entries us) \<Longrightarrow> long_arrays_ok e"
  by (auto simp: long_entries_def intro!: long_entry_arrays length_slice_le)

lemma long_entries_attr: "e \<in> set (long_entries us) \<Longrightarrow> le_attr e = ATTR_LONG_NAME"
  by (auto simp: long_entries_def long_entry_def Let_def)

lemma long_entries_eq_Nil [simp]: "long_entries us = [] \<longleftrightarrow> us = []"
  by (cases us) (auto simp: long_entries_def)

lemma fm_long_new [simp]: "fm_long (metadata_new name c attr) = long_entries (encode_utf16 name)"
  by (simp add: metadata_new_def new_long_long_entries)

definition name_ok :: "rstr \<Rightarrow> bool" where
  "name_ok name \<longleftrightarrow> name \<noteq> [] \<and> (\<forall>c \<in> set name. is_scalar c \<and> c \<noteq> 0)"

text \<open>
  C24. A file created under a name is found under exactly that name: the long entries that
  \<open>Fat32FileMetadata::new\<close> builds match, in the order in which a lookup sorts them, the name they
  were built from and no other, and they print back to it.
\<close>

theorem long_name_lookup:
  assumes "name_ok name" and "\<forall>c \<in> set other. is_scalar c"
    and "length (encode_utf16 name) \<le> 13 * 256"
  shows "(name_match_long (sort_key le_order (fm_long (metadata_new name c attr))) other
           \<longleftrightarrow> other = name)
       \<and> name_to_string (metadata_new name c attr) = name"
proof -
  have scalar: "\<forall>c \<in> set name. is_scalar c" using assms(1) by (simp add: name_ok_def)
  have nonzero: "0 \<notin> set (encode_utf16 name)"
    using encode_utf16_nonzero assms(1) unfolding name_ok_def by blast
  have "concat (map entry_text (long_entries (encode_utf16 name))) = encode_utf16 name"
    using nonzero by (intro long_entries_concat entry_text_long_entry)
  then have "name_match_long (long_entries (encode_utf16 name)) other
      \<longleftrightarrow> encode_utf16 other = encode_utf16 name"
    by (simp add: name_match_long_iff)
  moreover have "concat (map entry_units (long_entries (encode_utf16 name))) = encode_utf16 name"
    using nonzero by (intro long_entries_concat entry_units_long_entry)
  ultimately show ?thesis
    using assms scalar
    by (auto simp: sort_long_entries encode_utf16_inject name_to_string_def from_utf16_encode
        name_ok_def)
qed

definition example_name :: rstr where
  "example_name = [0x72, 0x65, 0x61, 0x64, 0x6D, 0x65, 0x2E, 0x74, 0x78, 0x74, 0x2E, 0x62, 0x61, 0x6B, 0x1F600]"

theorem long_name_lookup_witness:
  "length (fm_long (metadata_new example_name 7 ATTR_ARCHIVE)) = 2
   \<and> name_match_long (sort_key le_order (fm_long (metadata_new example_name 7 ATTR_ARCHIVE))) example_name
   \<and> name_to_string (metadata_new example_name 7 ATTR_ARCHIVE) = example_name"
proof -
  have "length (encode_utf16 example_name) = 16"
    by (simp add: example_name_def encode_utf16_def utf16_char_def)
  moreover have "name_ok example_name"
    by (simp add: example_name_def name_ok_def is_scalar_def)
  ultimately show ?thesis
    using long_name_lookup [of example_name example_name 7 ATTR_ARCHIVE]
    by (simp add: name_ok_def long_entries_def)
qed

lemma split_cluster_word:
  "(ucast (ucast (w AND 0xffff) :: u16) :: u32)
     OR push_bit 16 (ucast (ucast (drop_bit 16 w AND 0xffff) :: u16)) = w"
proof -
  have m: "(0xffff :: u32) = mask 16" by (simp add: mask_eq_exp_minus_1)
  show ?thesis
    unfolding m by (intro bit_word_eqI) (auto simp: bit_simps not_less dest: bit_imp_le_length)
qed

lemma start_cluster_new [simp]:
  "c < 2 ^ 32 \<Longrightarrow> metadata_start_cluster (metadata_new name c attr) = c"
  by (simp add: metadata_start_cluster_def short_start_cluster_def metadata_new_def
      split_cluster_word unat_of_nat)

end
