(* ===== verification/Fat32_Core.thy ===== *)
theory Fat32_Core
  imports Fat32_Names Memory_Device
begin

text \<open>
  The mounted file system \<open>Fat32Inner\<close> of \<open>library/filesystem/src/fs/fat32.rs\<close> and its operations on
  the file allocation table: \<open>get_sector_by_cluster\<close>, \<open>get_next_cluster\<close>, \<open>update_cluster\<close>,
  \<open>write_fs_info\<close>, \<open>free_cluster\<close>, \<open>find_available_cluster\<close> and \<open>get_allocated_size\<close>, with the errors
  of \<open>library/filesystem/src/fs/mod.rs\<close>.

  Every operation takes the device's method table first; the device's data is a field of the state,
  so a method call runs on that field (\<open>io\<close>) and converts the device's error.  The lock around
  \<open>Fat32Inner\<close> is held for a whole operation, so operations are sequential.  Loops that follow links
  on disk are \<open>partial_function (option)\<close>: a loop that never ends is \<open>None\<close>.  Cluster numbers and FAT
  entries are \<open>nat\<close> below \<open>2 ^ 32\<close>.

  The lemmas relate the operations to a table from clusters to entries (\<open>fat_get\<close>) and to the
  clusters' blocks (\<open>cluster_get\<close>).
\<close>

section \<open>State\<close>

datatype FileSystemError =
  IoError BlockDeviceError | FileNotFound | FileExists | DiskFull | FileTypeMismatch | NameTooLang
  | FileOccupied | OperationNotSupport | Unmounted | FileClosed | FileTooLarge

record 'd Fat32Inner =
  device :: 'd
  bpb :: BPB
  fs_info :: "FSInfo option"
  max_cluster :: nat
  occupied_file :: "nat set"

type_synonym ('d, 'a) fs_prog = "('d Fat32Inner, FileSystemError, 'a) prog"

definition io :: "('d, BlockDeviceError, 'a) prog \<Rightarrow> ('d, 'a) fs_prog" where
  "io m = zoom device (\<lambda>d s. s\<lparr>device := d\<rparr>) IoError m"

definition FAT_ENTRY_FREE :: nat where "FAT_ENTRY_FREE = 0x00000000"
definition FAT_ENTRY_RESERVED_START :: nat where "FAT_ENTRY_RESERVED_START = 0x0FFFFFF0"
definition FAT_ENTRY_EOC_START :: nat where "FAT_ENTRY_EOC_START = 0x0FFFFFF8"

lemmas fat_entry_defs =
  FAT_ENTRY_FREE_def FAT_ENTRY_RESERVED_START_def FAT_ENTRY_EOC_START_def

abbreviation bytes_per_sector :: "BPB \<Rightarrow> nat" where
  "bytes_per_sector b \<equiv> unat (bpb_bytes_per_sector b)"

abbreviation sectors_per_cluster :: "BPB \<Rightarrow> nat" where
  "sectors_per_cluster b \<equiv> unat (bpb_sectors_per_cluster b)"

abbreviation reserved_sector_count :: "BPB \<Rightarrow> nat" where
  "reserved_sector_count b \<equiv> unat (bpb_reserved_sector_count b)"

abbreviation fat_size_32 :: "BPB \<Rightarrow> nat" where
  "fat_size_32 b \<equiv> unat (bpb_fat_size_32 b)"

section \<open>Operations\<close>

text \<open>A read or write of the \<open>FatEntry\<close> with index \<open>offset\<close> through a raw pointer into a buffer.\<close>

definition read_fat_entry :: "nat \<Rightarrow> u8 list \<Rightarrow> ('s, 'e, nat) prog" where
  "read_fat_entry offset buffer =
    (if 4 * offset + 4 \<le> length buffer then ret (from_le (slice (4 * offset) 4 buffer))
     else undefined_behaviour)"

definition write_fat_entry :: "nat \<Rightarrow> nat \<Rightarrow> u8 list \<Rightarrow> ('s, 'e, u8 list) prog" where
  "write_fat_entry offset entry buffer =
    (if 4 * offset + 4 \<le> length buffer then ret (patch (4 * offset) (to_le 4 entry) buffer)
     else undefined_behaviour)"

definition get_sector_by_cluster :: "nat \<Rightarrow> ('d, nat) fs_prog" where
  "get_sector_by_cluster cluster =
    bind (gets (\<lambda>s. s)) (\<lambda>s.
    bind (assert (cluster \<ge> 2 \<and> cluster < (max_cluster s + 2) mod 2 ^ 32)) (\<lambda>_.
    ret (reserved_sector_count (bpb s) + fat_size_32 (bpb s) * 2
         + (cluster - 2) * sectors_per_cluster (bpb s))))"

text \<open>The block of the first FAT that holds a cluster's entry, and the entry's index in it.\<close>

definition fat_position :: "nat \<Rightarrow> ('d, nat \<times> nat) fs_prog" where
  "fat_position cluster =
    bind (gets bpb) (\<lambda>b.
    let cluster_per_sector = bytes_per_sector b div 4
    in bind (assert (cluster_per_sector \<noteq> 0)) (\<lambda>_.
       ret (reserved_sector_count b + cluster div cluster_per_sector,
            cluster mod cluster_per_sector)))"

definition new_buffer :: "'d block_device \<Rightarrow> ('d, u8 list) fs_prog" where
  "new_buffer dev = gets (\<lambda>s. replicate (block_size dev (device s)) 0)"

definition get_next_cluster :: "'d block_device \<Rightarrow> nat \<Rightarrow> ('d, nat) fs_prog" where
  "get_next_cluster dev cluster =
    bind (fat_position cluster) (\<lambda>(block_index, offset).
    bind (new_buffer dev) (\<lambda>buffer.
    bind (io (read_block dev block_index buffer)) (\<lambda>buffer.
    read_fat_entry offset buffer)))"

definition write_fats :: "'d block_device \<Rightarrow> nat \<Rightarrow> u8 list \<Rightarrow> ('d, unit) fs_prog" where
  "write_fats dev block_index buffer =
    bind (gets bpb) (\<lambda>b.
    for_each [0..<unat (bpb_num_fats b)] (\<lambda>i _.
      io (write_block dev (block_index + fat_size_32 b * i) buffer)) ())"

definition update_cluster :: "'d block_device \<Rightarrow> nat \<Rightarrow> nat \<Rightarrow> ('d, unit) fs_prog" where
  "update_cluster dev cluster entry =
    bind (fat_position cluster) (\<lambda>(block_index, offset).
    bind (new_buffer dev) (\<lambda>buffer.
    bind (io (read_block dev block_index buffer)) (\<lambda>buffer.
    bind (write_fat_entry offset entry buffer) (\<lambda>buffer.
    write_fats dev block_index buffer))))"

definition write_fs_info :: "'d block_device \<Rightarrow> ('d, unit) fs_prog" where
  "write_fs_info dev =
    bind (gets (\<lambda>s. s)) (\<lambda>s.
    case fs_info s of
      None \<Rightarrow> ret ()
    | Some info \<Rightarrow>
        bind (new_buffer dev) (\<lambda>buffer.
        if 512 \<le> length buffer
        then io (write_block dev (unat (bpb_fs_info (bpb s))) (patch 0 (fsinfo_encode info) buffer))
        else undefined_behaviour))"

text \<open>\<open>if let Some(fs_info) = &mut self.fs_info { .. ; self.write_fs_info().await?; }\<close>\<close>

definition update_fs_info :: "'d block_device \<Rightarrow> (FSInfo \<Rightarrow> FSInfo) \<Rightarrow> ('d, unit) fs_prog" where
  "update_fs_info dev f =
    bind (gets fs_info) (\<lambda>info.
    case info of
      None \<Rightarrow> ret ()
    | Some info \<Rightarrow>
        bind (modify (\<lambda>s. s\<lparr>fs_info := Some (f info)\<rparr>)) (\<lambda>_. write_fs_info dev))"

definition free_cluster :: "'d block_device \<Rightarrow> nat \<Rightarrow> ('d, unit) fs_prog" where
  "free_cluster dev cluster =
    bind (update_cluster dev cluster FAT_ENTRY_FREE) (\<lambda>_.
    update_fs_info dev (\<lambda>info. info\<lparr>fi_free_cluster_count := fi_free_cluster_count info + 1\<rparr>))"

text \<open>The scan: \<open>hint\<close> is fixed, the other arguments are the loop's variables.\<close>

partial_function (option) find_loop ::
  "'d block_device \<Rightarrow> nat option \<Rightarrow> nat \<Rightarrow> nat \<Rightarrow> nat option \<Rightarrow> u8 list
    \<Rightarrow> 'd Fat32Inner \<Rightarrow> ((FileSystemError, nat) res \<times> 'd Fat32Inner) option" where
  "find_loop dev hint current_cluster until cache_block_index cache_buffer s =
    (if current_cluster \<ge> until then
       (case hint of
          Some h \<Rightarrow> find_loop dev hint 2 h cache_block_index cache_buffer s
        | None \<Rightarrow>
            bind (update_fs_info dev (\<lambda>info. info\<lparr>fi_free_cluster_count := 0\<rparr>))
              (\<lambda>_. throw DiskFull) s)
     else
       bind (fat_position current_cluster) (\<lambda>(block_index, offset).
       bind (if cache_block_index \<noteq> Some block_index
             then io (read_block dev block_index cache_buffer) else ret cache_buffer) (\<lambda>cache_buffer.
       bind (read_fat_entry offset cache_buffer) (\<lambda>fat_entry s.
       if fat_entry \<noteq> FAT_ENTRY_FREE
       then find_loop dev hint ((current_cluster + 1) mod 2 ^ 32) until (Some block_index)
              cache_buffer s
       else
         bind (write_fat_entry offset FAT_ENTRY_EOC_START cache_buffer) (\<lambda>cache_buffer.
         bind (write_fats dev block_index cache_buffer) (\<lambda>_.
         bind (update_fs_info dev
                (\<lambda>info. info\<lparr>fi_free_cluster_count := fi_free_cluster_count info - 1\<rparr>)) (\<lambda>_.
         ret current_cluster))) s))) s)"

definition find_available_cluster :: "'d block_device \<Rightarrow> ('d, nat) fs_prog" where
  "find_available_cluster dev =
    bind (gets (\<lambda>s. s)) (\<lambda>s.
    if (case fs_info s of None \<Rightarrow> False | Some info \<Rightarrow> fi_free_cluster_count info = 0)
    then throw DiskFull
    else
      let hint = map_option (\<lambda>info. unat (fi_next_free_cluster info)) (fs_info s);
          current_cluster = (case hint of None \<Rightarrow> 2 | Some h \<Rightarrow> h);
          until = (max_cluster s + 2) mod 2 ^ 32
      in bind (new_buffer dev) (\<lambda>cache_buffer.
         find_loop dev hint current_cluster until None cache_buffer))"

text \<open>\<open>while cluster != FREE && cluster < RESERVED_START\<close>\<close>

definition in_chain :: "nat \<Rightarrow> bool" where
  "in_chain cluster \<longleftrightarrow> cluster \<noteq> FAT_ENTRY_FREE \<and> cluster < FAT_ENTRY_RESERVED_START"

partial_function (option) allocated_loop ::
  "'d block_device \<Rightarrow> nat \<Rightarrow> nat \<Rightarrow> 'd Fat32Inner
    \<Rightarrow> ((FileSystemError, nat) res \<times> 'd Fat32Inner) option" where
  "allocated_loop dev cluster cluster_count s =
    (if in_chain cluster
     then bind (get_next_cluster dev cluster)
            (\<lambda>next. allocated_loop dev next (cluster_count + 1)) s
     else ret cluster_count s)"

definition get_allocated_size :: "'d block_device \<Rightarrow> nat \<Rightarrow> ('d, nat) fs_prog" where
  "get_allocated_size dev cluster =
    bind (allocated_loop dev cluster 0) (\<lambda>cluster_count.
    bind (gets bpb) (\<lambda>b.
    ret (cluster_count * bytes_per_sector b * sectors_per_cluster b)))"

text \<open>The loop with which \<open>delete_file\<close> and \<open>delete_directory\<close> return the clusters of a chain.\<close>

partial_function (option) free_chain ::
  "'d block_device \<Rightarrow> nat \<Rightarrow> 'd Fat32Inner
    \<Rightarrow> ((FileSystemError, unit) res \<times> 'd Fat32Inner) option" where
  "free_chain dev cluster s =
    (if in_chain cluster
     then bind (get_next_cluster dev cluster) (\<lambda>next_cluster.
          bind (free_cluster dev cluster) (\<lambda>_. free_chain dev next_cluster)) s
     else ret () s)"

section \<open>The table and the clusters\<close>

definition cluster_per_sector :: "BPB \<Rightarrow> nat" where
  "cluster_per_sector b = bytes_per_sector b div 4"

definition fat_block :: "BPB \<Rightarrow> nat \<Rightarrow> nat" where
  "fat_block b c = reserved_sector_count b + c div cluster_per_sector b"

definition fat_get :: "BPB \<Rightarrow> u8 list list \<Rightarrow> nat \<Rightarrow> nat" where
  "fat_get b bl c = from_le (slice (4 * (c mod cluster_per_sector b)) 4 (bl ! fat_block b c))"

definition fat_patch :: "BPB \<Rightarrow> u8 list list \<Rightarrow> nat \<Rightarrow> nat \<Rightarrow> u8 list" where
  "fat_patch b bl c v = patch (4 * (c mod cluster_per_sector b)) (to_le 4 v) (bl ! fat_block b c)"

definition fat_set :: "BPB \<Rightarrow> nat \<Rightarrow> nat \<Rightarrow> u8 list list \<Rightarrow> u8 list list" where
  "fat_set b c v bl =
     bl[fat_block b c := fat_patch b bl c v, fat_block b c + fat_size_32 b := fat_patch b bl c v]"

definition cluster_sector :: "BPB \<Rightarrow> nat \<Rightarrow> nat" where
  "cluster_sector b c = reserved_sector_count b + fat_size_32 b * 2 + (c - 2) * sectors_per_cluster b"

definition cluster_get :: "BPB \<Rightarrow> u8 list list \<Rightarrow> nat \<Rightarrow> u8 list list" where
  "cluster_get b bl c = slice (cluster_sector b c) (sectors_per_cluster b) bl"

text \<open>The number of entries one FAT has room for.\<close>

definition fat_capacity :: "BPB \<Rightarrow> nat" where
  "fat_capacity b = fat_size_32 b * cluster_per_sector b"

text \<open>
  The geometry a file system must have for its FATs, clusters and sectors not to overlap: \<open>mc\<close> is
  the number of clusters, \<open>n\<close> the number of blocks of the device and \<open>bs\<close> their size.
\<close>

definition fat32_geometry :: "BPB \<Rightarrow> nat \<Rightarrow> nat \<Rightarrow> nat \<Rightarrow> bool" where
  "fat32_geometry b mc n bs \<longleftrightarrow>
     512 \<le> bytes_per_sector b \<and> bytes_per_sector b \<le> bs \<and> 0 < sectors_per_cluster b \<and>
     bpb_num_fats b = 2 \<and> mc + 2 \<le> fat_capacity b \<and> mc + 2 \<le> FAT_ENTRY_RESERVED_START \<and>
     reserved_sector_count b + fat_size_32 b * 2 + mc * sectors_per_cluster b \<le> n"

definition fs_wf ::
  "'d block_device \<Rightarrow> ('d \<Rightarrow> u8 list list) \<Rightarrow> ('d \<Rightarrow> bool) \<Rightarrow> 'd Fat32Inner \<Rightarrow> bool" where
  "fs_wf dev blocks dinv s \<longleftrightarrow>
     dinv (device s) \<and>
     fat32_geometry (bpb s) (max_cluster s) (length (blocks (device s)))
       (block_size dev (device s)) \<and>
     (\<forall>info. fs_info s = Some info \<longrightarrow>
        unat (bpb_fs_info (bpb s)) < reserved_sector_count (bpb s) \<and> fsinfo_arrays_ok info)"

text \<open>The effect of an operation on a file system whose only change on the device is its content.\<close>

definition stored ::
  "'d block_device \<Rightarrow> ('d \<Rightarrow> u8 list list) \<Rightarrow> ('d \<Rightarrow> bool) \<Rightarrow> 'd Fat32Inner \<Rightarrow> u8 list list
    \<Rightarrow> 'd Fat32Inner \<Rightarrow> bool" where
  "stored dev blocks dinv s bl s' \<longleftrightarrow>
    (\<exists>d. s' = s\<lparr>device := d\<rparr> \<and> dinv d \<and> block_size dev d = block_size dev (device s) \<and> blocks d = bl)"

text \<open>The sector the FSInfo structure is written to.\<close>

definition info_set :: "BPB \<Rightarrow> nat \<Rightarrow> FSInfo option \<Rightarrow> u8 list list \<Rightarrow> u8 list list" where
  "info_set b bs info bl =
    (case info of
       None \<Rightarrow> bl
     | Some i \<Rightarrow> bl[unat (bpb_fs_info b) := patch 0 (fsinfo_encode i) (replicate bs 0)])"

text \<open>The table of a state, and a cluster's blocks.\<close>

abbreviation fat_of :: "('d \<Rightarrow> u8 list list) \<Rightarrow> 'd Fat32Inner \<Rightarrow> nat \<Rightarrow> nat" where
  "fat_of blocks s \<equiv> fat_get (bpb s) (blocks (device s))"

abbreviation cluster_of :: "('d \<Rightarrow> u8 list list) \<Rightarrow> 'd Fat32Inner \<Rightarrow> nat \<Rightarrow> u8 list list" where
  "cluster_of blocks s \<equiv> cluster_get (bpb s) (blocks (device s))"

text \<open>A chain of links that ends: \<open>cs\<close> are the clusters that follow \<open>c\<close>, \<open>c\<close> included.\<close>

fun is_chain :: "(nat \<Rightarrow> nat) \<Rightarrow> nat \<Rightarrow> nat list \<Rightarrow> bool" where
  "is_chain f c [] \<longleftrightarrow> \<not> in_chain c"
| "is_chain f c (x # xs) \<longleftrightarrow> x = c \<and> in_chain c \<and> is_chain f (f c) xs"

text \<open>The FSInfo structure counts the free clusters of the table.\<close>

definition free_clusters :: "('d \<Rightarrow> u8 list list) \<Rightarrow> 'd Fat32Inner \<Rightarrow> nat set" where
  "free_clusters blocks s = {c. 2 \<le> c \<and> c < max_cluster s + 2 \<and> fat_of blocks s c = FAT_ENTRY_FREE}"

definition count_ok :: "('d \<Rightarrow> u8 list list) \<Rightarrow> 'd Fat32Inner \<Rightarrow> bool" where
  "count_ok blocks s \<longleftrightarrow>
    (\<forall>i. fs_info s = Some i \<longrightarrow>
       unat (fi_free_cluster_count i) = card (free_clusters blocks s) \<and> 2 \<le> fi_next_free_cluster i)"

text \<open>The clusters in the order in which the scan visits them, given the hint of the FSInfo structure.\<close>

definition scan_order :: "nat option \<Rightarrow> nat \<Rightarrow> nat list" where
  "scan_order hint mc =
    (case hint of None \<Rightarrow> [2..<mc + 2] | Some h \<Rightarrow> [h..<mc + 2] @ [2..<min h (mc + 2)])"

definition next_free_hint :: "'d Fat32Inner \<Rightarrow> nat option" where
  "next_free_hint s = map_option (\<lambda>i. unat (fi_next_free_cluster i)) (fs_info s)"

text \<open>The scan's cached block is the block its index names.\<close>

definition cache_ok ::
  "'d block_device \<Rightarrow> ('d \<Rightarrow> u8 list list) \<Rightarrow> 'd Fat32Inner \<Rightarrow> nat option \<Rightarrow> u8 list \<Rightarrow> bool" where
  "cache_ok dev blocks s ci buf \<longleftrightarrow> length buf = block_size dev (device s) \<and>
     (\<forall>i. ci = Some i \<longrightarrow> buf = blocks (device s) ! i)"

text \<open>
  A step of the table: the entries become \<open>tab\<close>, the FSInfo structure changes by \<open>g\<close>, and nothing
  else of the file system does.
\<close>

definition table_step ::
  "'d block_device \<Rightarrow> ('d \<Rightarrow> u8 list list) \<Rightarrow> ('d \<Rightarrow> bool) \<Rightarrow> (nat \<Rightarrow> nat) \<Rightarrow> (FSInfo \<Rightarrow> FSInfo)
    \<Rightarrow> 'd Fat32Inner \<Rightarrow> 'd Fat32Inner \<Rightarrow> bool" where
  "table_step dev blocks dinv tab g s s' \<longleftrightarrow>
     fs_wf dev blocks dinv s' \<and> bpb s' = bpb s \<and> max_cluster s' = max_cluster s \<and>
     occupied_file s' = occupied_file s \<and> fs_info s' = map_option g (fs_info s) \<and>
     block_size dev (device s') = block_size dev (device s) \<and>
     length (blocks (device s')) = length (blocks (device s)) \<and>
     (\<forall>c < fat_capacity (bpb s). fat_of blocks s' c = tab c) \<and>
     (\<forall>c. cluster_of blocks s' c = cluster_of blocks s c)"

text \<open>A step that gives the cluster \<open>c\<close> the content \<open>x\<close> and changes nothing else of the file system.\<close>

definition data_step ::
  "'d block_device \<Rightarrow> ('d \<Rightarrow> u8 list list) \<Rightarrow> ('d \<Rightarrow> bool) \<Rightarrow> nat \<Rightarrow> u8 list list
    \<Rightarrow> 'd Fat32Inner \<Rightarrow> 'd Fat32Inner \<Rightarrow> bool" where
  "data_step dev blocks dinv c x s s' \<longleftrightarrow>
     fs_wf dev blocks dinv s' \<and> bpb s' = bpb s \<and> max_cluster s' = max_cluster s \<and>
     occupied_file s' = occupied_file s \<and> fs_info s' = fs_info s \<and>
     block_size dev (device s') = block_size dev (device s) \<and>
     length (blocks (device s')) = length (blocks (device s)) \<and>
     (\<forall>k < fat_capacity (bpb s). fat_of blocks s' k = fat_of blocks s k) \<and>
     cluster_of blocks s' c = x \<and>
     (\<forall>k \<ge> 2. k \<noteq> c \<longrightarrow> cluster_of blocks s' k = cluster_of blocks s k)"

text \<open>The general step: the table becomes \<open>tab\<close> and the clusters' contents become \<open>clus\<close>.\<close>

definition fs_step ::
  "'d block_device \<Rightarrow> ('d \<Rightarrow> u8 list list) \<Rightarrow> ('d \<Rightarrow> bool) \<Rightarrow> (nat \<Rightarrow> nat) \<Rightarrow> (nat \<Rightarrow> u8 list list)
    \<Rightarrow> 'd Fat32Inner \<Rightarrow> 'd Fat32Inner \<Rightarrow> bool" where
  "fs_step dev blocks dinv tab clus s s' \<longleftrightarrow>
     fs_wf dev blocks dinv s' \<and> bpb s' = bpb s \<and> max_cluster s' = max_cluster s \<and>
     occupied_file s' = occupied_file s \<and>
     block_size dev (device s') = block_size dev (device s) \<and>
     length (blocks (device s')) = length (blocks (device s)) \<and>
     (\<forall>k < fat_capacity (bpb s). fat_of blocks s' k = tab k) \<and>
     (\<forall>k \<ge> 2. cluster_of blocks s' k = clus k)"

lemma table_stepD:
  assumes "table_step dev blocks dinv tab g s s'"
  shows "fs_wf dev blocks dinv s'" and "bpb s' = bpb s" and "max_cluster s' = max_cluster s"
    and "occupied_file s' = occupied_file s" and "fs_info s' = map_option g (fs_info s)"
    and "block_size dev (device s') = block_size dev (device s)"
    and "length (blocks (device s')) = length (blocks (device s))"
    and "c < fat_capacity (bpb s) \<Longrightarrow> fat_of blocks s' c = tab c"
    and "cluster_of blocks s' c = cluster_of blocks s c"
  using assms unfolding table_step_def by blast+

lemma data_stepD:
  assumes "data_step dev blocks dinv c x s s'"
  shows "fs_wf dev blocks dinv s'" and "bpb s' = bpb s" and "max_cluster s' = max_cluster s"
    and "occupied_file s' = occupied_file s" and "fs_info s' = fs_info s"
    and "block_size dev (device s') = block_size dev (device s)"
    and "length (blocks (device s')) = length (blocks (device s))"
    and "k < fat_capacity (bpb s) \<Longrightarrow> fat_of blocks s' k = fat_of blocks s k"
    and "cluster_of blocks s' c = x"
    and "2 \<le> k \<Longrightarrow> k \<noteq> c \<Longrightarrow> cluster_of blocks s' k = cluster_of blocks s k"
  using assms unfolding data_step_def by blast+

lemma fs_stepD:
  assumes "fs_step dev blocks dinv tab clus s s'"
  shows "fs_wf dev blocks dinv s'" and "bpb s' = bpb s" and "max_cluster s' = max_cluster s"
    and "occupied_file s' = occupied_file s"
    and "block_size dev (device s') = block_size dev (device s)"
    and "length (blocks (device s')) = length (blocks (device s))"
    and "k < fat_capacity (bpb s) \<Longrightarrow> fat_of blocks s' k = tab k"
    and "2 \<le> k \<Longrightarrow> cluster_of blocks s' k = clus k"
  using assms unfolding fs_step_def by blast+

subsection \<open>Geometry\<close>

lemma geometry_cps: "fat32_geometry b mc n bs \<Longrightarrow> 0 < cluster_per_sector b"
  by (simp add: fat32_geometry_def cluster_per_sector_def div_greater_zero_iff)

lemma fat_block_bounds:
  assumes "fat32_geometry b mc n bs" and "c < fat_capacity b"
  shows "reserved_sector_count b \<le> fat_block b c"
    and "fat_block b c < reserved_sector_count b + fat_size_32 b"
    and "fat_block b c + fat_size_32 b < n"
proof -
  have "c div cluster_per_sector b < fat_size_32 b"
    using assms(2) by (simp add: fat_capacity_def less_mult_imp_div_less)
  then show "reserved_sector_count b \<le> fat_block b c"
    and "fat_block b c < reserved_sector_count b + fat_size_32 b"
    and "fat_block b c + fat_size_32 b < n"
    using assms(1) by (simp_all add: fat_block_def fat32_geometry_def)
qed

lemma fat_offset_bound:
  assumes "fat32_geometry b mc n bs"
  shows "4 * (c mod cluster_per_sector b) + 4 \<le> bs"
proof -
  have "c mod cluster_per_sector b + 1 \<le> cluster_per_sector b"
    using geometry_cps [OF assms] by (simp add: Suc_le_eq)
  moreover have "4 * cluster_per_sector b \<le> bytes_per_sector b"
    by (simp add: cluster_per_sector_def)
  ultimately show ?thesis using assms by (simp add: fat32_geometry_def)
qed

lemma cluster_sector_bounds:
  assumes "fat32_geometry b mc n bs" and "2 \<le> c" and "c < mc + 2"
  shows "reserved_sector_count b + fat_size_32 b * 2 \<le> cluster_sector b c"
    and "cluster_sector b c + sectors_per_cluster b \<le> n"
proof -
  have "(c - 2) * sectors_per_cluster b + sectors_per_cluster b \<le> mc * sectors_per_cluster b"
    using assms(2,3) by (intro chunk_bound [of "c - 2" mc]) auto
  then show "cluster_sector b c + sectors_per_cluster b \<le> n"
    using assms(1) by (simp add: cluster_sector_def fat32_geometry_def)
qed (simp add: cluster_sector_def)

lemma cluster_sectors_disjoint:
  assumes "2 \<le> c" and "2 \<le> c'" and "c \<noteq> c'"
  shows "cluster_sector b c + sectors_per_cluster b \<le> cluster_sector b c'
       \<or> cluster_sector b c' + sectors_per_cluster b \<le> cluster_sector b c"
proof (cases "c < c'")
  case True
  then have "(c - 2) * sectors_per_cluster b + sectors_per_cluster b
      \<le> (c' - 2) * sectors_per_cluster b"
    using assms by (intro chunk_bound [of "c - 2" "c' - 2"]) auto
  then show ?thesis by (simp add: cluster_sector_def)
next
  case False
  then have "(c' - 2) * sectors_per_cluster b + sectors_per_cluster b
      \<le> (c - 2) * sectors_per_cluster b"
    using assms by (intro chunk_bound [of "c' - 2" "c - 2"]) auto
  then show ?thesis by (simp add: cluster_sector_def)
qed

subsection \<open>Entries\<close>

lemma length_fat_set [simp]: "length (fat_set b c v bl) = length bl"
  by (simp add: fat_set_def)

text \<open>Two entries that share a block lie at different offsets in it.\<close>

lemma fat_entries_apart:
  assumes "fat_block b c = fat_block b c'" and "c \<noteq> c'"
  shows "c mod cluster_per_sector b \<noteq> c' mod cluster_per_sector b"
  using assms unfolding fat_block_def by (metis add_left_cancel div_mult_mod_eq)

lemma fat_get_fat_set:
  assumes g: "fat32_geometry b mc (length bl) bs" and c: "c < fat_capacity b" "c' < fat_capacity b"
    and v: "v < 2 ^ 32" and bl: "\<And>i. i < length bl \<Longrightarrow> length (bl ! i) = bs"
  shows "fat_get b (fat_set b c v bl) c' = (if c' = c then v else fat_get b bl c')"
proof -
  note bc = fat_block_bounds [OF g c(1)] and bc' = fat_block_bounds [OF g c(2)]
  have second: "fat_block b c' \<noteq> fat_block b c + fat_size_32 b" using bc bc' by simp
  have len: "length (bl ! fat_block b c) = bs" using bc by (intro bl) simp
  show ?thesis
  proof (cases "fat_block b c' = fat_block b c")
    case False
    then show ?thesis using second by (auto simp: fat_get_def fat_set_def)
  next
    case same: True
    then have blk: "fat_set b c v bl ! fat_block b c' = fat_patch b bl c v"
      using second bc by (simp add: fat_set_def)
    show ?thesis
    proof (cases "c' = c")
      case True
      have "from_le (to_le 4 v) = v" using v by (intro from_le_to_le_id) simp
      then show ?thesis
        using True blk len fat_offset_bound [OF g, of c]
        by (simp add: fat_get_def fat_patch_def slice_patch_same)
    next
      case other: False
      then have "c' mod cluster_per_sector b \<noteq> c mod cluster_per_sector b"
        using fat_entries_apart same by blast
      then have "slice (4 * (c' mod cluster_per_sector b)) 4 (fat_patch b bl c v)
          = slice (4 * (c' mod cluster_per_sector b)) 4 (bl ! fat_block b c)"
        unfolding fat_patch_def
        using fat_offset_bound [OF g, of c] fat_offset_bound [OF g, of c'] len
        by (intro slice_patch_other) auto
      then show ?thesis using other blk same by (simp add: fat_get_def)
    qed
  qed
qed

lemma slice_update_other: "i < off \<or> off + n \<le> i \<Longrightarrow> slice off n (xs[i := x]) = slice off n xs"
  by (auto simp: list_update_slice)

lemma cluster_get_update:
  "i < reserved_sector_count b + fat_size_32 b * 2 \<Longrightarrow> 
   cluster_get b (bl[i := x]) c = cluster_get b bl c"
  unfolding cluster_get_def by (intro slice_update_other) (simp add: cluster_sector_def)

lemma fat_get_update: "i < reserved_sector_count b \<Longrightarrow> fat_get b (bl[i := x]) c = fat_get b bl c"
  by (simp add: fat_get_def fat_block_def)

lemma fat_get_update_data:
  assumes "fat32_geometry b mc n bs" and "c < fat_capacity b"
    and "reserved_sector_count b + fat_size_32 b * 2 \<le> i"
  shows "fat_get b (bl[i := x]) c = fat_get b bl c"
  using fat_block_bounds [OF assms(1,2)] assms(3) by (simp add: fat_get_def)

lemma cluster_get_fat_set:
  assumes "fat32_geometry b mc n bs" and "c < fat_capacity b"
  shows "cluster_get b (fat_set b c v bl) c' = cluster_get b bl c'"
  using fat_block_bounds [OF assms] by (simp add: fat_set_def cluster_get_update)

lemma fat_get_less: 
  assumes "fat32_geometry b mc (length bl) bs" and "c < fat_capacity b"
    and "\<And>i. i < length bl \<Longrightarrow> length (bl ! i) = bs"
  shows "fat_get b bl c < 2 ^ 32"
proof -
  have "length (bl ! fat_block b c) = bs" using fat_block_bounds [OF assms(1,2)] by (intro assms) simp
  then have "length (slice (4 * (c mod cluster_per_sector b)) 4 (bl ! fat_block b c)) = 4"
    using fat_offset_bound [OF assms(1), of c] by simp
  then show ?thesis
    unfolding fat_get_def
    using from_le_less [of "slice (4 * (c mod cluster_per_sector b)) 4 (bl ! fat_block b c)"] by simp
qed

section \<open>Chains\<close>

lemma is_chain_unique: "is_chain f c xs \<Longrightarrow> is_chain f c ys \<Longrightarrow> xs = ys"
proof (induction xs arbitrary: c ys)
  case Nil
  then show ?case by (cases ys) auto
next
  case (Cons x xs)
  then show ?case by (cases ys) auto
qed

lemma is_chain_suffix: "is_chain f c (xs @ y # ys) \<Longrightarrow> is_chain f y (y # ys)"
  by (induction xs arbitrary: c) auto

lemma is_chain_distinct: "is_chain f c xs \<Longrightarrow> distinct xs"
proof (induction xs arbitrary: c)
  case (Cons x xs)
  have "x \<notin> set xs"
  proof
    assume "x \<in> set xs"
    then obtain ys zs where split: "xs = ys @ x # zs" by (auto simp: in_set_conv_decomp)
    then have "is_chain f c ((x # ys) @ x # zs)" using Cons.prems by auto
    then have "is_chain f x (x # zs)" by (rule is_chain_suffix)
    moreover have "is_chain f x (x # xs)" using Cons.prems by simp
    ultimately have "zs = xs" using is_chain_unique by blast
    moreover have "length xs = length ys + Suc (length zs)" using split by simp
    ultimately show False by simp
  qed
  then show ?case using Cons by auto
qed simp

lemma is_chain_cong: "(\<And>x. x \<in> set xs \<Longrightarrow> f x = g x) \<Longrightarrow> is_chain f c xs \<longleftrightarrow> is_chain g c xs"
proof (induction xs arbitrary: c)
  case (Cons x xs)
  have "is_chain f (g x) xs \<longleftrightarrow> is_chain g (g x) xs" using Cons by simp
  then show ?case using Cons.prems by auto
qed simp

lemma is_chain_hd: "is_chain f c xs \<Longrightarrow> in_chain c \<Longrightarrow> xs \<noteq> [] \<and> hd xs = c"
  by (cases xs) auto

section \<open>Operations on the table\<close>

lemma stored_fields:
  assumes "stored dev blocks dinv s bl s'"
  shows "bpb s' = bpb s" and "fs_info s' = fs_info s" and "max_cluster s' = max_cluster s"
    and "occupied_file s' = occupied_file s" and "blocks (device s') = bl" and "dinv (device s')"
    and "block_size dev (device s') = block_size dev (device s)"
  using assms by (auto simp: stored_def)

lemma stored_trans:
  "stored dev blocks dinv s bl s' \<Longrightarrow> stored dev blocks dinv s' bl' s'' \<Longrightarrow>
   stored dev blocks dinv s bl' s''"
  by (auto simp: stored_def)

context reliable_device
begin

abbreviation wf :: "'d Fat32Inner \<Rightarrow> bool" where
  "wf \<equiv> fs_wf dev blocks dinv"

abbreviation stores :: "'d Fat32Inner \<Rightarrow> u8 list list \<Rightarrow> 'd Fat32Inner \<Rightarrow> bool" where
  "stores \<equiv> stored dev blocks dinv"

lemma wf_geometry:
  "wf s \<Longrightarrow> fat32_geometry (bpb s) (max_cluster s) (length (blocks (device s))) (block_size dev (device s))"
  by (simp add: fs_wf_def)

lemma wf_block: "wf s \<Longrightarrow> i < length (blocks (device s)) \<Longrightarrow>
    length (blocks (device s) ! i) = block_size dev (device s)"
  by (simp add: fs_wf_def length_block)

lemma wf_stored:
  assumes "stores s bl s'" and "wf s" and "length bl = length (blocks (device s))"
  shows "wf s'"
  using assms stored_fields [OF assms(1)] by (simp add: fs_wf_def stored_def)

lemma io_read:
  assumes "wf s" and "i < length (blocks (device s))" and "length buf = block_size dev (device s)"
  shows "io (read_block dev i buf) s = Some (Ok (blocks (device s) ! i), s)"
  using assms read_block_ok [of "device s" i buf] by (simp add: io_def zoom_def fs_wf_def)

lemma io_write:
  assumes "wf s" and "i < length (blocks (device s))" and "length buf = block_size dev (device s)"
  shows "returns (io (write_block dev i buf) s) (\<lambda>_. stores s ((blocks (device s))[i := buf]))"
  using assms write_block_ok [of "device s" i buf]
  by (auto simp: io_def fs_wf_def stored_def intro!: returns_zoom elim!: returns_mono)

lemma io_read_blocks:
  assumes "wf s" and "i + n \<le> length (blocks (device s))" and "length buf = n * block_size dev (device s)"
  shows "io (read_blocks dev i n buf) s = Some (Ok (concat (slice i n (blocks (device s)))), s)"
  using assms read_blocks_ok [of "device s" i n buf] by (simp add: io_def zoom_def fs_wf_def)

lemma io_write_blocks:
  assumes "wf s" and "i + n \<le> length (blocks (device s))" and "length buf = n * block_size dev (device s)"
  shows "returns (io (write_blocks dev i n buf) s)
    (\<lambda>_. stores s (patch i (chunks (block_size dev (device s)) n buf) (blocks (device s))))"
  using assms write_blocks_ok [of "device s" i n buf]
  by (auto simp: io_def fs_wf_def stored_def intro!: returns_zoom elim!: returns_mono)

lemma io_write_zeros:
  assumes "wf s" and "i + n \<le> length (blocks (device s))"
  shows "returns (io (write_zeros dev i n) s)
    (\<lambda>_. stores s (patch i (replicate n (replicate (block_size dev (device s)) 0)) (blocks (device s))))"
  using assms write_zeros_ok [of "device s" i n]
  by (auto simp: io_def fs_wf_def stored_def intro!: returns_zoom elim!: returns_mono)

lemma get_sector_by_cluster_run:
  assumes "wf s" and "2 \<le> c" and "c < max_cluster s + 2"
  shows "get_sector_by_cluster c s = Some (Ok (cluster_sector (bpb s) c), s)"
  using assms wf_geometry [OF assms(1)]
  by (simp add: get_sector_by_cluster_def cluster_sector_def fat32_geometry_def fat_entry_defs)

lemma cluster_range:
  assumes "wf s" and "2 \<le> c" and "c < max_cluster s + 2"
  shows "cluster_sector (bpb s) c + sectors_per_cluster (bpb s) \<le> length (blocks (device s))"
  using cluster_sector_bounds [OF wf_geometry [OF assms(1)] assms(2,3)] by simp

lemma data_cluster_capacity: "wf s \<Longrightarrow> c < max_cluster s + 2 \<Longrightarrow> c < fat_capacity (bpb s)"
  using wf_geometry [of s] by (simp add: fat32_geometry_def)

lemma fat_position_run:
  "wf s \<Longrightarrow> fat_position c s = Some (Ok (fat_block (bpb s) c, c mod cluster_per_sector (bpb s)), s)"
  using geometry_cps [OF wf_geometry, of s]
  by (simp add: fat_position_def fat_block_def Let_def flip: cluster_per_sector_def)

lemma read_fat_entry_run:
  assumes "wf s" and "c < fat_capacity (bpb s)"
  shows "read_fat_entry (c mod cluster_per_sector (bpb s)) (blocks (device s) ! fat_block (bpb s) c) s'
    = Some (Ok (fat_of blocks s c), s')"
  using fat_offset_bound [OF wf_geometry [OF assms(1)], of c] wf_block [OF assms(1)]
    fat_block_bounds [OF wf_geometry [OF assms(1)] assms(2)]
  by (simp add: read_fat_entry_def fat_get_def)

lemma write_fat_entry_run:
  assumes "wf s" and "c < fat_capacity (bpb s)"
  shows "write_fat_entry (c mod cluster_per_sector (bpb s)) v (blocks (device s) ! fat_block (bpb s) c) s'
    = Some (Ok (fat_patch (bpb s) (blocks (device s)) c v), s')"
  using fat_offset_bound [OF wf_geometry [OF assms(1)], of c] wf_block [OF assms(1)]
    fat_block_bounds [OF wf_geometry [OF assms(1)] assms(2)]
  by (simp add: write_fat_entry_def fat_patch_def)

lemma get_next_cluster_run:
  assumes "wf s" and "c < fat_capacity (bpb s)"
  shows "get_next_cluster dev c s = Some (Ok (fat_of blocks s c), s)"
  using assms fat_block_bounds [OF wf_geometry [OF assms(1)] assms(2)]
  by (simp add: get_next_cluster_def fat_position_run new_buffer_def io_read read_fat_entry_run)

lemma length_fat_patch:
  assumes "wf s" and "c < fat_capacity (bpb s)"
  shows "length (fat_patch (bpb s) (blocks (device s)) c v) = block_size dev (device s)"
  using fat_offset_bound [OF wf_geometry [OF assms(1)], of c] wf_block [OF assms(1)]
    fat_block_bounds [OF wf_geometry [OF assms(1)] assms(2)]
  by (simp add: fat_patch_def)

lemma write_fats_run:
  assumes "wf s" and "c < fat_capacity (bpb s)"
  shows "returns (write_fats dev (fat_block (bpb s) c) (fat_patch (bpb s) (blocks (device s)) c v) s)
    (\<lambda>_. stores s (fat_set (bpb s) c v (blocks (device s))))"
proof -
  let ?b = "fat_block (bpb s) c" and ?p = "fat_patch (bpb s) (blocks (device s)) c v"
  note bounds = fat_block_bounds [OF wf_geometry [OF assms(1)] assms(2)]
  have two: "unat (bpb_num_fats (bpb s)) = Suc (Suc 0)"
    using wf_geometry [OF assms(1)] by (simp add: fat32_geometry_def)
  have "returns (io (write_block dev ?b ?p) s) (\<lambda>_. stores s ((blocks (device s))[?b := ?p]))"
    using assms bounds by (intro io_write length_fat_patch) auto
  then obtain s1 where s1: "io (write_block dev ?b ?p) s = Some (Ok (), s1)"
    and st1: "stores s ((blocks (device s))[?b := ?p]) s1"
    by (auto elim: returnsE)
  have "returns (io (write_block dev (?b + fat_size_32 (bpb s)) ?p) s1)
      (\<lambda>_. stores s1 ((blocks (device s1))[?b + fat_size_32 (bpb s) := ?p]))"
    using assms bounds st1 wf_stored [OF st1]
    by (intro io_write) (auto simp: stored_def length_fat_patch)
  then have "returns (io (write_block dev (?b + fat_size_32 (bpb s)) ?p) s1)
      (\<lambda>_. stores s (fat_set (bpb s) c v (blocks (device s))))"
    using stored_trans [OF st1] stored_fields(5) [OF st1]
    by (auto simp: fat_set_def elim!: returns_mono)
  then show ?thesis
    using s1 by (auto simp: write_fats_def two intro!: returns_bind elim!: returns_mono)
qed

lemma update_cluster_run:
  assumes "wf s" and "c < fat_capacity (bpb s)"
  shows "returns (update_cluster dev c v s)
    (\<lambda>_. stores s (fat_set (bpb s) c v (blocks (device s))))"
  using assms fat_block_bounds [OF wf_geometry [OF assms(1)] assms(2)] write_fats_run [OF assms]
  by (simp add: update_cluster_def fat_position_run new_buffer_def io_read write_fat_entry_run)

lemma update_fs_info_run:
  assumes "wf s" and "\<And>i. fsinfo_arrays_ok i \<Longrightarrow> fsinfo_arrays_ok (g i)"
  shows "returns (update_fs_info dev g s)
    (\<lambda>_. stores (s\<lparr>fs_info := map_option g (fs_info s)\<rparr>)
       (info_set (bpb s) (block_size dev (device s)) (map_option g (fs_info s)) (blocks (device s))))"
proof (cases "fs_info s")
  case None
  then have "s = s\<lparr>device := device s, fs_info := None\<rparr>" by simp
  then show ?thesis
    using None assms(1)
    by (auto simp: update_fs_info_def info_set_def stored_def fs_wf_def intro!: exI [of _ "device s"])
next
  case (Some i)
  let ?s = "s\<lparr>fs_info := Some (g i)\<rparr>" and ?bs = "block_size dev (device s)"
  have i: "fsinfo_arrays_ok (g i)" "unat (bpb_fs_info (bpb s)) < reserved_sector_count (bpb s)"
    using assms Some by (auto simp: fs_wf_def)
  have bs: "512 \<le> ?bs" using wf_geometry [OF assms(1)] by (simp add: fat32_geometry_def)
  have wf: "wf ?s" using assms Some by (auto simp: fs_wf_def)
  have "returns (io (write_block dev (unat (bpb_fs_info (bpb s)))
        (patch 0 (fsinfo_encode (g i)) (replicate ?bs 0))) ?s)
      (\<lambda>_. stores ?s ((blocks (device ?s))[unat (bpb_fs_info (bpb s)) :=
         patch 0 (fsinfo_encode (g i)) (replicate ?bs 0)]))"
    using i bs wf_geometry [OF assms(1)]
    by (intro io_write [OF wf]) (simp_all add: fsinfo_encode_length fat32_geometry_def)
  then show ?thesis
    using Some bs by (simp add: update_fs_info_def write_fs_info_def new_buffer_def info_set_def)
qed

lemma stored_update:
  assumes "wf s" and "c < fat_capacity (bpb s)" and "v < 2 ^ 32"
    and "stores s (fat_set (bpb s) c v (blocks (device s))) s'"
  shows "table_step dev blocks dinv ((fat_of blocks s)(c := v)) (\<lambda>i. i) s s'"
  using assms wf_stored [OF assms(4,1)] fat_get_fat_set [OF wf_geometry [OF assms(1)] assms(2) _ assms(3)]
    wf_block [OF assms(1)] cluster_get_fat_set [OF wf_geometry [OF assms(1)] assms(2)]
  by (auto simp: table_step_def stored_fields [OF assms(4)] option.map_ident)

lemma stored_info:
  assumes "wf s" and "\<And>i. fsinfo_arrays_ok i \<Longrightarrow> fsinfo_arrays_ok (g i)"
    and "stores (s\<lparr>fs_info := map_option g (fs_info s)\<rparr>)
       (info_set (bpb s) (block_size dev (device s)) (map_option g (fs_info s)) (blocks (device s))) s'"
  shows "table_step dev blocks dinv (fat_of blocks s) g s s'"
proof -
  have wf: "wf (s\<lparr>fs_info := map_option g (fs_info s)\<rparr>)"
    using assms(1,2) by (auto simp: fs_wf_def)
  have "wf s'"
    by (rule wf_stored [OF assms(3) wf]) (simp add: info_set_def split: option.split)
  moreover have "unat (bpb_fs_info (bpb s)) < reserved_sector_count (bpb s)" if "fs_info s \<noteq> None"
    using assms(1) that by (auto simp: fs_wf_def)
  ultimately show ?thesis
    using stored_fields [OF assms(3)]
    by (auto simp: table_step_def info_set_def fat_get_update cluster_get_update split: option.splits)
qed

lemma table_step_trans:
  assumes "table_step dev blocks dinv tab g s s'" and "table_step dev blocks dinv tab' g' s' s''"
  shows "table_step dev blocks dinv tab' (g' \<circ> g) s s''"
  using assms by (auto simp: table_step_def option.map_comp)

lemma update_cluster_step:
  assumes "wf s" and "c < fat_capacity (bpb s)" and "v < 2 ^ 32"
  shows "returns (update_cluster dev c v s)
    (\<lambda>_. table_step dev blocks dinv ((fat_of blocks s)(c := v)) (\<lambda>i. i) s)"
  using update_cluster_run [OF assms(1,2)] by (rule returns_mono) (rule stored_update [OF assms])

lemma table_step_cong:
  assumes "table_step dev blocks dinv tab g s s'"
    and "\<And>c. c < fat_capacity (bpb s) \<Longrightarrow> tab c = tab' c"
  shows "table_step dev blocks dinv tab' g s s'"
  using assms by (auto simp: table_step_def)

lemma table_step_info:
  assumes "table_step dev blocks dinv tab g s s'" and "\<And>i. g i = g' i"
  shows "table_step dev blocks dinv tab g' s s'"
  using assms by (metis ext)

lemma update_info_step:
  assumes "wf s" and "\<And>i. fsinfo_arrays_ok i \<Longrightarrow> fsinfo_arrays_ok (g i)"
  shows "returns (update_fs_info dev g s) (\<lambda>_. table_step dev blocks dinv (fat_of blocks s) g s)"
  using update_fs_info_run [of s g] assms stored_info [of s g] by (auto elim!: returns_mono)

text \<open>A change of one entry followed by a change of the FSInfo structure.\<close>

lemma entry_info_step:
  assumes "returns (m s) (\<lambda>_. table_step dev blocks dinv tab (\<lambda>i. i) s)"
    and "\<And>i. fsinfo_arrays_ok i \<Longrightarrow> fsinfo_arrays_ok (g i)"
  shows "returns (bind m (\<lambda>_. update_fs_info dev g) s) (\<lambda>_. table_step dev blocks dinv tab g s)"
proof (rule returns_bind, rule returns_mono [OF assms(1)])
  fix x s1
  assume st: "table_step dev blocks dinv tab (\<lambda>i. i) s s1"
  then have "wf s1" by (simp add: table_step_def)
  then have "returns (update_fs_info dev g s1) (\<lambda>_. table_step dev blocks dinv (fat_of blocks s1) g s1)"
    using assms(2) by (rule update_info_step)
  then show "returns (update_fs_info dev g s1) (\<lambda>_. table_step dev blocks dinv tab g s)"
  proof (rule returns_mono)
    fix s2
    assume "table_step dev blocks dinv (fat_of blocks s1) g s1 s2"
    from table_step_trans [OF st this] show "table_step dev blocks dinv tab g s s2"
      using st by (auto simp: comp_def table_step_def)
  qed
qed

lemma free_cluster_step:
  assumes "wf s" and "c < fat_capacity (bpb s)"
  shows "returns (free_cluster dev c s)
    (\<lambda>_. table_step dev blocks dinv ((fat_of blocks s)(c := FAT_ENTRY_FREE))
       (\<lambda>i. i\<lparr>fi_free_cluster_count := fi_free_cluster_count i + 1\<rparr>) s)"
  unfolding free_cluster_def
  by (intro entry_info_step update_cluster_step assms)
     (simp_all add: fat_entry_defs fsinfo_arrays_ok_def)

lemma cache_ok_block:
  "wf s \<Longrightarrow> c < fat_capacity (bpb s) \<Longrightarrow>
   cache_ok dev blocks s (Some (fat_block (bpb s) c)) (blocks (device s) ! fat_block (bpb s) c)"
  using fat_block_bounds [OF wf_geometry, of s c] by (simp add: cache_ok_def wf_block)

lemma find_loop_take:
  assumes "wf s" and "c < fat_capacity (bpb s)" and "fat_of blocks s c = FAT_ENTRY_FREE"
    and "c < until" and "cache_ok dev blocks s ci buf"
  shows "returns (find_loop dev hint c until ci buf s)
    (\<lambda>r s'. r = c \<and> table_step dev blocks dinv ((fat_of blocks s)(c := FAT_ENTRY_EOC_START))
       (\<lambda>i. i\<lparr>fi_free_cluster_count := fi_free_cluster_count i - 1\<rparr>) s s')"
proof -
  let ?g = "\<lambda>i. i\<lparr>fi_free_cluster_count := fi_free_cluster_count i - 1\<rparr>"
  let ?b = "fat_block (bpb s) c" and ?o = "c mod cluster_per_sector (bpb s)"
  let ?p = "fat_patch (bpb s) (blocks (device s)) c FAT_ENTRY_EOC_START"
  have cache: "(if ci \<noteq> Some ?b then io (read_block dev ?b buf) else ret buf) s
      = Some (Ok (blocks (device s) ! ?b), s)"
    using assms fat_block_bounds [OF wf_geometry [OF assms(1)] assms(2)]
    by (auto simp: io_read cache_ok_def)
  have "returns (write_fats dev ?b ?p s)
      (\<lambda>_. table_step dev blocks dinv ((fat_of blocks s)(c := FAT_ENTRY_EOC_START)) (\<lambda>i. i) s)"
    by (rule returns_mono [OF write_fats_run [OF assms(1,2)]], rule stored_update [OF assms(1,2)])
       (simp_all add: fat_entry_defs)
  then have "returns (bind (write_fats dev ?b ?p) (\<lambda>_. update_fs_info dev ?g) s)
      (\<lambda>_. table_step dev blocks dinv ((fat_of blocks s)(c := FAT_ENTRY_EOC_START)) ?g s)"
    by (rule entry_info_step) (simp add: fsinfo_arrays_ok_def)
  then have "returns (bind (write_fats dev ?b ?p) (\<lambda>_. bind (update_fs_info dev ?g) (\<lambda>_. ret c)) s)
      (\<lambda>r s'. r = c \<and> table_step dev blocks dinv ((fat_of blocks s)(c := FAT_ENTRY_EOC_START)) ?g s s')"
    by (simp add: returns_bind_iff)
  then show ?thesis
    using assms cache
    by (subst find_loop.simps) (simp add: fat_position_run read_fat_entry_run write_fat_entry_run)
qed

lemma find_loop_skip:
  assumes "wf s" and "c < fat_capacity (bpb s)" and "fat_of blocks s c \<noteq> FAT_ENTRY_FREE"
    and "c < until" and "until \<le> 2 ^ 32" and "c + 1 < 2 ^ 32"
    and "cache_ok dev blocks s ci buf"
  shows "find_loop dev hint c until ci buf s
    = find_loop dev hint (c + 1) until (Some (fat_block (bpb s) c))
        (blocks (device s) ! fat_block (bpb s) c) s"
proof -
  let ?b = "fat_block (bpb s) c"
  have cache: "(if ci \<noteq> Some ?b then io (read_block dev ?b buf) else ret buf) s
      = Some (Ok (blocks (device s) ! ?b), s)"
    using assms fat_block_bounds [OF wf_geometry [OF assms(1)] assms(2)]
    by (auto simp: io_read cache_ok_def)
  show ?thesis
    using assms cache
    by (subst find_loop.simps) (simp add: fat_position_run read_fat_entry_run)
qed

lemma find_loop_scan:
  assumes "wf s" and "a \<le> c" and "c < until" and "until \<le> 2 ^ 32" and "c < fat_capacity (bpb s)"
    and "\<And>k. a \<le> k \<Longrightarrow> k < c \<Longrightarrow> fat_of blocks s k \<noteq> FAT_ENTRY_FREE"
    and "fat_of blocks s c = FAT_ENTRY_FREE"
    and "cache_ok dev blocks s ci buf"
  shows "returns (find_loop dev hint a until ci buf s)
    (\<lambda>r s'. r = c \<and> table_step dev blocks dinv ((fat_of blocks s)(c := FAT_ENTRY_EOC_START))
       (\<lambda>i. i\<lparr>fi_free_cluster_count := fi_free_cluster_count i - 1\<rparr>) s s')"
  using assms
proof (induction "c - a" arbitrary: a ci buf)
  case 0
  then have "a = c" by simp
  with 0 show ?case using find_loop_take by blast
next
  case (Suc n)
  then have a: "a < c" "n = c - (a + 1)" by simp_all
  have "cache_ok dev blocks s (Some (fat_block (bpb s) a)) (blocks (device s) ! fat_block (bpb s) a)"
    using Suc.prems a by (intro cache_ok_block) auto
  then show ?case
    using Suc.hyps(1) [OF a(2)] Suc.prems a by (subst find_loop_skip) auto
qed

lemma find_loop_pass:
  assumes "wf s" and "a \<le> until" and "until \<le> fat_capacity (bpb s)" and "until < 2 ^ 32"
    and "\<And>k. a \<le> k \<Longrightarrow> k < until \<Longrightarrow> fat_of blocks s k \<noteq> FAT_ENTRY_FREE"
    and "cache_ok dev blocks s ci buf"
  shows "\<exists>ci' buf'. cache_ok dev blocks s ci' buf' \<and>
    find_loop dev hint a until ci buf s = find_loop dev hint until until ci' buf' s"
  using assms
proof (induction "until - a" arbitrary: a ci buf)
  case 0
  then have "a = until" by simp
  with 0 show ?case by blast
next
  case (Suc n)
  then have a: "a < until" "n = until - (a + 1)" "a < fat_capacity (bpb s)" by simp_all
  have "find_loop dev hint a until ci buf s
    = find_loop dev hint (a + 1) until (Some (fat_block (bpb s) a))
        (blocks (device s) ! fat_block (bpb s) a) s"
    using Suc.prems a by (intro find_loop_skip) auto
  moreover have "cache_ok dev blocks s (Some (fat_block (bpb s) a)) (blocks (device s) ! fat_block (bpb s) a)"
    using Suc.prems(1) a(3) by (rule cache_ok_block)
  ultimately show ?case using Suc.hyps(1) [OF a(2)] Suc.prems a by auto
qed

lemma find_loop_wrap:
  "until \<le> a \<Longrightarrow> find_loop dev (Some h) a until ci buf s = find_loop dev (Some h) 2 h ci buf s"
  by (subst find_loop.simps) simp

lemma find_append: "find P (xs @ ys) = (case find P xs of None \<Rightarrow> find P ys | Some x \<Rightarrow> Some x)"
  by (induction xs) auto

lemma find_upt_SomeD:
  assumes "find P [a..<n] = Some c"
  shows "a \<le> c" and "c < n" and "P c" and "\<And>k. a \<le> k \<Longrightarrow> k < c \<Longrightarrow> \<not> P k"
proof -
  obtain i where i: "i < n - a" "P ([a..<n] ! i)" "c = [a..<n] ! i"
    "\<forall>j < i. \<not> P ([a..<n] ! j)"
    using assms by (auto simp: find_Some_iff)
  show "a \<le> c" "c < n" "P c" using i by auto
  show "\<not> P k" if "a \<le> k" "k < c" for k
    using i(4) [rule_format, of "k - a"] that i(1,3) by auto
qed

lemma find_upt_NoneD: "find P [a..<n] = None \<Longrightarrow> a \<le> k \<Longrightarrow> k < n \<Longrightarrow> \<not> P k"
  by (auto simp: find_None_iff)

lemma find_available_cluster_step:
  assumes "wf s" and "\<And>i. fs_info s = Some i \<Longrightarrow> fi_free_cluster_count i \<noteq> 0"
    and "find (\<lambda>c. fat_of blocks s c = FAT_ENTRY_FREE) (scan_order (next_free_hint s) (max_cluster s)) = Some c"
  shows "returns (find_available_cluster dev s)
    (\<lambda>r s'. r = c \<and> table_step dev blocks dinv ((fat_of blocks s)(c := FAT_ENTRY_EOC_START))
       (\<lambda>i. i\<lparr>fi_free_cluster_count := fi_free_cluster_count i - 1\<rparr>) s s')"
    (is "returns _ ?Q")
proof -
  let ?n = "max_cluster s + 2" and ?free = "\<lambda>c. fat_of blocks s c = FAT_ENTRY_FREE"
  let ?buf = "replicate (block_size dev (device s)) 0"
  have n: "?n \<le> fat_capacity (bpb s)" "?n < 2 ^ 32" "?n mod 2 ^ 32 = ?n"
    using wf_geometry [OF assms(1)] by (simp_all add: fat32_geometry_def fat_entry_defs)
  have buf: "cache_ok dev blocks s None ?buf" by (simp add: cache_ok_def)
  have run: "find_available_cluster dev s =
      find_loop dev (next_free_hint s) (case next_free_hint s of None \<Rightarrow> 2 | Some h \<Rightarrow> h) ?n None ?buf s"
    using assms(2) n(3)
    by (auto simp: find_available_cluster_def new_buffer_def next_free_hint_def Let_def split: option.splits)
  show ?thesis
  proof (cases "next_free_hint s")
    case None
    then have "find ?free [2..<?n] = Some c" using assms(3) by (simp add: scan_order_def)
    from find_upt_SomeD [OF this] show ?thesis
      unfolding run using None n buf assms(1) by (auto intro!: find_loop_scan)
  next
    case (Some h)
    show ?thesis
    proof (cases "find ?free [h..<?n]")
      case (Some c')
      then have "c' = c" using assms(3) \<open>next_free_hint s = Some h\<close> by (simp add: scan_order_def find_append)
      with find_upt_SomeD [OF Some] show ?thesis
        unfolding run using \<open>next_free_hint s = Some h\<close> n buf assms(1) by (auto intro!: find_loop_scan)
    next
      case none: None
      then have "find ?free [2..<min h ?n] = Some c"
        using assms(3) Some by (simp add: scan_order_def find_append)
      note c = find_upt_SomeD [OF this]
      have h: "h < 2 ^ 32" using Some by (auto simp: next_free_hint_def)
      obtain ci b where "cache_ok dev blocks s ci b"
        and "find_loop dev (Some h) h ?n None ?buf s = find_loop dev (Some h) 2 h ci b s"
      proof (cases "?n \<le> h")
        case True
        then show ?thesis using that [OF buf] find_loop_wrap by blast
      next
        case False
        moreover have "\<not> ?free k" if "h \<le> k" "k < ?n" for k
          using find_upt_NoneD [OF none] that by simp
        ultimately obtain ci b where "cache_ok dev blocks s ci b"
          and "find_loop dev (Some h) h ?n None ?buf s = find_loop dev (Some h) ?n ?n ci b s"
          using find_loop_pass [OF assms(1), of h ?n None ?buf "Some h"] n(1,2) buf by auto
        then show ?thesis using that find_loop_wrap [of ?n ?n] by simp
      qed
      then show ?thesis
        unfolding run using Some c n h assms(1) by (auto intro!: find_loop_scan)
    qed
  qed
qed

lemma find_loop_full:
  assumes "find_loop dev' hint a until ci buf t = Some y"
    and "wf s" and "2 \<le> h" and "h \<le> max_cluster s + 2"
    and full: "\<And>k. 2 \<le> k \<Longrightarrow> k < max_cluster s + 2 \<Longrightarrow> fat_of blocks s k \<noteq> FAT_ENTRY_FREE"
  shows "\<not> (dev' = dev \<and> hint = Some h \<and> t = s \<and> 2 \<le> a \<and> until \<le> max_cluster s + 2 \<and>
      cache_ok dev blocks s ci buf)"
  using assms(1)
proof (induction rule: find_loop.raw_induct [rotated, consumes 1, case_names step])
  case (step loop dev' hint a until ci buf t y)
  let ?n = "max_cluster s + 2" and ?b = "fat_block (bpb s) a"
  have n: "?n \<le> fat_capacity (bpb s)" "?n < 2 ^ 32"
    using wf_geometry [OF assms(2)] by (simp_all add: fat32_geometry_def fat_entry_defs)
  show ?case
  proof (intro notI, elim conjE)
    assume args: "dev' = dev" "hint = Some h" "t = s" "2 \<le> a" "until \<le> ?n" "cache_ok dev blocks s ci buf"
    show False
    proof (cases "until \<le> a")
      case True
      then have "loop dev (Some h) 2 h ci buf s = Some y" using step(2) args by simp
      from step(1) [OF this] show False using args assms(3,4) by simp
    next
      case False
      then have a: "a < fat_capacity (bpb s)" "a < ?n" using n args by simp_all
      have "(if ci \<noteq> Some ?b then io (read_block dev ?b buf) else ret buf) s
          = Some (Ok (blocks (device s) ! ?b), s)"
        using args(6) fat_block_bounds [OF wf_geometry [OF assms(2)] a(1)] assms(2)
        by (auto simp: io_read cache_ok_def)
      then have "loop dev (Some h) (a + 1) until (Some ?b) (blocks (device s) ! ?b) s = Some y"
        using step(2) [unfolded args(1-3)] False args(4) a full [of a] assms(2) n
        by (simp add: fat_position_run read_fat_entry_run)
      from step(1) [OF this] show False
        using args False a cache_ok_block [OF assms(2) a(1)] by simp
    qed
  qed
qed

lemma find_available_cluster_diverges:
  assumes "wf s" and "fs_info s = Some i" and "fi_free_cluster_count i \<noteq> 0"
    and "2 \<le> fi_next_free_cluster i" and "unat (fi_next_free_cluster i) \<le> max_cluster s + 2"
    and "\<And>k. 2 \<le> k \<Longrightarrow> k < max_cluster s + 2 \<Longrightarrow> fat_of blocks s k \<noteq> FAT_ENTRY_FREE"
  shows "find_available_cluster dev s = None"
proof (rule ccontr)
  let ?h = "unat (fi_next_free_cluster i)" and ?buf = "replicate (block_size dev (device s)) 0"
  assume "find_available_cluster dev s \<noteq> None"
  moreover have "max_cluster s + 2 < 2 ^ 32"
    using wf_geometry [OF assms(1)] by (simp_all add: fat32_geometry_def fat_entry_defs)
  ultimately obtain y where y: "find_loop dev (Some ?h) ?h (max_cluster s + 2) None ?buf s = Some y"
    using assms(2,3) by (auto simp: find_available_cluster_def new_buffer_def Let_def)
  have h: "2 \<le> ?h" using assms(4) by (simp add: word_le_nat_alt)
  show False
    using find_loop_full [OF y assms(1) h assms(5,6)] h by (simp add: cache_ok_def)
qed

lemma allocated_loop_run:
  assumes "wf s" and "is_chain (fat_of blocks s) c cs" and "\<forall>x \<in> set cs. x < fat_capacity (bpb s)"
  shows "allocated_loop dev c n s = Some (Ok (n + length cs), s)"
  using assms(2,3)
proof (induction cs arbitrary: c n)
  case Nil
  then show ?case by (subst allocated_loop.simps) simp
next
  case (Cons x xs)
  then show ?case
    using assms(1) by (subst allocated_loop.simps) (auto simp: get_next_cluster_run)
qed

lemma free_chain_run:
  assumes "wf s" and "is_chain (fat_of blocks s) c cs" and "\<forall>x \<in> set cs. x < fat_capacity (bpb s)"
  shows "returns (free_chain dev c s)
    (\<lambda>_. table_step dev blocks dinv (\<lambda>x. if x \<in> set cs then FAT_ENTRY_FREE else fat_of blocks s x)
       (\<lambda>i. i\<lparr>fi_free_cluster_count := fi_free_cluster_count i + of_nat (length cs)\<rparr>) s)"
  using assms
proof (induction cs arbitrary: c s)
  case Nil
  then show ?case
    by (subst free_chain.simps) (auto simp: table_step_def option.map_ident)
next
  case (Cons x xs)
  let ?inc = "\<lambda>i. i\<lparr>fi_free_cluster_count := fi_free_cluster_count i + 1\<rparr>"
  have x: "x = c" "in_chain c" "is_chain (fat_of blocks s) (fat_of blocks s c) xs"
    and c: "c < fat_capacity (bpb s)" and fresh: "c \<notin> set xs"
    using Cons.prems is_chain_distinct [OF Cons.prems(2)] by auto
  have "returns (free_chain dev (fat_of blocks s c) s1)
      (\<lambda>_. table_step dev blocks dinv
        (\<lambda>y. if y \<in> set (x # xs) then FAT_ENTRY_FREE else fat_of blocks s y)
        (\<lambda>i. i\<lparr>fi_free_cluster_count := fi_free_cluster_count i + of_nat (length (x # xs))\<rparr>) s)"
    if st: "table_step dev blocks dinv ((fat_of blocks s)(c := FAT_ENTRY_FREE)) ?inc s s1" for s1
  proof -
    have cap: "fat_capacity (bpb s1) = fat_capacity (bpb s)" "wf s1"
      and tab: "\<And>y. y < fat_capacity (bpb s) \<Longrightarrow>
        fat_of blocks s1 y = ((fat_of blocks s)(c := FAT_ENTRY_FREE)) y"
      using st by (auto simp: table_step_def)
    have "is_chain (fat_of blocks s1) (fat_of blocks s c) xs"
      using x(3) fresh tab Cons.prems(3) by (subst is_chain_cong [of xs _ "fat_of blocks s"]) auto
    with cap Cons.prems(3) have "returns (free_chain dev (fat_of blocks s c) s1)
      (\<lambda>_. table_step dev blocks dinv (\<lambda>y. if y \<in> set xs then FAT_ENTRY_FREE else fat_of blocks s1 y)
         (\<lambda>i. i\<lparr>fi_free_cluster_count := fi_free_cluster_count i + of_nat (length xs)\<rparr>) s1)"
      by (intro Cons.IH) auto
    then show ?thesis
    proof (rule returns_mono)
      fix s2
      assume st2: "table_step dev blocks dinv
        (\<lambda>y. if y \<in> set xs then FAT_ENTRY_FREE else fat_of blocks s1 y)
        (\<lambda>i. i\<lparr>fi_free_cluster_count := fi_free_cluster_count i + of_nat (length xs)\<rparr>) s1 s2"
      show "table_step dev blocks dinv
        (\<lambda>y. if y \<in> set (x # xs) then FAT_ENTRY_FREE else fat_of blocks s y)
        (\<lambda>i. i\<lparr>fi_free_cluster_count := fi_free_cluster_count i + of_nat (length (x # xs))\<rparr>) s s2"
        by (rule table_step_cong [OF table_step_info [OF table_step_trans [OF st st2]]])
           (auto simp: tab x(1) algebra_simps)
    qed
  qed
  then show ?case
    using returns_mono [OF free_cluster_step [OF Cons.prems(1) c]] x c Cons.prems(1)
    by (subst free_chain.simps) (simp add: get_next_cluster_run returns_bind_iff)
qed

lemma free_clusters_step:
  assumes "table_step dev blocks dinv tab g s s'" and "wf s"
  shows "free_clusters blocks s' = {c. 2 \<le> c \<and> c < max_cluster s + 2 \<and> tab c = FAT_ENTRY_FREE}"
proof -
  have "max_cluster s + 2 \<le> fat_capacity (bpb s)"
    using wf_geometry [OF assms(2)] by (simp add: fat32_geometry_def)
  then show ?thesis using assms(1) by (auto simp: table_step_def free_clusters_def)
qed

lemma finite_free_clusters [simp]: "finite (free_clusters blocks s)"
  by (rule finite_subset [of _ "{..<max_cluster s + 2}"]) (auto simp: free_clusters_def)

lemma count_ok_take:
  assumes "wf s" and "count_ok blocks s" and "c \<in> free_clusters blocks s"
    and "v \<noteq> FAT_ENTRY_FREE"
    and st: "table_step dev blocks dinv ((fat_of blocks s)(c := v))
       (\<lambda>i. i\<lparr>fi_free_cluster_count := fi_free_cluster_count i - 1\<rparr>) s s'"
  shows "count_ok blocks s'"
proof -
  have free: "free_clusters blocks s' = free_clusters blocks s - {c}"
    using free_clusters_step [OF st assms(1)] assms(4) by (auto simp: free_clusters_def)
  have "unat (fi_free_cluster_count i - 1) = card (free_clusters blocks s) - 1"
    if "fs_info s = Some i" for i
  proof -
    have "unat (fi_free_cluster_count i) = card (free_clusters blocks s)"
      using assms(2) that by (simp add: count_ok_def)
    moreover have "card (free_clusters blocks s) \<noteq> 0" using assms(3) by auto
    ultimately show ?thesis by (metis unat_eq_zero unat_minus_one)
  qed
  then show ?thesis
    using assms(2,3) free st by (auto simp: count_ok_def table_step_def)
qed

lemma count_ok_release:
  assumes "wf s" and "count_ok blocks s" and "distinct cs"
    and cs: "\<forall>c \<in> set cs. 2 \<le> c \<and> c < max_cluster s + 2 \<and> fat_of blocks s c \<noteq> FAT_ENTRY_FREE"
    and st: "table_step dev blocks dinv (\<lambda>x. if x \<in> set cs then FAT_ENTRY_FREE else fat_of blocks s x)
       (\<lambda>i. i\<lparr>fi_free_cluster_count := fi_free_cluster_count i + of_nat (length cs)\<rparr>) s s'"
  shows "count_ok blocks s'"
proof -
  have free: "free_clusters blocks s' = free_clusters blocks s \<union> set cs"
    using free_clusters_step [OF st assms(1)] cs by (auto simp: free_clusters_def)
  have disj: "free_clusters blocks s \<inter> set cs = {}" using cs by (auto simp: free_clusters_def)
  then have card: "card (free_clusters blocks s') = card (free_clusters blocks s) + length cs"
    unfolding free by (simp add: card_Un_disjoint distinct_card assms(3))
  have "free_clusters blocks s' \<subseteq> {2..<max_cluster s + 2}"
    using st by (auto simp: free_clusters_def table_step_def)
  then have "card (free_clusters blocks s') \<le> max_cluster s"
    using card_mono [of "{2..<max_cluster s + 2}"] by force
  then have less: "card (free_clusters blocks s) + length cs < 2 ^ 32"
    using card wf_geometry [OF assms(1)] by (simp add: fat32_geometry_def fat_entry_defs)
  have "unat (w + of_nat (length cs)) = card (free_clusters blocks s) + length cs"
    if "unat w = card (free_clusters blocks s)" for w :: u32
  proof -
    have "w = of_nat (unat w)" by simp
    then have "w = of_nat (card (free_clusters blocks s))" unfolding that .
    then show ?thesis using less by (simp add: unat_of_nat flip: of_nat_add)
  qed
  then show ?thesis
    using assms(2) card st by (auto simp: count_ok_def table_step_def)
qed

lemma scan_order_set: "(\<And>h. hint = Some h \<Longrightarrow> 2 \<le> h) \<Longrightarrow> set (scan_order hint mc) = {2..<mc + 2}"
  by (auto simp: scan_order_def split: option.splits)

lemma find_available_cluster_full:
  assumes "wf s" and "count_ok blocks s" and "free_clusters blocks s = {}"
  shows "find_available_cluster dev s = Some (Err DiskFull, s)"
proof (cases "fs_info s")
  case (Some i)
  then have "fi_free_cluster_count i = 0" using assms(2,3) by (auto simp: count_ok_def unat_eq_0)
  then show ?thesis using Some by (simp add: find_available_cluster_def)
next
  case None
  let ?n = "max_cluster s + 2" and ?buf = "replicate (block_size dev (device s)) 0"
  have n: "?n \<le> fat_capacity (bpb s)" "?n < 2 ^ 32" "?n mod 2 ^ 32 = ?n"
    using wf_geometry [OF assms(1)] by (simp_all add: fat32_geometry_def fat_entry_defs)
  have "\<not> fat_of blocks s k = FAT_ENTRY_FREE" if "2 \<le> k" "k < ?n" for k
    using assms(3) that by (auto simp: free_clusters_def)
  then obtain ci b where "find_loop dev None 2 ?n None ?buf s = find_loop dev None ?n ?n ci b s"
    using find_loop_pass [OF assms(1), of 2 ?n None ?buf None] n by (auto simp: cache_ok_def)
  moreover have "find_loop dev None ?n ?n ci b s = Some (Err DiskFull, s)"
    using None by (subst find_loop.simps) (simp add: update_fs_info_def)
  ultimately show ?thesis
    using None n(3) by (simp add: find_available_cluster_def new_buffer_def Let_def)
qed

lemma find_available_cluster_some:
  assumes "wf s" and "count_ok blocks s" and "free_clusters blocks s \<noteq> {}"
  shows "returns (find_available_cluster dev s)
    (\<lambda>c s'. c \<in> free_clusters blocks s \<and> count_ok blocks s' \<and>
       table_step dev blocks dinv ((fat_of blocks s)(c := FAT_ENTRY_EOC_START))
         (\<lambda>i. i\<lparr>fi_free_cluster_count := fi_free_cluster_count i - 1\<rparr>) s s')"
proof -
  let ?free = "\<lambda>c. fat_of blocks s c = FAT_ENTRY_FREE"
  let ?scan = "scan_order (next_free_hint s) (max_cluster s)"
  have hint: "2 \<le> h" if "next_free_hint s = Some h" for h
    using that assms(2) by (auto simp: next_free_hint_def count_ok_def word_le_nat_alt)
  have set: "{c \<in> set ?scan. ?free c} = free_clusters blocks s"
    using scan_order_set [of "next_free_hint s" "max_cluster s", OF hint] by (auto simp: free_clusters_def)
  obtain c where c: "find ?free ?scan = Some c"
    using set assms(3) by (cases "find ?free ?scan") (auto simp: find_None_iff)
  then have mem: "c \<in> free_clusters blocks s"
    unfolding set [symmetric] by (auto simp: find_Some_iff)
  have "fi_free_cluster_count i \<noteq> 0" if "fs_info s = Some i" for i
    using assms(2,3) that by (auto simp: count_ok_def simp flip: unat_eq_0)
  moreover have "FAT_ENTRY_EOC_START \<noteq> FAT_ENTRY_FREE" by (simp add: fat_entry_defs)
  ultimately show ?thesis
    using returns_mono [OF find_available_cluster_step [OF assms(1) _ c]] mem
      count_ok_take [OF assms(1,2) mem] by fastforce
qed

lemma fat_get_patch_data:
  assumes "fat32_geometry b mc (length bl) bs" and "c < fat_capacity b"
    and "reserved_sector_count b + fat_size_32 b * 2 \<le> i" and "i + length x \<le> length bl"
  shows "fat_get b (patch i x bl) c = fat_get b bl c"
  using fat_block_bounds [OF assms(1,2)] assms(3,4) by (simp add: fat_get_def patch_nth)

lemma patch_step:
  assumes "wf s" and "2 \<le> c" and "c < max_cluster s + 2"
    and "i + length x \<le> sectors_per_cluster (bpb s)"
    and "stores s (patch (cluster_sector (bpb s) c + i) x (blocks (device s))) s'"
  shows "data_step dev blocks dinv c (patch i x (cluster_of blocks s c)) s s'"
proof -
  let ?b = "bpb s" and ?bl = "blocks (device s)"
  have rng: "cluster_sector ?b c + sectors_per_cluster ?b \<le> length ?bl"
    by (rule cluster_range [OF assms(1-3)])
  have low: "reserved_sector_count ?b + fat_size_32 ?b * 2 \<le> cluster_sector ?b c"
    using cluster_sector_bounds [OF wf_geometry [OF assms(1)] assms(2,3)] by simp
  have wf': "wf s'" using wf_stored [OF assms(5,1)] rng assms(4) by simp
  have self: "slice (cluster_sector ?b c) (sectors_per_cluster ?b) (patch (cluster_sector ?b c + i) x ?bl)
      = patch i x (slice (cluster_sector ?b c) (sectors_per_cluster ?b) ?bl)"
    using assms(4) rng by (rule slice_patch_inside)
  have other: "slice (cluster_sector ?b k) (sectors_per_cluster ?b) (patch (cluster_sector ?b c + i) x ?bl)
      = slice (cluster_sector ?b k) (sectors_per_cluster ?b) ?bl" if "2 \<le> k" "k \<noteq> c" for k
    using cluster_sectors_disjoint [OF assms(2) that(1), of ?b] that(2) assms(4) rng
    by (intro slice_patch_apart) auto
  show ?thesis
    using wf' stored_fields [OF assms(5)] self other low rng assms(4)
      fat_get_patch_data [OF wf_geometry [OF assms(1)]]
    by (auto simp: data_step_def cluster_get_def)
qed

lemma write_cluster_block_step:
  assumes "wf s" and "2 \<le> c" and "c < max_cluster s + 2" and "i < sectors_per_cluster (bpb s)"
    and "length buf = block_size dev (device s)"
  shows "returns (io (write_block dev (cluster_sector (bpb s) c + i) buf) s)
    (\<lambda>_. data_step dev blocks dinv c ((cluster_of blocks s c)[i := buf]) s)"
proof -
  have rng: "cluster_sector (bpb s) c + i < length (blocks (device s))"
    using cluster_range [OF assms(1-3)] assms(4) by simp
  moreover have "i < length (cluster_of blocks s c)"
    using cluster_range [OF assms(1-3)] assms(4) by (simp add: cluster_get_def)
  ultimately show ?thesis
    using returns_mono [OF io_write [OF assms(1) rng assms(5)]] assms(4)
      patch_step [OF assms(1-3), of i "[buf]"] by (simp add: patch_singleton)
qed

lemma write_cluster_step:
  assumes "wf s" and "2 \<le> c" and "c < max_cluster s + 2"
    and "length buf = sectors_per_cluster (bpb s) * block_size dev (device s)"
  shows "returns (io (write_blocks dev (cluster_sector (bpb s) c) (sectors_per_cluster (bpb s)) buf) s)
    (\<lambda>_. data_step dev blocks dinv c (chunks (block_size dev (device s)) (sectors_per_cluster (bpb s)) buf) s)"
  using returns_mono [OF io_write_blocks [OF assms(1) cluster_range [OF assms(1-3)] assms(4)]]
    patch_step [OF assms(1-3), of 0 "chunks (block_size dev (device s)) (sectors_per_cluster (bpb s)) buf"]
    cluster_range [OF assms(1-3)]
  by (simp add: patch_whole cluster_get_def)

lemma zero_cluster_step:
  assumes "wf s" and "2 \<le> c" and "c < max_cluster s + 2"
  shows "returns (io (write_zeros dev (cluster_sector (bpb s) c) (sectors_per_cluster (bpb s))) s)
    (\<lambda>_. data_step dev blocks dinv c
       (replicate (sectors_per_cluster (bpb s)) (replicate (block_size dev (device s)) 0)) s)"
  using returns_mono [OF io_write_zeros [OF assms(1) cluster_range [OF assms]]]
    patch_step [OF assms, of 0 "replicate (sectors_per_cluster (bpb s)) (replicate (block_size dev (device s)) 0)"]
    cluster_range [OF assms]
  by (simp add: patch_whole cluster_get_def)

lemma table_step_fs_step:
  "table_step dev blocks dinv tab g s s' \<Longrightarrow> fs_step dev blocks dinv tab (cluster_of blocks s) s s'"
  by (auto simp: table_step_def fs_step_def)

lemma data_step_fs_step:
  "data_step dev blocks dinv c x s s' \<Longrightarrow> 
   fs_step dev blocks dinv (fat_of blocks s) ((cluster_of blocks s)(c := x)) s s'"
  by (auto simp: data_step_def fs_step_def)

lemma fs_step_trans:
  "fs_step dev blocks dinv tab clus s s' \<Longrightarrow> fs_step dev blocks dinv tab' clus' s' s'' \<Longrightarrow>
   fs_step dev blocks dinv tab' clus' s s''"
  by (auto simp: fs_step_def)

lemma fs_step_cong:
  assumes "fs_step dev blocks dinv tab clus s s'"
    and "\<And>k. k < fat_capacity (bpb s) \<Longrightarrow> tab k = tab' k" and "\<And>k. 2 \<le> k \<Longrightarrow> clus k = clus' k"
  shows "fs_step dev blocks dinv tab' clus' s s'"
  using assms by (auto simp: fs_step_def)

lemma count_ok_same:
  assumes "wf s" and "count_ok blocks s" and "fs_info s' = fs_info s" and "max_cluster s' = max_cluster s"
    and "\<And>k. 2 \<le> k \<Longrightarrow> k < max_cluster s + 2 \<Longrightarrow>
      fat_of blocks s' k = FAT_ENTRY_FREE \<longleftrightarrow> fat_of blocks s k = FAT_ENTRY_FREE"
  shows "count_ok blocks s'"
proof -
  have "free_clusters blocks s' = free_clusters blocks s"
    using assms(4,5) by (auto simp: free_clusters_def)
  then show ?thesis using assms(2,3) by (simp add: count_ok_def)
qed

lemma count_ok_data_step:
  assumes "wf s" and "count_ok blocks s" and "data_step dev blocks dinv c x s s'"
  shows "count_ok blocks s'"
  using assms data_cluster_capacity [OF assms(1)]
  by (intro count_ok_same [OF assms(1,2)]) (auto simp: data_step_def)

lemma count_ok_update:
  assumes "wf s" and "count_ok blocks s" and "table_step dev blocks dinv ((fat_of blocks s)(c := v)) (\<lambda>i. i) s s'"
    and "v = FAT_ENTRY_FREE \<longleftrightarrow> fat_of blocks s c = FAT_ENTRY_FREE"
  shows "count_ok blocks s'"
proof (rule count_ok_same [OF assms(1,2)])
  fix k
  assume "k < max_cluster s + 2"
  then have "k < fat_capacity (bpb s)" by (rule data_cluster_capacity [OF assms(1)])
  then have "fat_of blocks s' k = ((fat_of blocks s)(c := v)) k"
    by (rule table_stepD(8) [OF assms(3)])
  then show "fat_of blocks s' k = FAT_ENTRY_FREE \<longleftrightarrow> fat_of blocks s k = FAT_ENTRY_FREE"
    using assms(4) by auto
qed (use assms(3) in \<open>simp_all add: table_step_def option.map_ident\<close>)

end

section \<open>An example\<close>

lemma replicate_4: "replicate 4 b = [b, b, b, b]"
  by (simp add: numeral_eq_Suc)

definition example_bpb :: BPB where
  "example_bpb =
     \<lparr>bpb_reserved_code = [0xEB, 0xFE, 0x90], bpb_oem_id = replicate 8 0x20,
      bpb_bytes_per_sector = 512, bpb_sectors_per_cluster = 1, bpb_reserved_sector_count = 2,
      bpb_num_fats = 2, bpb_root_entry_count = 0, bpb_total_sectors_16 = 0, bpb_media = 0,
      bpb_fat_size_16 = 0, bpb_sectors_per_track = 0, bpb_num_heads = 0, bpb_hidden_sectors = 0,
      bpb_total_sectors_32 = 7, bpb_fat_size_32 = 1, bpb_ext_flags = 0, bpb_fs_version = 0,
      bpb_root_cluster = 2, bpb_fs_info = 1, bpb_bk_boot_sector = 0xFFFF,
      bpb_reserved = replicate 12 0, bpb_drive_number = 0x80, bpb_reserved1 = 0,
      bpb_boot_signature = 0x28, bpb_volume_id = 0, bpb_volume_label = replicate 11 0,
      bpb_fs_type = replicate 8 0x20, bpb_code = replicate 420 0,
      bpb_boot_sector_signature = 0xAA55\<rparr>"

definition example_info :: "u32 \<Rightarrow> FSInfo" where
  "example_info n =
     \<lparr>fi_lead_signature = FSINFO_LEAD_SIGNATURE, fi_reserved1 = replicate 480 0,
      fi_struct_signature = FSINFO_STRUCT_SIGNATURE, fi_free_cluster_count = n,
      fi_next_free_cluster = 3, fi_reserved2 = replicate 12 0,
      fi_trail_signature = FSINFO_TRAIL_SIGNATURE\<rparr>"

text \<open>
  Seven blocks: two reserved, two FATs of one block that start with the entries \<open>es\<close>, three empty
  clusters.
\<close>

text \<open>A block of a FAT with the entries \<open>es\<close>, the rest free.\<close>

definition fat_image :: "nat list \<Rightarrow> u8 list" where
  "fat_image es = concat (map (to_le 4) es) @ replicate (512 - 4 * length es) 0"

definition example_blocks :: "nat list \<Rightarrow> u8 list list" where
  "example_blocks es =
    (let zero = replicate 512 0; fat = fat_image es
     in [zero, zero, fat, fat, zero, zero, zero])"

definition example_fs :: "nat list \<Rightarrow> u32 \<Rightarrow> MemoryDevice Fat32Inner" where
  "example_fs es n =
     \<lparr>device = \<lparr>md_data = concat (example_blocks es), md_block_size = 512, md_block_count = 7\<rparr>,
      bpb = example_bpb, fs_info = Some (example_info n), max_cluster = 3, occupied_file = {}\<rparr>"

lemma length_example_entries: "length (concat (map (to_le 4) es)) = 4 * length es"
  by (induction es) auto

lemma length_fat_image [simp]: "length es \<le> 128 \<Longrightarrow> length (fat_image es) = 512"
  by (simp add: fat_image_def length_example_entries)

lemma example_blocks_shape:
  "length (example_blocks es) = 7"
  "length es \<le> 128 \<Longrightarrow> x \<in> set (example_blocks es) \<Longrightarrow> length x = 512"
  by (auto simp: example_blocks_def Let_def)

lemma memory_example_blocks:
  "length es \<le> 128 \<Longrightarrow> memory_blocks (device (example_fs es n)) = example_blocks es"
  using chunks_concat_uniform [of "example_blocks es" 512] example_blocks_shape
  by (simp add: memory_blocks_def example_fs_def)

lemma example_wf:
  "length es \<le> 128 \<Longrightarrow> fs_wf memory_device memory_blocks memory_inv (example_fs es n)"
  using length_concat_uniform [of "example_blocks es" 512] example_blocks_shape
  by (simp add: fs_wf_def memory_example_blocks)
     (simp add: example_fs_def memory_inv_def memory_device_def default_device_def fat32_geometry_def
       example_bpb_def fat_capacity_def cluster_per_sector_def fat_entry_defs example_info_def
       fsinfo_arrays_ok_def)

lemma fat_image_entry:
  assumes "length es \<le> 128" and "c < 128" and "\<forall>e \<in> set es. e < 2 ^ 32"
  shows "from_le (slice (4 * c) 4 (fat_image es)) = (if c < length es then es ! c else 0)"
proof (cases "c < length es")
  case True
  have "slice (4 * c) 4 (fat_image es) = slice (c * 4) 4 (concat (map (to_le 4) es))"
    using True by (simp add: fat_image_def slice_def length_example_entries mult.commute)
  also have "\<dots> = to_le 4 (es ! c)"
    using True by (subst slice_concat_uniform) auto
  finally show ?thesis using True assms(3) by simp
next
  case False
  then have "slice (4 * c) 4 (fat_image es) = replicate 4 0"
    using assms(2)
    by (simp add: fat_image_def slice_append_skip length_example_entries slice_replicate)
  then show ?thesis using False by (simp add: replicate_4)
qed

lemma example_fat:
  assumes "length es \<le> 128" and "c < 128" and "\<forall>e \<in> set es. e < 2 ^ 32"
  shows "fat_of memory_blocks (example_fs es n) c = (if c < length es then es ! c else 0)"
proof -
  have "bpb (example_fs es n) = example_bpb" by (simp add: example_fs_def)
  moreover have "cluster_per_sector example_bpb = 128" "reserved_sector_count example_bpb = 2"
    by (simp_all add: cluster_per_sector_def example_bpb_def)
  ultimately have "fat_of memory_blocks (example_fs es n) c = from_le (slice (4 * c) 4 (fat_image es))"
    using assms(1,2)
    by (simp add: fat_get_def fat_block_def memory_example_blocks) (simp add: example_blocks_def Let_def)
  then show ?thesis using fat_image_entry [OF assms] by simp
qed

lemma example_max [simp]: "max_cluster (example_fs es n) = 3"
  by (simp add: example_fs_def)

lemma example_capacity [simp]: "fat_capacity (bpb (example_fs es n)) = 128"
  by (simp add: example_fs_def example_bpb_def fat_capacity_def cluster_per_sector_def)




lemma example_free: "free_clusters memory_blocks (example_fs [] n) = {2, 3, 4}"
  by (auto simp: free_clusters_def fat_entry_defs example_fat)


text \<open>
  C27. The search for a free cluster does not end when the table has none but the FSInfo structure
  says otherwise: with a hint, the scan restarts at cluster 2 each time it reaches its end, instead
  of reporting \<open>DiskFull\<close>.
\<close>

theorem find_available_cluster_loops:
  assumes "reliable_device dev blocks dinv" and "fs_wf dev blocks dinv s"
    and "fs_info s = Some i" and "fi_free_cluster_count i \<noteq> 0"
    and "2 \<le> fi_next_free_cluster i" and "unat (fi_next_free_cluster i) \<le> max_cluster s + 2"
    and "free_clusters blocks s = {}"
  shows "find_available_cluster dev s = None"
  using assms(7)
  by (intro reliable_device.find_available_cluster_diverges [OF assms(1-6)])
     (auto simp: free_clusters_def)

theorem find_available_cluster_loops_witness:
  "find_available_cluster memory_device (example_fs [1, 1, 1, 1, 1] 1) = None"
proof (rule find_available_cluster_loops [OF memory_reliable example_wf])
  let ?s = "example_fs [1, 1, 1, 1, 1] 1"
  show "fs_info ?s = Some (example_info 1)" by (simp add: example_fs_def)
  have "fat_of memory_blocks ?s c = 1" if "2 \<le> c" "c < 5" for c
    using that by (simp add: example_fat nth_Cons')
  then show "free_clusters memory_blocks ?s = {}" by (auto simp: free_clusters_def fat_entry_defs)
qed (simp_all add: example_info_def)

text \<open>
  C12. Returning the clusters of a file: the loop ends, every cluster of the chain is free
  afterwards, every other entry and all contents are unchanged, and the free-cluster counter still
  agrees with the table.
\<close>

theorem free_chain_correct:
  assumes "reliable_device dev blocks dinv" and "fs_wf dev blocks dinv s" and "count_ok blocks s"
    and "is_chain (fat_of blocks s) c cs"
    and "\<forall>x \<in> set cs. 2 \<le> x \<and> x < max_cluster s + 2 \<and> fat_of blocks s x \<noteq> FAT_ENTRY_FREE"
  shows "returns (free_chain dev c s)
    (\<lambda>_ s'. count_ok blocks s' \<and>
       table_step dev blocks dinv (\<lambda>x. if x \<in> set cs then FAT_ENTRY_FREE else fat_of blocks s x)
         (\<lambda>i. i\<lparr>fi_free_cluster_count := fi_free_cluster_count i + of_nat (length cs)\<rparr>) s s')"
proof -
  have "max_cluster s + 2 \<le> fat_capacity (bpb s)"
    using assms(2) by (simp add: fs_wf_def fat32_geometry_def)
  then have "\<forall>x \<in> set cs. x < fat_capacity (bpb s)" using assms(5) by auto
  from reliable_device.free_chain_run [OF assms(1,2,4) this] show ?thesis
    by (rule returns_mono)
       (use reliable_device.count_ok_release [OF assms(1-3) is_chain_distinct [OF assms(4)] assms(5)] in blast)
qed

theorem free_chain_correct_witness:
  "returns (free_chain memory_device 3 (example_fs [1, 1, 0x0FFFFFF8, 4, 0x0FFFFFF8] 0))
    (\<lambda>_ s'. free_clusters memory_blocks s' = {3, 4})"
proof -
  let ?s = "example_fs [1, 1, 0x0FFFFFF8, 4, 0x0FFFFFF8] 0"
  have f: "fat_of memory_blocks ?s 2 = 0x0FFFFFF8" "fat_of memory_blocks ?s 3 = 4"
      "fat_of memory_blocks ?s 4 = 0x0FFFFFF8"
    by (simp_all add: example_fat)
  have range: "x = 2 \<or> x = 3 \<or> x = 4" if "2 \<le> x" "x < 5" for x :: nat
    using that by auto
  then have "free_clusters memory_blocks ?s = {}"
    using f by (fastforce simp: free_clusters_def fat_entry_defs)
  then have "count_ok memory_blocks ?s"
    by (simp add: count_ok_def) (simp add: example_fs_def example_info_def)
  moreover have "is_chain (fat_of memory_blocks ?s) 3 [3, 4]"
    using f by (simp add: in_chain_def fat_entry_defs)
  ultimately have "returns (free_chain memory_device 3 ?s)
    (\<lambda>_ s'. count_ok memory_blocks s' \<and> table_step memory_device memory_blocks memory_inv
         (\<lambda>x. if x \<in> set [3, 4] then FAT_ENTRY_FREE else fat_of memory_blocks ?s x)
         (\<lambda>i. i\<lparr>fi_free_cluster_count := fi_free_cluster_count i + of_nat (length [3, 4 :: nat])\<rparr>) ?s s')"
    using f by (intro free_chain_correct [OF memory_reliable example_wf]) (auto simp: fat_entry_defs)
  moreover have "{c. 2 \<le> c \<and> c < 5 \<and>
      (if c \<in> set [3, 4] then FAT_ENTRY_FREE else fat_of memory_blocks ?s c) = FAT_ENTRY_FREE} = {3, 4}"
    using f(1) by (auto simp: fat_entry_defs dest!: range)
  moreover have wf: "fs_wf memory_device memory_blocks memory_inv ?s" by (intro example_wf) simp
  ultimately show ?thesis
    using reliable_device.free_clusters_step [OF memory_reliable _ wf] by (auto elim!: returns_mono)
qed

end
