(* ===== verification/Fat32_Dir.thy ===== *)
theory Fat32_Dir
  imports Fat32_Core
begin

text \<open>
  Directories of the FAT32 implementation (\<open>library/filesystem/src/fs/fat32.rs\<close>): the walk over the
  entries of a directory \<open>walk_file_meta_by_cluster\<close> and its clients \<open>get_file_metadata_by_cluster\<close>,
  \<open>get_all_filemeta_by_cluster\<close> and \<open>get_file_metadata\<close>; the changes \<open>create_file_meta\<close>,
  \<open>delete_file_meta\<close> and \<open>update_file_metadata\<close>; and \<open>get_fs_metadata\<close>.

  A closure with captured variables is a function of the variables' values.  An early \<open>return\<close> or
  \<open>break\<close> out of a \<open>for\<close> is a flag in the loop's accumulator.

  The lemmas show that the walk visits the 32-byte slots of the directory's clusters in order, that a
  lookup is a search in the list of files those slots spell (\<open>dir_files\<close>), and what a creation, an
  update and a deletion do to the slots.
\<close>

section \<open>The walk\<close>

record walk_state =
  ws_long :: "DirectoryEntryLong list"
  ws_start_cluster :: nat
  ws_start_sector :: nat
  ws_start_sector_offset :: nat

definition DIRECTORY_ENTRY_SIZE :: nat where "DIRECTORY_ENTRY_SIZE = 32"

text \<open>
  The body of the inner loop for the entry \<open>bytes\<close> at index \<open>j\<close> of a sector: a long entry is
  collected, an empty one drops the collection, any other one completes a file.
\<close>

definition walk_entry ::
  "nat \<Rightarrow> nat \<Rightarrow> nat \<Rightarrow> u8 list \<Rightarrow> walk_state \<Rightarrow> Fat32FileMetadata option \<times> walk_state" where
  "walk_entry cluster sector j bytes st =
    (let attr = bytes ! 11 in
     if attr = ATTR_LONG_NAME then
       (None,
        (if ws_long st = []
         then st\<lparr>ws_start_cluster := cluster, ws_start_sector := sector, ws_start_sector_offset := j\<rparr>
         else st)\<lparr>ws_long := ws_long st @ [long_decode bytes]\<rparr>)
     else
       let entry = short_decode bytes in
       if de_name entry ! 0 = 0x00 \<or> de_name entry ! 0 = 0xE5 then (None, st\<lparr>ws_long := []\<rparr>)
       else
         (Some \<lparr>fm_short = entry, fm_long = ws_long st,
                fm_start_cluster = ws_start_cluster st, fm_start_sector = ws_start_sector st,
                fm_start_sector_offset = ws_start_sector_offset st,
                fm_short_cluster = cluster, fm_short_sector = sector, fm_short_sector_offset = j\<rparr>,
          st\<lparr>ws_long := []\<rparr>))"

type_synonym 'a yield_fn = "Fat32FileMetadata \<Rightarrow> 'a \<Rightarrow> (FileSystemError, bool \<times> 'a) res"

definition lift_res :: "('e, 'a) res \<Rightarrow> ('s, 'e, 'a) prog" where
  "lift_res r s = Some (r, s)"

definition walk_slot ::
  "'a yield_fn \<Rightarrow> nat \<Rightarrow> nat \<Rightarrow> nat \<Rightarrow> u8 list \<Rightarrow> nat \<times> nat \<Rightarrow> bool \<times> 'a \<times> walk_state
    \<Rightarrow> ('d, bool \<times> 'a \<times> walk_state) fs_prog" where
  "walk_slot yield_fn bsize cluster sector cluster_buffer =
    (\<lambda>(i, j) (returned, captured, st).
       if returned then ret (returned, captured, st)
       else if i * bsize + (j + 1) * DIRECTORY_ENTRY_SIZE \<le> length cluster_buffer then
         (case walk_entry cluster (sector + i) j
                 (slice (i * bsize + j * DIRECTORY_ENTRY_SIZE) DIRECTORY_ENTRY_SIZE cluster_buffer) st of
            (None, st) \<Rightarrow> ret (False, captured, st)
          | (Some metadata, st) \<Rightarrow>
              bind (lift_res (yield_fn metadata captured)) (\<lambda>(should_continue, captured).
              ret (\<not> should_continue, captured, st)))
       else undefined_behaviour)"

partial_function (option) walk_loop ::
  "'d block_device \<Rightarrow> 'a yield_fn \<Rightarrow> nat \<Rightarrow> u8 list \<Rightarrow> 'a \<times> walk_state \<Rightarrow> 'd Fat32Inner
    \<Rightarrow> ((FileSystemError, 'a) res \<times> 'd Fat32Inner) option" where
  "walk_loop dev yield_fn cluster cluster_buffer acc s =
    (if in_chain cluster then
       bind (get_sector_by_cluster cluster) (\<lambda>sector.
       bind (gets (\<lambda>s. (bpb s, block_size dev (device s)))) (\<lambda>(b, bsize).
       bind (io (read_blocks dev sector (sectors_per_cluster b) cluster_buffer)) (\<lambda>cluster_buffer.
       bind (for_each (List.product [0..<sectors_per_cluster b]
                         [0..<bytes_per_sector b div DIRECTORY_ENTRY_SIZE])
               (walk_slot yield_fn bsize cluster sector cluster_buffer)
               (False, acc)) (\<lambda>(returned, captured, st) s.
       if returned then ret captured s
       else bind (get_next_cluster dev cluster) (\<lambda>cluster.
            walk_loop dev yield_fn cluster cluster_buffer (captured, st)) s)))) s
     else ret (fst acc) s)"

definition walk_file_meta_by_cluster ::
  "'d block_device \<Rightarrow> nat \<Rightarrow> 'a yield_fn \<Rightarrow> 'a \<Rightarrow> ('d, 'a) fs_prog" where
  "walk_file_meta_by_cluster dev cluster yield_fn captured =
    bind (gets (\<lambda>s. block_size dev (device s) * sectors_per_cluster (bpb s))) (\<lambda>size.
    walk_loop dev yield_fn cluster (replicate size 0)
      (captured, \<lparr>ws_long = [], ws_start_cluster = 0, ws_start_sector = 0, ws_start_sector_offset = 0\<rparr>))"

section \<open>Lookup\<close>

text \<open>
  The orders of the entries of one name are distinct, so every sorting algorithm gives the order
  that the stable one does.
\<close>

definition sort_long :: "DirectoryEntryLong list \<Rightarrow> DirectoryEntryLong list" where
  "sort_long long = sort_key le_order long"

definition lookup_name :: "rstr \<Rightarrow> Fat32FileMetadata option yield_fn" where
  "lookup_name name metadata file =
    (let metadata = (if fm_long metadata = [] then metadata
                     else metadata\<lparr>fm_long := sort_long (fm_long metadata)\<rparr>);
         name_matches = (if fm_long metadata = [] then name_match_short (fm_short metadata) name
                         else name_match_long (fm_long metadata) name)
     in if name_matches then Ok (False, Some metadata) else Ok (True, file))"

definition get_file_metadata_by_cluster ::
  "'d block_device \<Rightarrow> nat \<Rightarrow> rstr \<Rightarrow> ('d, Fat32FileMetadata) fs_prog" where
  "get_file_metadata_by_cluster dev cluster name =
    bind (walk_file_meta_by_cluster dev cluster (lookup_name name) None) (\<lambda>file.
    case file of None \<Rightarrow> throw FileNotFound | Some metadata \<Rightarrow> ret metadata)"

definition push_file :: "Fat32FileMetadata list yield_fn" where
  "push_file metadata files = Ok (True, files @ [metadata])"

definition get_all_filemeta_by_cluster ::
  "'d block_device \<Rightarrow> nat \<Rightarrow> ('d, Fat32FileMetadata list) fs_prog" where
  "get_all_filemeta_by_cluster dev cluster =
    walk_file_meta_by_cluster dev cluster push_file []"

definition is_directory_entry :: "Fat32FileMetadata \<Rightarrow> bool" where
  "is_directory_entry metadata \<longleftrightarrow> de_attr (fm_short metadata) AND ATTR_DIRECTORY \<noteq> 0"

definition get_file_metadata ::
  "'d block_device \<Rightarrow> rstr list \<Rightarrow> ('d, Fat32FileMetadata option) fs_prog" where
  "get_file_metadata dev path =
    bind (gets (\<lambda>s. unat (bpb_root_cluster (bpb s)))) (\<lambda>root_cluster.
    bind (for_each path (\<lambda>name (cluster, file_metadata).
            if (case file_metadata of None \<Rightarrow> False | Some metadata \<Rightarrow> \<not> is_directory_entry metadata)
            then throw FileNotFound
            else bind (get_file_metadata_by_cluster dev cluster name) (\<lambda>nxt.
                 ret (metadata_start_cluster nxt, Some nxt)))
          (root_cluster, None)) (\<lambda>(cluster, file_metadata).
    ret file_metadata))"

record FileMetadata =
  file_name :: rstr
  file_size :: nat
  is_directory :: bool
  allocated_size :: nat

definition get_fs_metadata ::
  "'d block_device \<Rightarrow> Fat32FileMetadata \<Rightarrow> ('d, FileMetadata) fs_prog" where
  "get_fs_metadata dev file =
    bind (get_allocated_size dev (metadata_start_cluster file)) (\<lambda>allocated.
    ret \<lparr>file_name = name_to_string file, file_size = unat (de_file_size (fm_short file)),
         is_directory = is_directory_entry file, allocated_size = allocated\<rparr>)"

section \<open>Creation\<close>

definition entry_slots :: "nat \<Rightarrow> u8 list \<Rightarrow> u8 list list" where
  "entry_slots n buffer = chunks DIRECTORY_ENTRY_SIZE n buffer"

text \<open>
  The search for \<open>need\<close> consecutive free entries in a sector: \<open>i\<close> is the index of the next entry and
  \<open>start\<close> the first index of the current run.
\<close>

fun find_room :: "nat \<Rightarrow> u8 list list \<Rightarrow> nat \<Rightarrow> nat \<Rightarrow> nat option" where
  "find_room need [] i start = None"
| "find_room need (entry # entries) i start =
    (if entry ! 0 \<noteq> 0 then find_room need entries (i + 1) (i + 1)
     else if i - start + 1 \<ge> need then Some start
     else find_room need entries (i + 1) start)"

definition file_entries :: "Fat32FileMetadata \<Rightarrow> u8 list" where
  "file_entries to_create =
     concat (map long_encode (fm_long to_create)) @ short_encode (fm_short to_create)"

text \<open>One pass of the loop over the sectors of a cluster; the flag says that the entries are written.\<close>

definition create_in_sector ::
  "'d block_device \<Rightarrow> Fat32FileMetadata \<Rightarrow> nat \<Rightarrow> u8 list \<Rightarrow> nat \<Rightarrow> bool \<Rightarrow> ('d, bool) fs_prog" where
  "create_in_sector dev to_create block_index buffer sector returned =
    bind (gets (\<lambda>s. (bytes_per_sector (bpb s) div DIRECTORY_ENTRY_SIZE, block_size dev (device s))))
      (\<lambda>(entries, bsize).
    if returned then ret True
    else if sector * bsize + entries * DIRECTORY_ENTRY_SIZE > length buffer then undefined_behaviour
    else
      (case find_room (length (fm_long to_create) + 1)
              (entry_slots entries (drop (sector * bsize) buffer)) 0 0 of
         None \<Rightarrow> ret False
       | Some start \<Rightarrow>
           let buffer = patch (sector * bsize + start * DIRECTORY_ENTRY_SIZE)
                          (file_entries to_create) buffer
           in bind (sub_slice (sector * bsize) ((sector + 1) * bsize) buffer) (\<lambda>block.
              bind (io (write_block dev (block_index + sector) block)) (\<lambda>_.
              ret True))))"

partial_function (option) create_loop ::
  "'d block_device \<Rightarrow> Fat32FileMetadata \<Rightarrow> nat \<Rightarrow> nat \<Rightarrow> u8 list \<Rightarrow> 'd Fat32Inner
    \<Rightarrow> ((FileSystemError, nat option) res \<times> 'd Fat32Inner) option" where
  "create_loop dev to_create last_cluster cluster buffer s =
    (if in_chain cluster then
       bind (get_sector_by_cluster cluster) (\<lambda>block_index.
       bind (gets bpb) (\<lambda>b.
       bind (io (read_blocks dev block_index (sectors_per_cluster b) buffer)) (\<lambda>buffer.
       bind (for_each [0..<sectors_per_cluster b]
               (create_in_sector dev to_create block_index buffer) False) (\<lambda>returned s.
       if returned then ret None s
       else bind (get_next_cluster dev cluster) (\<lambda>next.
            create_loop dev to_create cluster next buffer) s)))) s
     else ret (Some last_cluster) s)"

definition create_in_new_cluster ::
  "'d block_device \<Rightarrow> Fat32FileMetadata \<Rightarrow> nat \<Rightarrow> ('d, unit) fs_prog" where
  "create_in_new_cluster dev to_create last_cluster =
    bind (find_available_cluster dev) (\<lambda>cluster.
    bind (get_sector_by_cluster cluster) (\<lambda>sector.
    bind (gets (\<lambda>s. (bpb s, block_size dev (device s)))) (\<lambda>(b, bsize).
    bind (io (write_zeros dev sector (sectors_per_cluster b))) (\<lambda>_.
    if bytes_per_sector b div DIRECTORY_ENTRY_SIZE * DIRECTORY_ENTRY_SIZE > bsize
    then undefined_behaviour
    else if length (fm_long to_create) \<ge> bytes_per_sector b div DIRECTORY_ENTRY_SIZE then panic
    else
      bind (get_sector_by_cluster cluster) (\<lambda>sector.
      bind (io (write_block dev sector (patch 0 (file_entries to_create) (replicate bsize 0)))) (\<lambda>_.
      update_cluster dev last_cluster cluster))))))"

definition create_file_meta ::
  "'d block_device \<Rightarrow> nat \<Rightarrow> Fat32FileMetadata \<Rightarrow> ('d, unit) fs_prog" where
  "create_file_meta dev directory_cluster to_create =
    bind (gets (\<lambda>s. (bpb s, block_size dev (device s)))) (\<lambda>(b, bsize).
    if length (fm_long to_create) + 1 > bytes_per_sector b div DIRECTORY_ENTRY_SIZE
    then throw NameTooLang
    else
      bind (create_loop dev to_create 0 directory_cluster
              (replicate (sectors_per_cluster b * bsize) 0)) (\<lambda>last_cluster.
      case last_cluster of
        None \<Rightarrow> ret ()
      | Some last_cluster \<Rightarrow> create_in_new_cluster dev to_create last_cluster))"

section \<open>Deletion and update\<close>

text \<open>The entries that the two inner loops of \<open>delete_file_meta\<close> visit in a cluster.\<close>

definition delete_positions ::
  "Fat32FileMetadata \<Rightarrow> nat \<Rightarrow> nat \<Rightarrow> nat \<Rightarrow> nat \<Rightarrow> (nat \<times> nat) list" where
  "delete_positions metadata cluster sector spc entries =
    (let sector_start =
           (if cluster = fm_start_cluster metadata then wsub64 (fm_start_sector metadata) sector else 0)
     in concat (map (\<lambda>i.
          let offset_start = (if i + sector = fm_short_sector metadata
                              then fm_start_sector_offset metadata else 0)
          in map (\<lambda>j. (i, j)) [offset_start..<entries]) [sector_start..<spc]))"

definition delete_slot ::
  "Fat32FileMetadata \<Rightarrow> nat \<Rightarrow> nat \<Rightarrow> nat \<Rightarrow> nat \<times> nat \<Rightarrow> u8 list \<times> bool
    \<Rightarrow> ('s, 'e, u8 list \<times> bool) prog" where
  "delete_slot metadata bsize cluster sector =
    (\<lambda>(i, j) (cluster_buffer, loop_finish).
       if loop_finish then ret (cluster_buffer, loop_finish)
       else if i * bsize + (j + 1) * DIRECTORY_ENTRY_SIZE > length cluster_buffer then panic
       else
         ret (patch (i * bsize + j * DIRECTORY_ENTRY_SIZE) (replicate DIRECTORY_ENTRY_SIZE 0)
                cluster_buffer,
              cluster = fm_short_cluster metadata \<and> sector + i = fm_short_sector metadata
              \<and> j = fm_short_sector_offset metadata))"

partial_function (option) delete_loop ::
  "'d block_device \<Rightarrow> Fat32FileMetadata \<Rightarrow> nat \<Rightarrow> u8 list \<Rightarrow> 'd Fat32Inner
    \<Rightarrow> ((FileSystemError, unit) res \<times> 'd Fat32Inner) option" where
  "delete_loop dev metadata cluster cluster_buffer s =
    (if cluster \<noteq> FAT_ENTRY_FREE \<and> cluster < FAT_ENTRY_EOC_START then
       bind (get_sector_by_cluster cluster) (\<lambda>sector.
       bind (gets (\<lambda>s. (bpb s, block_size dev (device s)))) (\<lambda>(b, bsize).
       bind (io (read_blocks dev sector (sectors_per_cluster b) cluster_buffer)) (\<lambda>cluster_buffer.
       bind (for_each
               (delete_positions metadata cluster sector (sectors_per_cluster b)
                 (bytes_per_sector b div DIRECTORY_ENTRY_SIZE))
               (delete_slot metadata bsize cluster sector) (cluster_buffer, False))
         (\<lambda>(cluster_buffer, loop_finish).
       bind (io (write_blocks dev sector (sectors_per_cluster b) cluster_buffer)) (\<lambda>_ s.
       if loop_finish then ret () s
       else bind (get_next_cluster dev cluster) (\<lambda>next.
            delete_loop dev metadata next cluster_buffer) s))))) s
     else ret () s)"

definition delete_file_meta :: "'d block_device \<Rightarrow> Fat32FileMetadata \<Rightarrow> ('d, unit) fs_prog" where
  "delete_file_meta dev metadata =
    bind (gets (\<lambda>s. block_size dev (device s) * sectors_per_cluster (bpb s))) (\<lambda>size.
    delete_loop dev metadata (fm_start_cluster metadata) (replicate size 0))"

definition update_file_metadata :: "'d block_device \<Rightarrow> Fat32FileMetadata \<Rightarrow> ('d, unit) fs_prog" where
  "update_file_metadata dev metadata =
    bind (new_buffer dev) (\<lambda>cluster_buffer.
    bind (io (read_block dev (fm_short_sector metadata) cluster_buffer)) (\<lambda>cluster_buffer.
    bind (gets (\<lambda>s. block_size dev (device s))) (\<lambda>bsize.
    bind (assert (fm_short_sector_offset metadata * DIRECTORY_ENTRY_SIZE < bsize)) (\<lambda>_.
    if (fm_short_sector_offset metadata + 1) * DIRECTORY_ENTRY_SIZE > length cluster_buffer
    then undefined_behaviour
    else
      io (write_block dev (fm_short_sector metadata)
           (patch (fm_short_sector_offset metadata * DIRECTORY_ENTRY_SIZE)
             (short_encode (fm_short metadata)) cluster_buffer))))))"

section \<open>The slots of a directory\<close>

text \<open>A slot: its cluster, its sector, its index in the sector, and its bytes.\<close>

type_synonym slot = "nat \<times> nat \<times> nat \<times> u8 list"

definition slot_at :: "BPB \<Rightarrow> u8 list list \<Rightarrow> nat \<Rightarrow> nat \<times> nat \<Rightarrow> slot" where
  "slot_at b bl c = (\<lambda>(i, j). (c, cluster_sector b c + i, j,
     slice (j * DIRECTORY_ENTRY_SIZE) DIRECTORY_ENTRY_SIZE (bl ! (cluster_sector b c + i))))"

definition slot_positions :: "BPB \<Rightarrow> (nat \<times> nat) list" where
  "slot_positions b =
     List.product [0..<sectors_per_cluster b] [0..<bytes_per_sector b div DIRECTORY_ENTRY_SIZE]"

definition cluster_slots :: "BPB \<Rightarrow> u8 list list \<Rightarrow> nat \<Rightarrow> slot list" where
  "cluster_slots b bl c = map (slot_at b bl c) (slot_positions b)"

definition dir_slots :: "BPB \<Rightarrow> u8 list list \<Rightarrow> nat list \<Rightarrow> slot list" where
  "dir_slots b bl cs = concat (map (cluster_slots b bl) cs)"

text \<open>The files that a list of slots spells, and the walk's state at its end.\<close>

fun parse_slots :: "walk_state \<Rightarrow> slot list \<Rightarrow> Fat32FileMetadata list \<times> walk_state" where
  "parse_slots st [] = ([], st)"
| "parse_slots st ((c, sec, j, bytes) # slots) =
    (let (m, st) = walk_entry c sec j bytes st; (ms, st) = parse_slots st slots
     in (case m of None \<Rightarrow> ms | Some m \<Rightarrow> m # ms, st))"

definition walk_init :: walk_state where
  "walk_init = \<lparr>ws_long = [], ws_start_cluster = 0, ws_start_sector = 0, ws_start_sector_offset = 0\<rparr>"

definition dir_files :: "BPB \<Rightarrow> u8 list list \<Rightarrow> nat list \<Rightarrow> Fat32FileMetadata list" where
  "dir_files b bl cs = fst (parse_slots walk_init (dir_slots b bl cs))"

text \<open>What a closure without errors makes of a list of files, and whether it stopped.\<close>

fun yield_all :: "(Fat32FileMetadata \<Rightarrow> 'a \<Rightarrow> bool \<times> 'a) \<Rightarrow> Fat32FileMetadata list \<Rightarrow> 'a \<Rightarrow> bool \<times> 'a" where
  "yield_all y [] a = (False, a)"
| "yield_all y (m # ms) a = (let (go, a) = y m a in if go then yield_all y ms a else (True, a))"

text \<open>The walk over a list of slots, without the disk.\<close>

fun walk_slots ::
  "(Fat32FileMetadata \<Rightarrow> 'a \<Rightarrow> bool \<times> 'a) \<Rightarrow> slot list \<Rightarrow> 'a \<Rightarrow> walk_state \<Rightarrow> bool \<times> 'a \<times> walk_state" where
  "walk_slots y [] a st = (False, a, st)"
| "walk_slots y ((c, sec, j, bytes) # slots) a st =
    (case walk_entry c sec j bytes st of
       (None, st) \<Rightarrow> walk_slots y slots a st
     | (Some m, st) \<Rightarrow> (let (go, a) = y m a in if go then walk_slots y slots a st else (True, a, st)))"

lemma walk_slots_yield_all:
  "walk_slots y slots a st = (r, a', st') \<Longrightarrow>
   yield_all y (fst (parse_slots st slots)) a = (r, a') \<and> (\<not> r \<longrightarrow> st' = snd (parse_slots st slots))"
proof (induction slots arbitrary: a st)
  case Nil
  then show ?case by simp
next
  case (Cons x slots)
  obtain c sec j bytes where x: "x = (c, sec, j, bytes)" by (cases x)
  obtain m st1 where e: "walk_entry c sec j bytes st = (m, st1)" by fastforce
  have split: "parse_slots st (x # slots) =
      (case m of None \<Rightarrow> fst (parse_slots st1 slots) | Some m \<Rightarrow> m # fst (parse_slots st1 slots),
       snd (parse_slots st1 slots))"
    by (simp add: x e case_prod_beta)
  show ?case
  proof (cases m)
    case None
    then show ?thesis using Cons.IH [of a st1] Cons.prems x e split by simp
  next
    case (Some meta)
    obtain go a1 where "y meta a = (go, a1)" by fastforce
    then show ?thesis using Cons.IH [of a1 st1] Cons.prems x e split Some by (cases go) auto
  qed
qed

lemma parse_slots_append:
  "parse_slots st (xs @ ys) =
    (fst (parse_slots st xs) @ fst (parse_slots (snd (parse_slots st xs)) ys),
     snd (parse_slots (snd (parse_slots st xs)) ys))"
proof (induction xs arbitrary: st)
  case Nil
  show ?case by simp
next
  case (Cons x xs)
  obtain c sec j bytes where x: "x = (c, sec, j, bytes)" by (cases x)
  obtain m st1 where e: "walk_entry c sec j bytes st = (m, st1)" by fastforce
  show ?case using Cons [of st1] by (cases m) (simp_all add: x e case_prod_beta)
qed

lemma yield_all_append:
  "yield_all y (ms @ ns) a = (let (r, a) = yield_all y ms a in if r then (r, a) else yield_all y ns a)"
  by (induction ms arbitrary: a) (auto simp: Let_def split: prod.splits)

lemma for_each_stopped:
  "for_each ps (walk_slot f bs c sec buf) (True, a, st) s = Some (Ok (True, a, st), s)"
  by (induction ps) (auto simp: walk_slot_def)

lemma for_each_walk_slots:
  assumes "\<And>i j. (i, j) \<in> set ps \<Longrightarrow> i * bs + (j + 1) * DIRECTORY_ENTRY_SIZE \<le> length buf"
    and "\<And>i j. (i, j) \<in> set ps \<Longrightarrow>
       slice (i * bs + j * DIRECTORY_ENTRY_SIZE) DIRECTORY_ENTRY_SIZE buf = bytes i j"
  shows "for_each ps (walk_slot (\<lambda>m a. Ok (y m a)) bs c sec buf) (False, a, st) s
    = Some (Ok (walk_slots y (map (\<lambda>(i, j). (c, sec + i, j, bytes i j)) ps) a st), s)"
  using assms
proof (induction ps arbitrary: a st)
  case Nil
  then show ?case by simp
next
  case (Cons p ps)
  obtain i j where p: "p = (i, j)" by (cases p)
  have bounds: "i * bs + (j + 1) * DIRECTORY_ENTRY_SIZE \<le> length buf"
    and sl: "slice (i * bs + j * DIRECTORY_ENTRY_SIZE) DIRECTORY_ENTRY_SIZE buf = bytes i j"
    using Cons.prems p by auto
  obtain m st' where e: "walk_entry c (sec + i) j (bytes i j) st = (m, st')" by fastforce
  show ?case
  proof (cases m)
    case None
    then show ?thesis
      using Cons p e bounds sl by (simp add: walk_slot_def bind_def)
  next
    case (Some meta)
    obtain go a' where y: "y meta a = (go, a')" by fastforce
    then show ?thesis
      using Cons p e Some bounds sl for_each_stopped
      by (cases go) (simp_all add: walk_slot_def bind_def lift_res_def)
  qed
qed

section \<open>Walk and lookup on disk\<close>

text \<open>A chain of clusters of the data area.\<close>

definition data_chain ::
  "('d \<Rightarrow> u8 list list) \<Rightarrow> 'd Fat32Inner \<Rightarrow> nat \<Rightarrow> nat list \<Rightarrow> bool" where
  "data_chain blocks s c cs \<longleftrightarrow>
     is_chain (fat_of blocks s) c cs \<and> (\<forall>x \<in> set cs. 2 \<le> x \<and> x < max_cluster s + 2)"

lemma data_chain_Nil: "data_chain blocks s c [] \<longleftrightarrow> \<not> in_chain c"
  by (simp add: data_chain_def)

lemma data_chain_Cons:
  "data_chain blocks s c (x # xs) \<longleftrightarrow>
     x = c \<and> in_chain c \<and> 2 \<le> c \<and> c < max_cluster s + 2 \<and> data_chain blocks s (fat_of blocks s c) xs"
  by (auto simp: data_chain_def)

definition files_of :: "('d \<Rightarrow> u8 list list) \<Rightarrow> 'd Fat32Inner \<Rightarrow> nat list \<Rightarrow> Fat32FileMetadata list" where
  "files_of blocks s cs = dir_files (bpb s) (blocks (device s)) cs"

text \<open>The test of a lookup, and the metadata it returns.\<close>

definition is_named :: "rstr \<Rightarrow> Fat32FileMetadata \<Rightarrow> bool" where
  "is_named name m =
    (if fm_long m = [] then name_match_short (fm_short m) name
     else name_match_long (sort_long (fm_long m)) name)"

definition sorted_file :: "Fat32FileMetadata \<Rightarrow> Fat32FileMetadata" where
  "sorted_file m = (if fm_long m = [] then m else m\<lparr>fm_long := sort_long (fm_long m)\<rparr>)"

lemma sort_long_Nil: "sort_long long = [] \<longleftrightarrow> long = []"
  unfolding sort_long_def by (metis set_empty set_sort)

context reliable_device
begin

lemma slot_in_sector:
  assumes "wf s" and "(i, j) \<in> set (slot_positions (bpb s))"
  shows "i < sectors_per_cluster (bpb s)"
    and "(j + 1) * DIRECTORY_ENTRY_SIZE \<le> block_size dev (device s)"
proof -
  have "j < bytes_per_sector (bpb s) div DIRECTORY_ENTRY_SIZE"
    using assms(2) by (simp add: slot_positions_def)
  then have "(j + 1) * DIRECTORY_ENTRY_SIZE \<le> bytes_per_sector (bpb s)"
    by (metis Suc_eq_plus1 Suc_leI div_times_less_eq_dividend dual_order.trans mult_le_mono1)
  then show "(j + 1) * DIRECTORY_ENTRY_SIZE \<le> block_size dev (device s)"
    using wf_geometry [OF assms(1)] by (simp add: fat32_geometry_def)
  show "i < sectors_per_cluster (bpb s)" using assms(2) by (simp add: slot_positions_def)
qed

lemma cluster_blocks_length:
  assumes "wf s" and "2 \<le> c" and "c < max_cluster s + 2"
  shows "x \<in> set (cluster_of blocks s c) \<Longrightarrow> length x = block_size dev (device s)"
    and "length (cluster_of blocks s c) = sectors_per_cluster (bpb s)"
  using cluster_range [OF assms] wf_block [OF assms(1)]
  by (auto simp: cluster_get_def slice_def in_set_conv_nth)

lemma cluster_buffer_length:
  assumes "wf s" and "2 \<le> c" and "c < max_cluster s + 2"
  shows "length (concat (cluster_of blocks s c)) = sectors_per_cluster (bpb s) * block_size dev (device s)"
  using cluster_blocks_length [OF assms] by (simp add: length_concat_uniform)

lemma walk_cluster:
  assumes "wf s" and "2 \<le> c" and "c < max_cluster s + 2"
  shows "for_each (slot_positions (bpb s))
      (walk_slot (\<lambda>m a. Ok (y m a)) (block_size dev (device s)) c (cluster_sector (bpb s) c)
        (concat (cluster_of blocks s c))) (False, a, st) s
    = Some (Ok (walk_slots y (cluster_slots (bpb s) (blocks (device s)) c) a st), s)"
proof -
  let ?bs = "block_size dev (device s)" and ?buf = "concat (cluster_of blocks s c)"
  have len: "length ?buf = sectors_per_cluster (bpb s) * ?bs" by (rule cluster_buffer_length [OF assms])
  have bound: "i * ?bs + (j + 1) * DIRECTORY_ENTRY_SIZE \<le> length ?buf"
    if "(i, j) \<in> set (slot_positions (bpb s))" for i j
    using slot_in_sector [OF assms(1) that] chunk_bound [of i "sectors_per_cluster (bpb s)" ?bs "length ?buf"]
    by (simp add: len)
  have "slice (i * ?bs + j * DIRECTORY_ENTRY_SIZE) DIRECTORY_ENTRY_SIZE ?buf
      = slice (j * DIRECTORY_ENTRY_SIZE) DIRECTORY_ENTRY_SIZE
          (blocks (device s) ! (cluster_sector (bpb s) c + i))"
    if "(i, j) \<in> set (slot_positions (bpb s))" for i j
    using slot_in_sector [OF assms(1) that] cluster_blocks_length [OF assms] cluster_range [OF assms]
    by (subst slice_in_concat) (auto simp: cluster_get_def slice_nth)
  then show ?thesis
    by (subst for_each_walk_slots [OF bound]) (simp_all add: cluster_slots_def slot_at_def)
qed

lemma walk_loop_run:
  assumes "wf s" and "data_chain blocks s c cs"
    and "length buf = sectors_per_cluster (bpb s) * block_size dev (device s)"
  shows "walk_loop dev (\<lambda>m a. Ok (y m a)) c buf (a, st) s
    = Some (Ok (snd (yield_all y (fst (parse_slots st (dir_slots (bpb s) (blocks (device s)) cs))) a)), s)"
  using assms(2,3)
proof (induction cs arbitrary: c a st buf)
  case Nil
  then show ?case by (subst walk_loop.simps) (simp add: dir_slots_def data_chain_Nil)
next
  case (Cons x cs)
  have c: "x = c" "in_chain c" "2 \<le> c" "c < max_cluster s + 2"
    and next_chain: "data_chain blocks s (fat_of blocks s c) cs"
    using Cons.prems by (auto simp: data_chain_Cons)
  let ?slots = "cluster_slots (bpb s) (blocks (device s)) c"
  obtain r a' st' where w: "walk_slots y ?slots a st = (r, a', st')" by (metis prod_cases3)
  note ya = walk_slots_yield_all [OF w]
  have read: "io (read_blocks dev (cluster_sector (bpb s) c) (sectors_per_cluster (bpb s)) buf) s
      = Some (Ok (concat (cluster_of blocks s c)), s)"
    using cluster_range [OF assms(1) c(3,4)] Cons.prems(2) assms(1)
    by (simp add: io_read_blocks cluster_get_def)
  have slots: "dir_slots (bpb s) (blocks (device s)) (x # cs) = ?slots @ dir_slots (bpb s) (blocks (device s)) cs"
    by (simp add: dir_slots_def c)
  have "walk_loop dev (\<lambda>m a. Ok (y m a)) c buf (a, st) s =
      (if r then Some (Ok a', s)
       else walk_loop dev (\<lambda>m a. Ok (y m a)) (fat_of blocks s c) (concat (cluster_of blocks s c)) (a', st') s)"
    using c read walk_cluster [OF assms(1) c(3,4), of y a st] w assms(1)
      get_next_cluster_run [OF assms(1) data_cluster_capacity [OF assms(1) c(4)]]
    by (subst walk_loop.simps) (simp add: get_sector_by_cluster_run flip: slot_positions_def)
  then show ?case
    using Cons.IH [OF next_chain cluster_buffer_length [OF assms(1) c(3,4)], of a' st'] ya
    by (cases r) (simp_all add: slots parse_slots_append yield_all_append)
qed

lemma walk_run:
  assumes "wf s" and "data_chain blocks s c cs"
  shows "walk_file_meta_by_cluster dev c (\<lambda>m a. Ok (y m a)) a s
    = Some (Ok (snd (yield_all y (files_of blocks s cs) a)), s)"
  by (subst walk_file_meta_by_cluster_def, simp, subst walk_loop_run [OF assms])
     (simp_all add: walk_file_meta_by_cluster_def files_of_def dir_files_def walk_init_def mult.commute)

lemma get_all_run:
  assumes "wf s" and "data_chain blocks s c cs"
  shows "get_all_filemeta_by_cluster dev c s = Some (Ok (files_of blocks s cs), s)"
proof -
  have "yield_all (\<lambda>m files. (True, files @ [m])) ms a = (False, a @ ms)" for ms a
    by (induction ms arbitrary: a) simp_all
  moreover have "push_file = (\<lambda>m files. Ok (True, files @ [m]))"
    by (intro ext) (simp add: push_file_def)
  ultimately show ?thesis
    using walk_run [OF assms, of "\<lambda>m files. (True, files @ [m])" "[]"]
    by (simp add: get_all_filemeta_by_cluster_def)
qed

lemma lookup_run:
  assumes "wf s" and "data_chain blocks s c cs"
  shows "get_file_metadata_by_cluster dev c name s =
    (case find (is_named name) (files_of blocks s cs) of
       None \<Rightarrow> Some (Err FileNotFound, s) | Some m \<Rightarrow> Some (Ok (sorted_file m), s))"
proof -
  let ?y = "\<lambda>m file. if is_named name m then (False, Some (sorted_file m)) else (True, file)"
  have "snd (yield_all ?y ms a) = (case find (is_named name) ms of None \<Rightarrow> a | Some m \<Rightarrow> Some (sorted_file m))"
    for ms a
    by (induction ms arbitrary: a) auto
  moreover have "lookup_name name = (\<lambda>m file. Ok (?y m file))"
    by (intro ext) (simp add: lookup_name_def is_named_def sorted_file_def sort_long_Nil)
  ultimately show ?thesis
    using walk_run [OF assms, of ?y None]
    by (auto simp: get_file_metadata_by_cluster_def split: option.splits)
qed

end

end
