(* ===== verification/Fat32_Packed.thy ===== *)
theory Fat32_Packed
  imports Fat32_Dir
begin

text \<open>
  Directories that creation fills: every sector starts with the entries of whole files, each a
  non-empty group of long entries and a short one, and is empty behind them.  The lemmas compute the
  files such a directory spells and the place where \<open>create_file_meta\<close> puts a new one, and show that
  creation adds exactly the new file and keeps the directory packed.
\<close>

section \<open>Packed sectors\<close>

text \<open>A file of a sector: the UTF-16 units of its name and its short entry.\<close>

type_synonym file_group = "u16 list \<times> DirectoryEntryShort"

definition group_ok :: "file_group \<Rightarrow> bool" where
  "group_ok f \<longleftrightarrow> (case f of (us, e) \<Rightarrow>
     us \<noteq> [] \<and> length us \<le> 13 * 256 \<and> short_arrays_ok e \<and> de_attr e \<noteq> ATTR_LONG_NAME \<and>
     de_name e ! 0 \<noteq> 0 \<and> de_name e ! 0 \<noteq> 0xE5)"

definition group_slots :: "file_group \<Rightarrow> u8 list list" where
  "group_slots f = (case f of (us, e) \<Rightarrow> map long_encode (long_entries us) @ [short_encode e])"

definition zero_slot :: "u8 list" where
  "zero_slot = replicate DIRECTORY_ENTRY_SIZE 0"

definition used_slots :: "file_group list \<Rightarrow> u8 list list" where
  "used_slots fs = concat (map group_slots fs)"

definition packed_sector :: "nat \<Rightarrow> u8 list list \<Rightarrow> file_group list \<Rightarrow> bool" where
  "packed_sector n slots fs \<longleftrightarrow>
     (\<forall>f \<in> set fs. group_ok f) \<and> length (used_slots fs) \<le> n \<and>
     slots = used_slots fs @ replicate (n - length (used_slots fs)) zero_slot"

definition slots_at :: "nat \<Rightarrow> nat \<Rightarrow> nat \<Rightarrow> u8 list list \<Rightarrow> slot list" where
  "slots_at c sec j bytes = map (\<lambda>(k, b). (c, sec, k, b)) (enumerate j bytes)"

definition group_file :: "nat \<Rightarrow> nat \<Rightarrow> nat \<Rightarrow> file_group \<Rightarrow> Fat32FileMetadata" where
  "group_file c sec j f = (case f of (us, e) \<Rightarrow>
     \<lparr>fm_short = e, fm_long = long_entries us, fm_start_cluster = c, fm_start_sector = sec,
      fm_start_sector_offset = j, fm_short_cluster = c, fm_short_sector = sec,
      fm_short_sector_offset = j + length (long_entries us)\<rparr>)"

fun sector_files :: "nat \<Rightarrow> nat \<Rightarrow> nat \<Rightarrow> file_group list \<Rightarrow> Fat32FileMetadata list" where
  "sector_files c sec j [] = []"
| "sector_files c sec j (f # fs) =
     group_file c sec j f # sector_files c sec (j + length (group_slots f)) fs"

lemma slots_at_Nil [simp]: "slots_at c sec j [] = []"
  by (simp add: slots_at_def)

lemma slots_at_Cons [simp]: "slots_at c sec j (b # bs) = (c, sec, j, b) # slots_at c sec (Suc j) bs"
  by (simp add: slots_at_def)

lemma slots_at_append: "slots_at c sec j (xs @ ys) = slots_at c sec j xs @ slots_at c sec (j + length xs) ys"
  by (induction xs arbitrary: j) simp_all

lemma length_group_slots: "length (group_slots (us, e)) = length (long_entries us) + 1"
  by (simp add: group_slots_def)

lemma used_slots_Nil [simp]: "used_slots [] = []"
  by (simp add: used_slots_def)

lemma used_slots_Cons [simp]: "used_slots (f # fs) = group_slots f @ used_slots fs"
  by (simp add: used_slots_def)

lemma used_slots_snoc: "used_slots (fs @ [f]) = used_slots fs @ group_slots f"
  by (simp add: used_slots_def)

section \<open>Reading packed sectors\<close>

lemma long_encode_attr: "long_arrays_ok e \<Longrightarrow> long_encode e ! 11 = le_attr e"
  by (simp add: long_encode_def long_arrays_ok_def nth_append_skip)

lemma long_encode_0: "long_encode e ! 0 = le_order e"
  by (simp add: long_encode_def)

lemma short_encode_attr: "short_arrays_ok e \<Longrightarrow> short_encode e ! 11 = de_attr e"
  by (simp add: short_encode_def short_arrays_ok_def nth_append_skip)

lemma short_encode_0: "short_arrays_ok e \<Longrightarrow> short_encode e ! 0 = de_name e ! 0"
  by (simp add: short_encode_def short_arrays_ok_def nth_append)

lemma parse_long_slots:
  assumes "\<forall>e \<in> set es. long_arrays_ok e \<and> le_attr e = ATTR_LONG_NAME"
  shows "parse_slots st (slots_at c sec j (map long_encode es)) =
    ([], if es = [] then st
         else if ws_long st = []
         then st\<lparr>ws_start_cluster := c, ws_start_sector := sec, ws_start_sector_offset := j,
                 ws_long := es\<rparr>
         else st\<lparr>ws_long := ws_long st @ es\<rparr>)"
  using assms
proof (induction es arbitrary: st j)
  case (Cons e es)
  then show ?case
    by (auto simp: walk_entry_def Let_def long_encode_attr long_decode_encode case_prod_beta)
qed simp

lemma parse_group:
  assumes "group_ok f" and "ws_long st = []"
  shows "fst (parse_slots st (slots_at c sec j (group_slots f))) = [group_file c sec j f]"
    and "ws_long (snd (parse_slots st (slots_at c sec j (group_slots f)))) = []"
proof -
  obtain us e where f: "f = (us, e)" by (cases f)
  have e: "short_arrays_ok e" "de_attr e \<noteq> ATTR_LONG_NAME" "de_name e ! 0 \<noteq> 0" "de_name e ! 0 \<noteq> 0xE5"
    and us: "us \<noteq> []"
    using assms(1) by (auto simp: f group_ok_def)
  have long: "\<forall>l \<in> set (long_entries us). long_arrays_ok l \<and> le_attr l = ATTR_LONG_NAME"
    using long_entries_arrays long_entries_attr by blast
  have "parse_slots st (slots_at c sec j (group_slots f)) =
      ([group_file c sec j f],
       st\<lparr>ws_start_cluster := c, ws_start_sector := sec, ws_start_sector_offset := j, ws_long := []\<rparr>)"
    using e us assms(2)
    by (simp add: f group_slots_def slots_at_append parse_slots_append parse_long_slots [OF long]
        walk_entry_def short_encode_attr short_decode_encode group_file_def)
  then show "fst (parse_slots st (slots_at c sec j (group_slots f))) = [group_file c sec j f]"
    and "ws_long (snd (parse_slots st (slots_at c sec j (group_slots f)))) = []" by simp_all
qed

lemma parse_zero_slots:
  assumes "ws_long st = []"
  shows "parse_slots st (slots_at c sec j (replicate k zero_slot)) = ([], st)"
proof (induction k arbitrary: j)
  case (Suc k)
  have "walk_entry c sec j zero_slot st = (None, st)"
    using assms
    by (simp add: walk_entry_def zero_slot_def DIRECTORY_ENTRY_SIZE_def attr_defs short_decode_def slice_def)
  then show ?case using Suc by simp
qed simp

lemma parse_used_slots:
  assumes "\<forall>f \<in> set fs. group_ok f" and "ws_long st = []"
  shows "fst (parse_slots st (slots_at c sec j (used_slots fs))) = sector_files c sec j fs"
    and "ws_long (snd (parse_slots st (slots_at c sec j (used_slots fs)))) = []"
  using assms
proof (induction fs arbitrary: st j)
  case (Cons f fs)
  {
    case 1
    then show ?case
      using Cons.IH(1) parse_group [of f st c sec j] by (simp add: slots_at_append parse_slots_append)
  next
    case 2
    then show ?case
      using Cons.IH(2) parse_group [of f st c sec j] by (simp add: slots_at_append parse_slots_append)
  }
qed simp_all

lemma parse_packed_sector:
  assumes "packed_sector n slots fs" and "ws_long st = []"
  shows "fst (parse_slots st (slots_at c sec 0 slots)) = sector_files c sec 0 fs"
    and "ws_long (snd (parse_slots st (slots_at c sec 0 slots))) = []"
  using assms parse_used_slots [of fs st c sec 0]
  by (simp_all add: packed_sector_def slots_at_append parse_slots_append parse_zero_slots)

section \<open>The free room of a packed sector\<close>

lemma find_room_used:
  "xs \<noteq> [] \<Longrightarrow> \<forall>x \<in> set xs. x ! 0 \<noteq> 0 \<Longrightarrow>
   find_room need (xs @ rest) i start = find_room need rest (i + length xs) (i + length xs)"
proof (induction xs arbitrary: i start)
  case (Cons x xs)
  then show ?case by (cases xs) simp_all
qed simp

lemma find_room_zero:
  assumes "start \<le> i" and "i - start < need"
  shows "find_room need (replicate k zero_slot) i start = (if need \<le> i - start + k then Some start else None)"
  using assms
proof (induction k arbitrary: i)
  case (Suc k)
  have z: "zero_slot ! 0 = 0" by (simp add: zero_slot_def DIRECTORY_ENTRY_SIZE_def)
  show ?case
    using Suc.IH [of "i + 1"] Suc.prems by (auto simp: z Suc_diff_le)
qed simp

lemma find_room_group:
  assumes "group_ok f" and "2 \<le> need"
  shows "find_room need (group_slots f @ rest) i i
    = find_room need rest (i + length (group_slots f)) (i + length (group_slots f))"
proof -
  obtain us e where f: "f = (us, e)" by (cases f)
  let ?n = "(length us + 12) div 13"
  have us: "us \<noteq> []" "length us \<le> 13 * 256" and e: "short_encode e ! 0 \<noteq> 0"
    using assms(1) by (auto simp: f group_ok_def short_encode_0)
  have n: "0 < ?n" "?n \<le> 256" using us by (cases us, auto)
  let ?entry = "\<lambda>k. long_encode (long_entry k (slice (13 * k) 13 us))"
  have slots: "group_slots f = ?entry 0 # map ?entry [1..<?n] @ [short_encode e]"
    using n(1) by (simp add: f group_slots_def long_entries_def upt_conv_Cons comp_def)
  have first: "?entry 0 ! 0 = 0"
    by (simp add: long_encode_0 long_entry_def Let_def)
  have "?entry k ! 0 \<noteq> 0" if "k \<in> set [1..<?n]" for k
  proof -
    have "unat (of_nat k :: u8) = k" using that n(2) by (intro unat_u8_of_nat) simp
    then have "(of_nat k :: u8) \<noteq> 0" using that by (metis atLeastLessThan_iff not_one_le_zero set_upt unsigned_0)
    then show ?thesis by (simp add: long_encode_0 long_entry_def Let_def)
  qed
  then have "find_room need ((map ?entry [1..<?n] @ [short_encode e]) @ rest) (i + 1) i
      = find_room need rest (i + 1 + ?n) (i + 1 + ?n)"
    using e n(1) find_room_used [of "map ?entry [1..<?n] @ [short_encode e]" need rest "i + 1" i]
    by auto
  then show ?thesis using first assms(2) n(1) by (simp add: slots)
qed

lemma find_room_packed:
  assumes "packed_sector n slots fs" and "2 \<le> need"
  shows "find_room need slots 0 0 =
    (if length (used_slots fs) + need \<le> n then Some (length (used_slots fs)) else None)"
proof -
  have "find_room need (used_slots fs @ rest) i i =
      find_room need rest (i + length (used_slots fs)) (i + length (used_slots fs))"
    if "\<forall>f \<in> set fs. group_ok f" for i rest
    using that
  proof (induction fs arbitrary: i)
    case (Cons f fs)
    then show ?case using assms(2) by (simp add: find_room_group add.assoc)
  qed simp
  then show ?thesis
    using assms by (auto simp: packed_sector_def find_room_zero)
qed

section \<open>Packed directories\<close>

abbreviation sector_entries :: "BPB \<Rightarrow> nat" where
  "sector_entries b \<equiv> bytes_per_sector b div DIRECTORY_ENTRY_SIZE"

text \<open>\<open>F c i\<close> are the files in sector \<open>i\<close> of cluster \<open>c\<close>.\<close>

definition packed_dir ::
  "BPB \<Rightarrow> u8 list list \<Rightarrow> nat list \<Rightarrow> (nat \<Rightarrow> nat \<Rightarrow> file_group list) \<Rightarrow> bool" where
  "packed_dir b bl cs F \<longleftrightarrow>
    (\<forall>c \<in> set cs. \<forall>i < sectors_per_cluster b.
       packed_sector (sector_entries b)
         (entry_slots (sector_entries b) (cluster_get b bl c ! i)) (F c i))"

definition packed_files :: "BPB \<Rightarrow> nat list \<Rightarrow> (nat \<Rightarrow> nat \<Rightarrow> file_group list) \<Rightarrow> Fat32FileMetadata list" where
  "packed_files b cs F =
     concat (map (\<lambda>(c, i). sector_files c (cluster_sector b c + i) 0 (F c i))
       (List.product cs [0..<sectors_per_cluster b]))"

lemma slots_at_entry_slots:
  "slots_at c sec 0 (entry_slots n block) =
   map (\<lambda>j. (c, sec, j, slice (j * DIRECTORY_ENTRY_SIZE) DIRECTORY_ENTRY_SIZE block)) [0..<n]"
  by (intro nth_equalityI) (simp_all add: slots_at_def entry_slots_def enumerate_eq_zip)

lemma dir_slots_sectors:
  "dir_slots b bl cs =
     concat (map (\<lambda>(c, i). slots_at c (cluster_sector b c + i) 0
       (entry_slots (sector_entries b) (bl ! (cluster_sector b c + i))))
       (List.product cs [0..<sectors_per_cluster b]))"
  by (induction cs)
     (simp_all add: dir_slots_def cluster_slots_def slot_positions_def slot_at_def
       slots_at_entry_slots product_concat_map map_concat comp_def)

lemma parse_concat:
  assumes "\<And>x st. x \<in> set xs \<Longrightarrow> ws_long st = [] \<Longrightarrow>
      fst (parse_slots st (h x)) = g x \<and> ws_long (snd (parse_slots st (h x))) = []"
    and "ws_long st = []"
  shows "fst (parse_slots st (concat (map h xs))) = concat (map g xs)"
  using assms
proof (induction xs arbitrary: st)
  case (Cons x xs)
  have x: "fst (parse_slots st (h x)) = g x" "ws_long (snd (parse_slots st (h x))) = []"
    using Cons.prems by auto
  have "fst (parse_slots (snd (parse_slots st (h x))) (concat (map h xs))) = concat (map g xs)"
    using Cons.prems x(2) by (intro Cons.IH) auto
  then show ?case using x(1) by (simp add: parse_slots_append)
qed simp

lemma dir_files_packed:
  assumes "packed_dir b bl cs F" and "\<forall>c \<in> set cs. cluster_sector b c + sectors_per_cluster b \<le> length bl"
  shows "dir_files b bl cs = packed_files b cs F"
  unfolding dir_files_def dir_slots_sectors packed_files_def
proof (rule parse_concat)
  fix x and st :: walk_state
  assume "x \<in> set (List.product cs [0..<sectors_per_cluster b])" and st: "ws_long st = []"
  then obtain c i where x: "x = (c, i)" "c \<in> set cs" "i < sectors_per_cluster b" by auto
  then have "packed_sector (sector_entries b)
      (entry_slots (sector_entries b) (bl ! (cluster_sector b c + i))) (F c i)"
    using assms by (simp add: packed_dir_def cluster_get_def slice_nth)
  from parse_packed_sector [OF this st, of c "cluster_sector b c + i"]
  show "fst (parse_slots st (case x of (c, i) \<Rightarrow> slots_at c (cluster_sector b c + i) 0
        (entry_slots (sector_entries b) (bl ! (cluster_sector b c + i)))))
      = (case x of (c, i) \<Rightarrow> sector_files c (cluster_sector b c + i) 0 (F c i)) \<and>
    ws_long (snd (parse_slots st (case x of (c, i) \<Rightarrow> slots_at c (cluster_sector b c + i) 0
        (entry_slots (sector_entries b) (bl ! (cluster_sector b c + i)))))) = []"
    by (simp add: x(1))
qed (simp add: walk_init_def)

section \<open>Adding a file\<close>

lemma sector_files_append:
  "sector_files c sec j (fs @ gs) = sector_files c sec j fs @ sector_files c sec (j + length (used_slots fs)) gs"
  by (induction fs arbitrary: j) (simp_all add: add.assoc)

lemma chunks_patch_slots:
  assumes "\<And>y. y \<in> set ys \<Longrightarrow> length y = k" and "i + length ys \<le> n" and "n * k \<le> length xs"
  shows "chunks k n (patch (i * k) (concat ys) xs) = patch i ys (chunks k n xs)"
  using assms
proof (induction ys rule: rev_induct)
  case (snoc y ys)
  have lenc: "length (concat ys) = length ys * k" using snoc.prems by (intro length_concat_uniform) auto
  have fit: "i * k + length ys * k + k \<le> length xs"
    using chunk_bound [of "i + length ys" n k "length xs"] snoc.prems by (simp add: algebra_simps)
  have "chunks k n (patch (i * k) (concat (ys @ [y])) xs)
      = chunks k n (patch ((i + length ys) * k) y (patch (i * k) (concat ys) xs))"
    using fit lenc snoc.prems(1) patch_patch_append [of "i * k" "concat ys" y xs]
    by (simp add: algebra_simps)
  also have "\<dots> = (chunks k n (patch (i * k) (concat ys) xs))[i + length ys := y]"
    using snoc.prems fit lenc by (intro chunks_patch) auto
  also have "\<dots> = patch i (ys @ [y]) (chunks k n xs)"
    using snoc patch_patch_append [of i ys "[y]" "chunks k n xs"]
    by (simp flip: patch_singleton)
  finally show ?case .
qed simp

lemma group_slots_length: "group_ok f \<Longrightarrow> x \<in> set (group_slots f) \<Longrightarrow> length x = DIRECTORY_ENTRY_SIZE"
  by (auto simp: group_slots_def group_ok_def DIRECTORY_ENTRY_SIZE_def long_encode_length
      short_encode_length dest: long_entries_arrays split: prod.splits)

lemma patch_replicate_tail:
  "length ys \<le> m \<Longrightarrow> patch (length xs) ys (xs @ replicate m z) = (xs @ ys) @ replicate (m - length ys) z"
  by (simp add: patch_def)

lemma packed_sector_add:
  assumes "packed_sector n (entry_slots n block) fs" and "group_ok f"
    and "length (used_slots fs) + length (group_slots f) \<le> n"
    and "n * DIRECTORY_ENTRY_SIZE \<le> length block"
  shows "packed_sector n
    (entry_slots n (patch (length (used_slots fs) * DIRECTORY_ENTRY_SIZE) (concat (group_slots f)) block))
    (fs @ [f])"
proof -
  have "entry_slots n (patch (length (used_slots fs) * DIRECTORY_ENTRY_SIZE) (concat (group_slots f)) block)
      = patch (length (used_slots fs)) (group_slots f) (entry_slots n block)"
    unfolding entry_slots_def
    using assms group_slots_length [OF assms(2)] by (intro chunks_patch_slots) auto
  then show ?thesis
    using assms patch_replicate_tail [of "group_slots f" "n - length (used_slots fs)" "used_slots fs" zero_slot]
    by (auto simp: packed_sector_def used_slots_snoc)
qed

section \<open>Creation in a packed directory\<close>

text \<open>The metadata of a file is that of a group.\<close>

definition meta_of_group :: "Fat32FileMetadata \<Rightarrow> file_group \<Rightarrow> bool" where
  "meta_of_group m f \<longleftrightarrow> fm_long m = long_entries (fst f) \<and> fm_short m = snd f \<and> group_ok f"

lemma file_entries_group: "meta_of_group m f \<Longrightarrow> file_entries m = concat (group_slots f)"
  by (auto simp: meta_of_group_def file_entries_def group_slots_def split: prod.split)

lemma meta_need: "meta_of_group m f \<Longrightarrow> length (fm_long m) + 1 = length (group_slots f)"
  by (auto simp: meta_of_group_def group_slots_def split: prod.split)

lemma group_slots_need:
  assumes "group_ok f"
  shows "2 \<le> length (group_slots f)"
    and "length (concat (group_slots f)) = length (group_slots f) * DIRECTORY_ENTRY_SIZE"
proof -
  have "fst f \<noteq> []" using assms by (auto simp: group_ok_def)
  then have "long_entries (fst f) \<noteq> []" by simp
  then show "2 \<le> length (group_slots f)"
    by (cases "long_entries (fst f)") (auto simp: group_slots_def split: prod.split)
  show "length (concat (group_slots f)) = length (group_slots f) * DIRECTORY_ENTRY_SIZE"
    using group_slots_length [OF assms] by (rule length_concat_uniform)
qed

text \<open>A sector's block with a file added behind \<open>fs\<close>.\<close>

definition add_file :: "file_group list \<Rightarrow> file_group \<Rightarrow> u8 list \<Rightarrow> u8 list" where
  "add_file fs f block = patch (length (used_slots fs) * DIRECTORY_ENTRY_SIZE) (concat (group_slots f)) block"

definition has_room :: "BPB \<Rightarrow> (nat \<Rightarrow> nat \<Rightarrow> file_group list) \<Rightarrow> file_group \<Rightarrow> nat \<times> nat \<Rightarrow> bool" where
  "has_room b F f = (\<lambda>(c, i). length (used_slots (F c i)) + length (group_slots f) \<le> sector_entries b)"

definition put_file ::
  "(nat \<Rightarrow> nat \<Rightarrow> file_group list) \<Rightarrow> nat \<Rightarrow> nat \<Rightarrow> file_group \<Rightarrow> nat \<Rightarrow> nat \<Rightarrow> file_group list" where
  "put_file F c i f = F(c := (F c)(i := F c i @ [f]))"

lemma packed_files_put:
  assumes "distinct cs" and "c \<in> set cs" and "i < sectors_per_cluster b"
  shows "\<exists>xs ys. packed_files b cs F = xs @ ys \<and> packed_files b cs (put_file F c i f) =
    xs @ [group_file c (cluster_sector b c + i) (length (used_slots (F c i))) f] @ ys"
proof -
  let ?P = "List.product cs [0..<sectors_per_cluster b]"
  let ?g = "\<lambda>F (c, i). sector_files c (cluster_sector b c + i) 0 (F c i)"
  have "(c, i) \<in> set ?P" using assms by auto
  then obtain A B where P: "?P = A @ (c, i) # B" by (meson split_list)
  have "distinct ?P" using assms(1) by (simp add: distinct_product)
  then have notin: "(c, i) \<notin> set A" "(c, i) \<notin> set B" unfolding P by auto
  have same: "map (?g (put_file F c i f)) X = map (?g F) X" if "(c, i) \<notin> set X" for X
    using that by (intro map_cong refl) (auto simp: put_file_def)
  have "packed_files b cs F = concat (map (?g F) A) @ sector_files c (cluster_sector b c + i) 0 (F c i)
      @ concat (map (?g F) B)"
    by (simp add: packed_files_def P)
  moreover have "packed_files b cs (put_file F c i f) = concat (map (?g F) A)
      @ (sector_files c (cluster_sector b c + i) 0 (F c i)
         @ [group_file c (cluster_sector b c + i) (length (used_slots (F c i))) f])
      @ concat (map (?g F) B)"
    unfolding packed_files_def P map_append list.map concat_append concat.simps
      same [OF notin(1)] same [OF notin(2)]
    by (simp add: put_file_def sector_files_append)
  ultimately show ?thesis
    by (intro exI [of _ "concat (map (?g F) A) @ sector_files c (cluster_sector b c + i) 0 (F c i)"]
        exI [of _ "concat (map (?g F) B)"]) (simp only: append_assoc simp_thms)
qed

lemma packed_files_new:
  assumes "c \<notin> set cs" and "0 < sectors_per_cluster b"
  shows "packed_files b (cs @ [c]) (F(c := (\<lambda>_. [])(0 := [f]))) =
    packed_files b cs F @ [group_file c (cluster_sector b c) 0 f]"
proof -
  let ?F = "F(c := (\<lambda>_. [])(0 := [f]))"
  let ?g = "\<lambda>F (c, i). sector_files c (cluster_sector b c + i) 0 (F c i)"
  have spc: "[0..<sectors_per_cluster b] = 0 # [1..<sectors_per_cluster b]"
    using assms(2) by (simp add: upt_conv_Cons)
  have "map (?g ?F) (map (Pair c) [1..<sectors_per_cluster b]) = map (\<lambda>_. []) [1..<sectors_per_cluster b]"
    by (auto simp: comp_def)
  then have new: "concat (map (?g ?F) (map (Pair c) [0..<sectors_per_cluster b])) =
      [group_file c (cluster_sector b c) 0 f]"
    unfolding spc by (simp add: comp_def del: map_map)
  have prod: "List.product (cs @ [c]) ys = List.product cs ys @ map (Pair c) ys" for ys :: "nat list"
    by (induction cs) simp_all
  have "map (?g ?F) (List.product cs [0..<sectors_per_cluster b]) = map (?g F) (List.product cs [0..<sectors_per_cluster b])"
    using assms(1) by (intro map_cong refl) auto
  then show ?thesis using new unfolding packed_files_def prod map_append concat_append by (simp only:)
qed

lemma packed_dir_put:
  assumes "packed_dir b bl cs F" and "group_ok f" and "has_room b F f (c, i)"
    and "i < sectors_per_cluster b" and "c \<in> set cs"
    and "\<And>k. k \<in> set cs \<Longrightarrow> k \<noteq> c \<Longrightarrow> cluster_get b bl' k = cluster_get b bl k"
    and "cluster_get b bl' c = (cluster_get b bl c)[i := add_file (F c i) f (cluster_get b bl c ! i)]"
    and "length (cluster_get b bl c) = sectors_per_cluster b"
    and "sector_entries b * DIRECTORY_ENTRY_SIZE \<le> length (cluster_get b bl c ! i)"
  shows "packed_dir b bl' cs (put_file F c i f)"
proof -
  have "packed_sector (sector_entries b) (entry_slots (sector_entries b)
      (add_file (F c i) f (cluster_get b bl c ! i))) (F c i @ [f])"
    unfolding add_file_def
    using assms by (intro packed_sector_add) (auto simp: packed_dir_def has_room_def)
  then show ?thesis
    using assms by (auto simp: packed_dir_def put_file_def nth_list_update)
qed

lemma packed_zero_block:
  "n * DIRECTORY_ENTRY_SIZE \<le> bs \<Longrightarrow> packed_sector n (entry_slots n (replicate bs 0)) []"
proof -
  assume fit: "n * DIRECTORY_ENTRY_SIZE \<le> bs"
  have "entry_slots n (replicate bs 0) = replicate n zero_slot"
    unfolding entry_slots_def zero_slot_def
    using chunk_bound [OF _ fit] by (intro nth_equalityI) (simp_all add: slice_replicate)
  then show ?thesis by (simp add: packed_sector_def)
qed

lemma packed_dir_new:
  assumes "packed_dir b bl cs F" and "group_ok f" and "c \<notin> set cs"
    and "length (group_slots f) \<le> sector_entries b" and "sector_entries b * DIRECTORY_ENTRY_SIZE \<le> bs"
    and "\<And>k. k \<in> set cs \<Longrightarrow> cluster_get b bl' k = cluster_get b bl k"
    and "cluster_get b bl' c = (replicate (sectors_per_cluster b) (replicate bs 0))[0 := add_file [] f (replicate bs 0)]"
  shows "packed_dir b bl' (cs @ [c]) (F(c := (\<lambda>_. [])(0 := [f])))"
proof -
  have "packed_sector (sector_entries b) (entry_slots (sector_entries b) (add_file [] f (replicate bs 0))) ([] @ [f])"
    unfolding add_file_def
    using assms packed_zero_block [OF assms(5)] by (intro packed_sector_add) auto
  then show ?thesis
    using assms packed_zero_block [OF assms(5)] by (auto simp: packed_dir_def nth_list_update)
qed

lemma is_chain_append_link:
  "is_chain f d cs \<Longrightarrow> cs \<noteq> [] \<Longrightarrow> c \<notin> set cs \<Longrightarrow> in_chain c \<Longrightarrow> \<not> in_chain e \<Longrightarrow>
   is_chain (f(c := e, last cs := c)) d (cs @ [c])"
proof (induction cs arbitrary: d)
  case (Cons x xs)
  show ?case
  proof (cases "xs = []")
    case True
    then show ?thesis using Cons by auto
  next
    case False
    have "d \<noteq> last xs"
      using is_chain_distinct [OF Cons.prems(1)] Cons.prems(1) False last_in_set by fastforce
    then show ?thesis using Cons False by auto
  qed
qed simp

definition packed_directory ::
  "'d block_device \<Rightarrow> ('d \<Rightarrow> u8 list list) \<Rightarrow> ('d \<Rightarrow> bool) \<Rightarrow> 'd Fat32Inner \<Rightarrow> nat \<Rightarrow> nat list
    \<Rightarrow> (nat \<Rightarrow> nat \<Rightarrow> file_group list) \<Rightarrow> bool" where
  "packed_directory dev blocks dinv s d cs F \<longleftrightarrow>
     fs_wf dev blocks dinv s \<and> data_chain blocks s d cs \<and> cs \<noteq> [] \<and>
     (\<forall>x \<in> set cs. fat_of blocks s x \<noteq> FAT_ENTRY_FREE) \<and>
     packed_dir (bpb s) (blocks (device s)) cs F"

text \<open>
  The outcome of a creation in the directory \<open>d\<close> with clusters \<open>cs\<close>: the files are those before
  with one more, which has the new entries; the directory grows by free clusters only; nothing
  outside it changes.
\<close>

definition file_added ::
  "'d block_device \<Rightarrow> ('d \<Rightarrow> u8 list list) \<Rightarrow> ('d \<Rightarrow> bool) \<Rightarrow> nat \<Rightarrow> nat list \<Rightarrow> Fat32FileMetadata
    \<Rightarrow> 'd Fat32Inner \<Rightarrow> 'd Fat32Inner \<Rightarrow> bool" where
  "file_added dev blocks dinv d cs m s s' \<longleftrightarrow>
    (\<exists>new F' xs p ys.
       packed_directory dev blocks dinv s' d (cs @ new) F' \<and> count_ok blocks s' \<and>
       files_of blocks s cs = xs @ ys \<and> files_of blocks s' (cs @ new) = xs @ [p] @ ys \<and>
       fm_short p = fm_short m \<and> fm_long p = fm_long m \<and>
       set new \<subseteq> free_clusters blocks s \<and> bpb s' = bpb s \<and> max_cluster s' = max_cluster s \<and>
       occupied_file s' = occupied_file s \<and>
       (\<forall>k \<ge> 2. k \<notin> set (cs @ new) \<longrightarrow> cluster_of blocks s' k = cluster_of blocks s k) \<and>
       (\<forall>k < fat_capacity (bpb s). k \<notin> set (cs @ new) \<longrightarrow> fat_of blocks s' k = fat_of blocks s k))"

context reliable_device
begin

lemma sector_entries_fit:
  assumes "wf s"
  shows "sector_entries (bpb s) * DIRECTORY_ENTRY_SIZE \<le> block_size dev (device s)"
proof -
  have "sector_entries (bpb s) * DIRECTORY_ENTRY_SIZE \<le> bytes_per_sector (bpb s)"
    by (rule div_times_less_eq_dividend)
  also have "\<dots> \<le> block_size dev (device s)"
    using wf_geometry [OF assms] by (simp add: fat32_geometry_def)
  finally show ?thesis .
qed

lemma sector_slots_of_buffer:
  assumes "wf s" and "2 \<le> c" and "c < max_cluster s + 2" and "i < sectors_per_cluster (bpb s)"
  shows "entry_slots (sector_entries (bpb s))
      (drop (i * block_size dev (device s)) (concat (cluster_of blocks s c)))
    = entry_slots (sector_entries (bpb s)) (cluster_of blocks s c ! i)"
proof -
  let ?bs = "block_size dev (device s)"
  have "slice (j * DIRECTORY_ENTRY_SIZE) DIRECTORY_ENTRY_SIZE (drop (i * ?bs) (concat (cluster_of blocks s c)))
      = slice (j * DIRECTORY_ENTRY_SIZE) DIRECTORY_ENTRY_SIZE (cluster_of blocks s c ! i)"
    if "j < sector_entries (bpb s)" for j
  proof -
    have "j * DIRECTORY_ENTRY_SIZE + DIRECTORY_ENTRY_SIZE \<le> ?bs"
      using chunk_bound [OF that] sector_entries_fit [OF assms(1)] by simp
    then have "slice (i * ?bs + j * DIRECTORY_ENTRY_SIZE) DIRECTORY_ENTRY_SIZE (concat (cluster_of blocks s c))
        = slice (j * DIRECTORY_ENTRY_SIZE) DIRECTORY_ENTRY_SIZE (cluster_of blocks s c ! i)"
      using assms(4) cluster_blocks_length [OF assms(1-3)] by (intro slice_in_concat) auto
    then show ?thesis
      by (simp add: slice_def [of _ _ "drop _ _"] slice_def [of "_ + _"] add.commute)
  qed
  then show ?thesis by (simp add: entry_slots_def chunks_def)
qed

lemma create_in_sector_run:
  assumes "wf s" and "2 \<le> c" and "c < max_cluster s + 2" and "i < sectors_per_cluster (bpb s)"
    and packed: "packed_sector (sector_entries (bpb s))
      (entry_slots (sector_entries (bpb s)) (cluster_of blocks s c ! i)) (F c i)"
    and m: "meta_of_group m f"
  shows "if has_room (bpb s) F f (c, i)
    then returns (create_in_sector dev m (cluster_sector (bpb s) c) (concat (cluster_of blocks s c)) i False s)
      (\<lambda>r s'. r \<and> data_step dev blocks dinv c
         ((cluster_of blocks s c)[i := add_file (F c i) f (cluster_of blocks s c ! i)]) s s')
    else create_in_sector dev m (cluster_sector (bpb s) c) (concat (cluster_of blocks s c)) i False s
      = Some (Ok False, s)"
proof -
  let ?bs = "block_size dev (device s)" and ?buf = "concat (cluster_of blocks s c)"
  let ?n = "sector_entries (bpb s)" and ?sec = "cluster_sector (bpb s) c"
  let ?used = "length (used_slots (F c i))"
  have len: "length ?buf = sectors_per_cluster (bpb s) * ?bs" by (rule cluster_buffer_length [OF assms(1-3)])
  have fit: "i * ?bs + ?bs \<le> length ?buf" using chunk_bound [OF assms(4)] len by simp
  have bound: "i * ?bs + ?n * DIRECTORY_ENTRY_SIZE \<le> length ?buf"
    using fit sector_entries_fit [OF assms(1)] by simp
  have g: "group_ok f" using m by (simp add: meta_of_group_def)
  have room: "find_room (length (fm_long m) + 1) (entry_slots ?n (drop (i * ?bs) ?buf)) 0 0 =
      (if ?used + length (group_slots f) \<le> ?n then Some ?used else None)"
    unfolding sector_slots_of_buffer [OF assms(1-4)] meta_need [OF m]
    using packed group_slots_need(1) [OF g] by (rule find_room_packed)
  show ?thesis
  proof (cases "?used + length (group_slots f) \<le> ?n")
    case False
    then show ?thesis using room bound by (simp add: create_in_sector_def has_room_def)
  next
    case True
    have "(?used + length (group_slots f)) * DIRECTORY_ENTRY_SIZE \<le> ?n * DIRECTORY_ENTRY_SIZE"
      using True by (rule mult_le_mono1)
    then have off: "?used * DIRECTORY_ENTRY_SIZE + length (concat (group_slots f)) \<le> ?bs"
      using sector_entries_fit [OF assms(1)] by (simp add: group_slots_need(2) [OF g] add_mult_distrib)
    have old: "slice (i * ?bs) ?bs ?buf = cluster_of blocks s c ! i"
      using cluster_blocks_length [OF assms(1-3)] assms(4) by (intro slice_concat_uniform) auto
    have new: "slice (i * ?bs) ?bs (patch (i * ?bs + ?used * DIRECTORY_ENTRY_SIZE) (concat (group_slots f)) ?buf)
        = add_file (F c i) f (cluster_of blocks s c ! i)"
      unfolding add_file_def old [symmetric] using off fit by (rule slice_patch_inside)
    have "length (cluster_of blocks s c ! i) = ?bs"
      using cluster_blocks_length [OF assms(1-3)] assms(4) by simp
    then have "length (add_file (F c i) f (cluster_of blocks s c ! i)) = ?bs"
      using off by (simp add: add_file_def)
    from write_cluster_block_step [OF assms(1-4) this] show ?thesis
      using True room bound fit off new m
      by (simp add: create_in_sector_def has_room_def Let_def run_simps file_entries_group returns_bind_iff
          algebra_simps)
  qed
qed

lemma for_each_created:
  "for_each is (create_in_sector dev m sec buf) True s = Some (Ok True, s)"
  by (induction "is") (simp_all add: create_in_sector_def)

abbreviation added ::
  "'d Fat32Inner \<Rightarrow> (nat \<Rightarrow> nat \<Rightarrow> file_group list) \<Rightarrow> file_group \<Rightarrow> nat \<Rightarrow> nat \<Rightarrow> 'd Fat32Inner \<Rightarrow> bool" where
  "added s F f c i \<equiv> data_step dev blocks dinv c
     ((cluster_of blocks s c)[i := add_file (F c i) f (cluster_of blocks s c ! i)]) s"

lemma create_in_cluster_run:
  assumes "wf s" and "2 \<le> c" and "c < max_cluster s + 2"
    and packed: "packed_dir (bpb s) (blocks (device s)) [c] F" and m: "meta_of_group m f"
    and "set is \<subseteq> {..<sectors_per_cluster (bpb s)}"
  shows "case find (has_room (bpb s) F f) (map (Pair c) is) of
      None \<Rightarrow> for_each is (create_in_sector dev m (cluster_sector (bpb s) c) (concat (cluster_of blocks s c))) False s
        = Some (Ok False, s)
    | Some (c', i) \<Rightarrow> returns (for_each is (create_in_sector dev m (cluster_sector (bpb s) c)
          (concat (cluster_of blocks s c))) False s) (\<lambda>r s'. r \<and> c' = c \<and> added s F f c i s')"
  using assms(6)
proof (induction "is")
  case (Cons i "is")
  have i: "i < sectors_per_cluster (bpb s)" using Cons.prems by simp
  have "packed_sector (sector_entries (bpb s))
      (entry_slots (sector_entries (bpb s)) (cluster_of blocks s c ! i)) (F c i)"
    using packed i by (simp add: packed_dir_def)
  note run = create_in_sector_run [where F = F, OF assms(1-3) i this m]
  show ?case
  proof (cases "has_room (bpb s) F f (c, i)")
    case True
    then have "returns (for_each (i # is) (create_in_sector dev m (cluster_sector (bpb s) c)
          (concat (cluster_of blocks s c))) False s) (\<lambda>r s'. r \<and> added s F f c i s')"
      using run by (auto simp: returns_bind_iff for_each_created elim!: returns_mono)
    then show ?thesis using True by simp
  next
    case False
    then show ?thesis using run Cons by (auto split: option.splits)
  qed
qed simp

lemma create_loop_run:
  assumes "wf s" and "data_chain blocks s c cs" and "packed_dir (bpb s) (blocks (device s)) cs F"
    and m: "meta_of_group m f" and "length buf = sectors_per_cluster (bpb s) * block_size dev (device s)"
  shows "case find (has_room (bpb s) F f) (List.product cs [0..<sectors_per_cluster (bpb s)]) of
      None \<Rightarrow> create_loop dev m l c buf s = Some (Ok (Some (if cs = [] then l else last cs)), s)
    | Some (c', i) \<Rightarrow> returns (create_loop dev m l c buf s)
        (\<lambda>r s'. r = None \<and> added s F f c' i s')"
  using assms(2,3,5)
proof (induction cs arbitrary: c l buf)
  case Nil
  then show ?case by (subst create_loop.simps) (simp add: data_chain_Nil)
next
  case (Cons x cs)
  let ?spc = "sectors_per_cluster (bpb s)"
  have c: "x = c" "in_chain c" "2 \<le> c" "c < max_cluster s + 2"
    and chain: "data_chain blocks s (fat_of blocks s c) cs"
    and packed: "packed_dir (bpb s) (blocks (device s)) [c] F" "packed_dir (bpb s) (blocks (device s)) cs F"
    using Cons.prems by (auto simp: data_chain_Cons packed_dir_def)
  have read: "io (read_blocks dev (cluster_sector (bpb s) c) ?spc buf) s
      = Some (Ok (concat (cluster_of blocks s c)), s)"
    using cluster_range [OF assms(1) c(3,4)] Cons.prems(3) assms(1)
    by (simp add: io_read_blocks cluster_get_def)
  have prod: "List.product (x # cs) [0..<?spc] = map (Pair c) [0..<?spc] @ List.product cs [0..<?spc]"
    by (simp add: c)
  have "set [0..<?spc] \<subseteq> {..<?spc}" by auto
  note here = create_in_cluster_run [OF assms(1) c(3,4) packed(1) m this]
  show ?case
  proof (cases "find (has_room (bpb s) F f) (map (Pair c) [0..<?spc])")
    case None
    then have "for_each [0..<?spc] (create_in_sector dev m (cluster_sector (bpb s) c)
        (concat (cluster_of blocks s c))) False s = Some (Ok False, s)"
      using here by simp
    then have "create_loop dev m l c buf s
        = create_loop dev m c (fat_of blocks s c) (concat (cluster_of blocks s c)) s"
      using c(2-4) read assms(1) get_next_cluster_run [OF assms(1) data_cluster_capacity [OF assms(1) c(4)]]
      by (subst create_loop.simps) (simp add: get_sector_by_cluster_run)
    then show ?thesis
      using None Cons.IH [OF chain packed(2) cluster_buffer_length [OF assms(1) c(3,4)], of c]
      unfolding prod find_append by (auto simp: c(1) split: option.splits)
  next
    case (Some p)
    then obtain c' i where p: "p = (c', i)" by (cases p)
    have "returns (for_each [0..<?spc] (create_in_sector dev m (cluster_sector (bpb s) c)
          (concat (cluster_of blocks s c))) False s) (\<lambda>r s'. r \<and> c' = c \<and> added s F f c i s')"
      using here Some p by auto
    then have "returns (create_loop dev m l c buf s) (\<lambda>r s'. r = None \<and> added s F f c' i s')"
      using c read assms(1)
      by (subst create_loop.simps) (auto simp: get_sector_by_cluster_run returns_bind_iff elim!: returns_mono)
    then show ?thesis using Some p unfolding prod find_append by simp
  qed
qed

lemma create_in_new_cluster_run:
  assumes "wf s" and "count_ok blocks s" and "free_clusters blocks s \<noteq> {}" and m: "meta_of_group m f"
    and fit: "length (group_slots f) \<le> sector_entries (bpb s)"
    and l: "l < fat_capacity (bpb s)" "fat_of blocks s l \<noteq> FAT_ENTRY_FREE"
  shows "returns (create_in_new_cluster dev m l s) (\<lambda>_ s'. count_ok blocks s' \<and>
    (\<exists>c \<in> free_clusters blocks s. fs_step dev blocks dinv
       ((fat_of blocks s)(c := FAT_ENTRY_EOC_START, l := c))
       ((cluster_of blocks s)(c := (replicate (sectors_per_cluster (bpb s))
          (replicate (block_size dev (device s)) 0))[0 := add_file [] f (replicate (block_size dev (device s)) 0)]))
       s s'))"
proof -
  let ?z = "replicate (block_size dev (device s)) 0" and ?spc = "sectors_per_cluster (bpb s)"
  obtain c s1 where r1: "find_available_cluster dev s = Some (Ok c, s1)" and c: "c \<in> free_clusters blocks s"
    and ok1: "count_ok blocks s1"
    and st1: "table_step dev blocks dinv ((fat_of blocks s)(c := FAT_ENTRY_EOC_START))
         (\<lambda>i. i\<lparr>fi_free_cluster_count := fi_free_cluster_count i - 1\<rparr>) s s1"
    using find_available_cluster_some [OF assms(1-3)] by (auto elim!: returnsE)
  have f1: "wf s1" "bpb s1 = bpb s" "max_cluster s1 = max_cluster s" "block_size dev (device s1) = block_size dev (device s)"
    using st1 by (auto simp: table_step_def)
  have cr: "2 \<le> c" "c < max_cluster s1 + 2" using c f1(3) by (auto simp: free_clusters_def)
  obtain s2 where r2: "io (write_zeros dev (cluster_sector (bpb s) c) ?spc) s1 = Some (Ok (), s2)"
    and st2: "data_step dev blocks dinv c (replicate ?spc ?z) s1 s2"
    using zero_cluster_step [OF f1(1) cr] by (auto simp: f1 elim!: returnsE)
  have f2: "wf s2" "bpb s2 = bpb s" "max_cluster s2 = max_cluster s" "block_size dev (device s2) = block_size dev (device s)"
    using st2 f1 by (auto simp: data_step_def)
  have spc: "0 < sectors_per_cluster (bpb s2)" using wf_geometry [OF f2(1)] by (simp add: fat32_geometry_def)
  have g: "group_ok f" using m by (simp add: meta_of_group_def)
  have "length (group_slots f) * DIRECTORY_ENTRY_SIZE \<le> sector_entries (bpb s) * DIRECTORY_ENTRY_SIZE"
    using fit by (rule mult_le_mono1)
  also have "\<dots> \<le> block_size dev (device s)" by (rule sector_entries_fit [OF assms(1)])
  finally have len: "length (add_file [] f ?z) = block_size dev (device s2)"
    using f2 by (simp add: add_file_def group_slots_need(2) [OF g])
  obtain s3 where r3: "io (write_block dev (cluster_sector (bpb s) c) (add_file [] f ?z)) s2 = Some (Ok (), s3)"
    and st3: "data_step dev blocks dinv c ((cluster_of blocks s2 c)[0 := add_file [] f ?z]) s2 s3"
    using write_cluster_block_step [OF f2(1) cr(1) _ spc len] cr f1 f2 by (auto elim!: returnsE)
  have f3: "wf s3" "bpb s3 = bpb s" "max_cluster s3 = max_cluster s"
    using st3 f2 by (auto simp: data_step_def)
  have ok3: "count_ok blocks s3"
    using count_ok_data_step [OF f1(1) ok1 st2] count_ok_data_step [OF f2(1) _ st3] by blast
  have tab3: "fat_of blocks s3 k = ((fat_of blocks s)(c := FAT_ENTRY_EOC_START)) k" if "k < fat_capacity (bpb s)" for k
    using that st1 st2 st3 f1 f2 by (auto simp: table_step_def data_step_def)
  have c32: "c < 2 ^ 32" and c0: "c \<noteq> FAT_ENTRY_FREE"
    using cr f1 wf_geometry [OF assms(1)] by (auto simp: fat32_geometry_def fat_entry_defs)
  obtain s4 where r4: "update_cluster dev l c s3 = Some (Ok (), s4)"
    and st4: "table_step dev blocks dinv ((fat_of blocks s3)(l := c)) (\<lambda>i. i) s3 s4"
    using update_cluster_step [OF f3(1) _ c32, of l] l(1) f3(2) by (auto elim!: returnsE)
  have "fat_of blocks s3 l \<noteq> FAT_ENTRY_FREE" using tab3 [OF l(1)] l(2) by (auto simp: fat_entry_defs)
  then have ok4: "count_ok blocks s4" using c0 by (intro count_ok_update [OF f3(1) ok3 st4]) auto
  have step: "fs_step dev blocks dinv ((fat_of blocks s3)(l := c)) (cluster_of blocks s3) s s4"
    using table_step_fs_step [OF st1] data_step_fs_step [OF st2] data_step_fs_step [OF st3]
      table_step_fs_step [OF st4] by (blast intro: fs_step_trans)
  have "fs_step dev blocks dinv ((fat_of blocks s)(c := FAT_ENTRY_EOC_START, l := c))
      ((cluster_of blocks s)(c := (replicate ?spc ?z)[0 := add_file [] f ?z])) s s4"
    by (rule fs_step_cong [OF step])
       (use tab3 st1 st2 st3 in \<open>auto simp: table_step_def data_step_def\<close>)
  moreover have "create_in_new_cluster dev m l s = Some (Ok (), s4)"
    using r1 r2 r3 r4 cr f1 f2 fit sector_entries_fit [OF assms(1)] meta_need [OF m]
    by (simp add: create_in_new_cluster_def get_sector_by_cluster_run add_file_def
        file_entries_group [OF m])
  ultimately show ?thesis using ok4 c by (auto simp: returns_def)
qed

lemma packed_directoryD:
  assumes "packed_directory dev blocks dinv s d cs F"
  shows "wf s" and "data_chain blocks s d cs" and "cs \<noteq> []"
    and "packed_dir (bpb s) (blocks (device s)) cs F"
    and "x \<in> set cs \<Longrightarrow> fat_of blocks s x \<noteq> FAT_ENTRY_FREE"
    and "x \<in> set cs \<Longrightarrow> 2 \<le> x" and "x \<in> set cs \<Longrightarrow> x < max_cluster s + 2"
    and "x \<in> set cs \<Longrightarrow> x < fat_capacity (bpb s)"
    and "distinct cs" and "files_of blocks s cs = packed_files (bpb s) cs F"
proof -
  show wf: "wf s" and chain: "data_chain blocks s d cs" and "cs \<noteq> []"
    and dir: "packed_dir (bpb s) (blocks (device s)) cs F"
    and "x \<in> set cs \<Longrightarrow> fat_of blocks s x \<noteq> FAT_ENTRY_FREE"
    using assms by (auto simp: packed_directory_def)
  show rng: "x \<in> set cs \<Longrightarrow> 2 \<le> x" "x \<in> set cs \<Longrightarrow> x < max_cluster s + 2" for x
    using chain by (auto simp: data_chain_def)
  then show "x \<in> set cs \<Longrightarrow> x < fat_capacity (bpb s)" using data_cluster_capacity [OF wf] by blast
  show "distinct cs" using chain is_chain_distinct by (auto simp: data_chain_def)
  show "files_of blocks s cs = packed_files (bpb s) cs F"
    unfolding files_of_def using dir cluster_range [OF wf] rng by (intro dir_files_packed) auto
qed

lemma file_added_room:
  assumes d: "packed_directory dev blocks dinv s d cs F" and "count_ok blocks s" and m: "meta_of_group m f"
    and room: "has_room (bpb s) F f (c, i)" and c: "c \<in> set cs" "i < sectors_per_cluster (bpb s)"
    and st: "added s F f c i s'"
  shows "file_added dev blocks dinv d cs m s s'"
proof -
  note D = packed_directoryD [OF d] and S = data_stepD [OF st]
  let ?p = "group_file c (cluster_sector (bpb s) c + i) (length (used_slots (F c i))) f"
  have g: "group_ok f" using m by (simp add: meta_of_group_def)
  have blk: "length (cluster_of blocks s c) = sectors_per_cluster (bpb s)"
    "length (cluster_of blocks s c ! i) = block_size dev (device s)"
    using cluster_blocks_length [OF D(1) D(6,7) [OF c(1)]] c(2) by auto
  have "is_chain (fat_of blocks s') d cs"
    using D(2,8) S(8) by (subst is_chain_cong [of cs _ "fat_of blocks s"]) (auto simp: data_chain_def)
  then have chain: "data_chain blocks s' d cs" using D(6,7) S(3) by (simp add: data_chain_def)
  have "packed_dir (bpb s) (blocks (device s')) cs (put_file F c i f)"
    using S(9,10) D(6) blk sector_entries_fit [OF D(1)] unfolding S(2)
    by (intro packed_dir_put [OF D(4) g room c(2,1)]) auto
  then have dir: "packed_directory dev blocks dinv s' d cs (put_file F c i f)"
    using S(1,2,8) D(3,5,8) chain by (auto simp: packed_directory_def)
  obtain xs ys where "files_of blocks s cs = xs @ ys" "files_of blocks s' cs = xs @ [?p] @ ys"
    using packed_files_put [OF D(9) c, of F f] D(10) packed_directoryD(10) [OF dir] S(2) by auto
  moreover have "fm_short ?p = fm_short m" "fm_long ?p = fm_long m"
    using m by (auto simp: group_file_def meta_of_group_def split: prod.split)
  ultimately show ?thesis
    using dir count_ok_data_step [OF D(1) assms(2) st] S c(1) unfolding file_added_def
    by (intro exI [of _ "[]"] exI [of _ "put_file F c i f"] exI [of _ xs] exI [of _ ?p] exI [of _ ys]) auto
qed

lemma file_added_new:
  assumes d: "packed_directory dev blocks dinv s d cs F" and m: "meta_of_group m f"
    and fit: "length (group_slots f) \<le> sector_entries (bpb s)" and c: "c \<in> free_clusters blocks s"
    and ok: "count_ok blocks s'"
    and st: "fs_step dev blocks dinv ((fat_of blocks s)(c := FAT_ENTRY_EOC_START, last cs := c))
       ((cluster_of blocks s)(c := (replicate (sectors_per_cluster (bpb s))
          (replicate (block_size dev (device s)) 0))[0 := add_file [] f (replicate (block_size dev (device s)) 0)]))
       s s'"
  shows "file_added dev blocks dinv d cs m s s'"
proof -
  note D = packed_directoryD [OF d] and S = fs_stepD [OF st]
  let ?p = "group_file c (cluster_sector (bpb s) c) 0 f" and ?F = "F(c := (\<lambda>_. [])(0 := [f]))"
  let ?tab = "(fat_of blocks s)(c := FAT_ENTRY_EOC_START, last cs := c)"
  have g: "group_ok f" using m by (simp add: meta_of_group_def)
  have c': "2 \<le> c" "c < max_cluster s + 2" "c \<notin> set cs" using c D(5) by (auto simp: free_clusters_def)
  have inc: "in_chain c" "\<not> in_chain FAT_ENTRY_EOC_START"
    using c' wf_geometry [OF D(1)] by (auto simp: in_chain_def fat32_geometry_def fat_entry_defs)
  have cap: "k < fat_capacity (bpb s)" if "k \<in> set (cs @ [c])" for k
    using that D(8) data_cluster_capacity [OF D(1) c'(2)] by auto
  have "is_chain ?tab d (cs @ [c])"
    using D(2,3) c' inc by (intro is_chain_append_link) (auto simp: data_chain_def)
  then have "is_chain (fat_of blocks s') d (cs @ [c])"
    using S(7) cap by (subst is_chain_cong [of "cs @ [c]" _ ?tab]) auto
  then have chain: "data_chain blocks s' d (cs @ [c])" using D(6,7) S(3) c' by (auto simp: data_chain_def)
  have "packed_dir (bpb s) (blocks (device s')) (cs @ [c]) ?F"
    using S(8) D(6) c' sector_entries_fit [OF D(1)] unfolding S(2)
    by (intro packed_dir_new [OF D(4) g c'(3) fit, where bs = "block_size dev (device s)"]) auto
  moreover have "fat_of blocks s' k \<noteq> FAT_ENTRY_FREE" if "k \<in> set (cs @ [c])" for k
    using S(7) [OF cap [OF that]] D(5) that c' by (auto simp: fat_entry_defs split: if_splits)
  ultimately have dir: "packed_directory dev blocks dinv s' d (cs @ [c]) ?F"
    using S(1,2) chain by (auto simp: packed_directory_def)
  have spc: "0 < sectors_per_cluster (bpb s)" using wf_geometry [OF D(1)] by (simp add: fat32_geometry_def)
  have "files_of blocks s' (cs @ [c]) = files_of blocks s cs @ [?p] @ []"
    using packed_files_new [OF c'(3) spc, of F f] D(10) packed_directoryD(10) [OF dir] S(2) by simp
  moreover have "fm_short ?p = fm_short m" "fm_long ?p = fm_long m"
    using m by (auto simp: group_file_def meta_of_group_def split: prod.split)
  ultimately show ?thesis
    using dir ok S c D(3) unfolding file_added_def
    by (intro exI [of _ "[c]"] exI [of _ ?F] exI [of _ "files_of blocks s cs"] exI [of _ ?p] exI [of _ "[]"]) auto
qed

lemma create_file_meta_run:
  assumes d: "packed_directory dev blocks dinv s d cs F" and ok: "count_ok blocks s" and m: "meta_of_group m f"
  shows "create_file_meta dev d m s = Some (Err NameTooLang, s) \<and> length (fm_long m) + 1 > sector_entries (bpb s)
    \<or> create_file_meta dev d m s = Some (Err DiskFull, s) \<and> free_clusters blocks s = {}
    \<or> returns (create_file_meta dev d m s) (\<lambda>_. file_added dev blocks dinv d cs m s)"
proof (cases "length (fm_long m) + 1 > sector_entries (bpb s)")
  case True
  then show ?thesis by (simp add: create_file_meta_def)
next
  case False
  note D = packed_directoryD [OF d]
  let ?spc = "sectors_per_cluster (bpb s)"
  let ?buf = "replicate (?spc * block_size dev (device s)) 0"
  have fit: "length (group_slots f) \<le> sector_entries (bpb s)" using False meta_need [OF m] by simp
  have len: "length ?buf = ?spc * block_size dev (device s)" by simp
  note loop = create_loop_run [OF D(1,2,4) m len, where l = 0]
  have run: "create_file_meta dev d m s = bind (create_loop dev m 0 d ?buf) (\<lambda>l.
      case l of None \<Rightarrow> ret () | Some l \<Rightarrow> create_in_new_cluster dev m l) s"
    using False by (simp add: create_file_meta_def)
  show ?thesis
  proof (cases "find (has_room (bpb s) F f) (List.product cs [0..<?spc])")
    case None
    then have l: "create_loop dev m 0 d ?buf s = Some (Ok (Some (last cs)), s)" using loop D(3) by simp
    have lc: "last cs \<in> set cs" using D(3) by simp
    show ?thesis
    proof (cases "free_clusters blocks s = {}")
      case True
      then have "create_file_meta dev d m s = Some (Err DiskFull, s)"
        using run l find_available_cluster_full [OF D(1) ok True] by (simp add: create_in_new_cluster_def)
      then show ?thesis using True by simp
    next
      case False
      have "returns (create_in_new_cluster dev m (last cs) s) (\<lambda>_. file_added dev blocks dinv d cs m s)"
        by (rule returns_mono [OF create_in_new_cluster_run [OF D(1) ok False m fit D(8,5) [OF lc]]])
           (use file_added_new [OF d m fit] in blast)
      then show ?thesis using run l by simp
    qed
  next
    case (Some p)
    then obtain c i where p: "p = (c, i)" by (cases p)
    have "p \<in> set (List.product cs [0..<?spc])" "has_room (bpb s) F f p"
      using find_SomeD [OF Some] by blast+
    then have ci: "c \<in> set cs" "i < ?spc" "has_room (bpb s) F f (c, i)" unfolding p by auto
    have "returns (create_loop dev m 0 d ?buf s) (\<lambda>r s'. r = None \<and> added s F f c i s')"
      using loop Some p by simp
    then have "returns (create_file_meta dev d m s) (\<lambda>_. file_added dev blocks dinv d cs m s)"
      unfolding run returns_bind_iff
      by (rule returns_mono) (use file_added_room [OF d ok m ci(3,1,2)] in auto)
    then show ?thesis by simp
  qed
qed

end


lemma metadata_new_group:
  assumes "name \<noteq> []" and "length (encode_utf16 name) \<le> 13 * 256" and "attr \<noteq> ATTR_LONG_NAME"
  shows "meta_of_group (metadata_new name c attr) (encode_utf16 name, fm_short (metadata_new name c attr))"
  using assms by (auto simp: meta_of_group_def group_ok_def metadata_new_def new_long_long_entries short_arrays_ok_def)

lemma packed_sector_zeros: "packed_sector n (entry_slots n (replicate (n * DIRECTORY_ENTRY_SIZE) 0)) []"
  by (simp add: packed_sector_def used_slots_def entry_slots_def chunks_replicate zero_slot_def)

lemma example_fields [simp]:
  "bpb (example_fs es n) = example_bpb" "fs_info (example_fs es n) = Some (example_info n)"
  "sectors_per_cluster example_bpb = 1" "sector_entries example_bpb = 16"
  "unat (bpb_root_cluster example_bpb) = 2"
  by (simp_all add: example_fs_def example_bpb_def DIRECTORY_ENTRY_SIZE_def)

lemmas example_fat_bpb = example_fat [unfolded example_fields(1)]

lemma example_cluster:
  assumes "length es \<le> 128" and "2 \<le> c" and "c < 5"
  shows "cluster_of memory_blocks (example_fs es n) c = [replicate 512 0]"
proof -
  have "c = 2 \<or> c = 3 \<or> c = 4" using assms(2,3) by auto
  then show ?thesis
    using assms(1) by (auto simp: cluster_get_def cluster_sector_def memory_example_blocks slice_Suc
        example_blocks_shape) (simp_all add: example_blocks_def Let_def example_bpb_def slice_def)
qed

text \<open>The root directory of the example is empty.\<close>

lemma example_root:
  assumes "length es \<le> 125" and "\<forall>e \<in> set es. e < 2 ^ 32"
  shows "packed_directory memory_device memory_blocks memory_inv (example_fs ([0x0FFFFFF8, 0x0FFFFFF8, 0x0FFFFFF8] @ es) n)
    2 [2] (\<lambda>_ _. [])"
proof -
  let ?s = "example_fs ([0x0FFFFFF8, 0x0FFFFFF8, 0x0FFFFFF8] @ es) n"
  have f: "fat_of memory_blocks ?s 2 = 0x0FFFFFF8" using assms by (simp add: example_fat_bpb)
  have "packed_sector 16 (entry_slots 16 (replicate 512 0)) []"
    using packed_sector_zeros [of 16] by (simp add: DIRECTORY_ENTRY_SIZE_def)
  then have "packed_dir example_bpb (memory_blocks (device ?s)) [2] (\<lambda>_ _. [])"
    using example_cluster [of "[0x0FFFFFF8, 0x0FFFFFF8, 0x0FFFFFF8] @ es" 2 n] assms(1) by (simp add: packed_dir_def)
  then show ?thesis
    using f assms(1) example_wf [of "[0x0FFFFFF8, 0x0FFFFFF8, 0x0FFFFFF8] @ es" n]
    by (simp add: packed_directory_def data_chain_def in_chain_def fat_entry_defs)
qed

lemma example_count:
  "free_clusters memory_blocks (example_fs [0x0FFFFFF8, 0x0FFFFFF8, 0x0FFFFFF8] n) = {3, 4}"
  "count_ok memory_blocks (example_fs [0x0FFFFFF8, 0x0FFFFFF8, 0x0FFFFFF8] 2)"
proof -
  have "fat_of memory_blocks (example_fs [0x0FFFFFF8, 0x0FFFFFF8, 0x0FFFFFF8] n) c = (if c = 2 then 0x0FFFFFF8 else 0)"
    if "2 \<le> c" "c < 5" for c n
    using that by (auto simp: example_fat_bpb nth_Cons')
  then show free: "free_clusters memory_blocks (example_fs [0x0FFFFFF8, 0x0FFFFFF8, 0x0FFFFFF8] n) = {3, 4}" for n
    by (fastforce simp: free_clusters_def fat_entry_defs split: if_splits)
  show "count_ok memory_blocks (example_fs [0x0FFFFFF8, 0x0FFFFFF8, 0x0FFFFFF8] 2)"
    unfolding count_ok_def free by (simp add: example_info_def)
qed


end
