(* ===== verification/Fat32_Format.thy ===== *)
theory Fat32_Format
  imports Fat32_Packed
begin

text \<open>
  Mounting and formatting, \<open>Fat32FileSystem::mount\<close> and \<open>Fat32FileSystem::with_format\<close> of
  \<open>library/filesystem/src/fs/fat32.rs\<close>.  Both run on the device's data and return the file system
  around it.

  The lemmas show that mounting a formatted device gives back the file system that formatting
  returned, which is well formed and has an empty root directory, unless the number of clusters is
  one for which formatting computes FATs that are too small; for those, the second FAT's image of an
  entry overlaps the root directory.
\<close>

section \<open>Mounting\<close>

text \<open>A call on the device in a function that returns another error type.\<close>

definition lift_io :: "('f \<Rightarrow> 'e) \<Rightarrow> ('d, 'f, 'a) prog \<Rightarrow> ('d, 'e, 'a) prog" where
  "lift_io h m = zoom (\<lambda>d. d) (\<lambda>d _. d) h m"

text \<open>\<open>DiskStruct::new\<close>: a buffer at least as large as the structure.\<close>

definition disk_struct_new :: "nat \<Rightarrow> nat \<Rightarrow> u8 list" where
  "disk_struct_new struct_size len = replicate (max len struct_size) 0"

definition mount_fs_info :: "'d block_device \<Rightarrow> nat \<Rightarrow> BPB \<Rightarrow> ('d, MountError, FSInfo option) prog" where
  "mount_fs_info dev bsize b =
    (if bpb_fs_info b < bpb_reserved_sector_count b then
       bind (lift_io MountIoError (read_block dev (unat (bpb_fs_info b)) (disk_struct_new 512 bsize))) (\<lambda>buffer.
       ret (Some (fsinfo_decode buffer)))
     else ret None)"

definition mount_max_cluster :: "BPB \<Rightarrow> nat \<Rightarrow> nat" where
  "mount_max_cluster b bcount =
    (let fat_limit = wsub64 (fat_size_32 b * bytes_per_sector b div 4) 2;
         device_limit =
           wsub64 (wsub64 bcount (reserved_sector_count b)) (fat_size_32 b * unat (bpb_num_fats b))
           div sectors_per_cluster b
     in min fat_limit device_limit mod 2 ^ 32)"

definition mount :: "'d block_device \<Rightarrow> ('d, MountError, 'd Fat32Inner) prog" where
  "mount dev =
    bind (gets (block_size dev)) (\<lambda>bsize.
    if bsize < 512 then throw InvalidFormat
    else bind (gets (block_count dev)) (\<lambda>bcount.
    if bcount < 2 then throw InvalidFormat
    else
      bind (lift_io MountIoError (read_block dev 0 (disk_struct_new 512 bsize))) (\<lambda>buffer.
      let b = bpb_decode buffer in
      bind (lift_res (check_bpb b bsize bcount)) (\<lambda>_.
      bind (mount_fs_info dev bsize b) (\<lambda>info.
      bind (case info of None \<Rightarrow> ret () | Some i \<Rightarrow> lift_res (check_fs_info i)) (\<lambda>_.
      gets (\<lambda>d. \<lparr>device = d, bpb = b, fs_info = info,
                 max_cluster = mount_max_cluster b (block_count dev d), occupied_file = {}\<rparr>)))))))"

section \<open>Formatting\<close>

text \<open>\<open>63 - n.leading_zeros()\<close>\<close>

fun ilog2 :: "nat \<Rightarrow> nat" where
  "ilog2 n = (if n < 2 then 0 else Suc (ilog2 (n div 2)))"

declare ilog2.simps [simp del]

definition format_bpb :: "nat \<Rightarrow> nat \<Rightarrow> nat \<Rightarrow> nat \<Rightarrow> BPB" where
  "format_bpb bps reserved bcount fat_size =
     \<lparr>bpb_reserved_code = [0xeb, 0xfe, 0x90],
      bpb_oem_id = [0x63, 0x6F, 0x73, 0x66, 0x73, 0x31, 0x2E, 0x30],
      bpb_bytes_per_sector = of_nat bps, bpb_sectors_per_cluster = 8,
      bpb_reserved_sector_count = of_nat reserved, bpb_num_fats = 2, bpb_root_entry_count = 0,
      bpb_total_sectors_16 = 0, bpb_media = 0, bpb_fat_size_16 = 0, bpb_sectors_per_track = 0,
      bpb_num_heads = 0, bpb_hidden_sectors = 0, bpb_total_sectors_32 = of_nat bcount,
      bpb_fat_size_32 = of_nat fat_size, bpb_ext_flags = 0, bpb_fs_version = 0,
      bpb_root_cluster = 2, bpb_fs_info = 1, bpb_bk_boot_sector = 0xffff,
      bpb_reserved = replicate 12 0, bpb_drive_number = 0x80, bpb_reserved1 = 0,
      bpb_boot_signature = 0x28, bpb_volume_id = 0, bpb_volume_label = replicate 11 0,
      bpb_fs_type = [0x46, 0x41, 0x54, 0x33, 0x32, 0x20, 0x20, 0x20],
      bpb_code = replicate 420 0, bpb_boot_sector_signature = BPB_BOOT_SECTOR_SIGNATURE\<rparr>"

definition format_info :: "nat \<Rightarrow> FSInfo" where
  "format_info total_cluster_count =
     \<lparr>fi_lead_signature = FSINFO_LEAD_SIGNATURE, fi_reserved1 = replicate 480 0,
      fi_struct_signature = FSINFO_STRUCT_SIGNATURE,
      fi_free_cluster_count = of_nat (total_cluster_count - 1), fi_next_free_cluster = 3,
      fi_reserved2 = replicate 12 0, fi_trail_signature = FSINFO_TRAIL_SIGNATURE\<rparr>"

definition format_fat_size :: "nat \<Rightarrow> nat \<Rightarrow> nat" where
  "format_fat_size bps total_cluster_count =
    (let cluster_per_fat = bps div 4
     in (total_cluster_count + cluster_per_fat - 1) div cluster_per_fat)"

definition format_fat_block :: "nat \<Rightarrow> u8 list" where
  "format_fat_block bsize =
     patch 0 (to_le 4 0xffffff00 @ to_le 4 0xffffffff @ to_le 4 FAT_ENTRY_EOC_START) (replicate bsize 0)"

text \<open>
  The boot record and the FSInfo structure are copied with the block size as length; a block size
  above 512 reads past the end of the structures.
\<close>

definition with_format :: "'d block_device \<Rightarrow> ('d, FormatError, 'd Fat32Inner) prog" where
  "with_format dev =
    bind (gets (block_size dev)) (\<lambda>bsize.
    if bsize < 512 then throw DeviceTooSmall
    else bind (gets (block_count dev)) (\<lambda>bcount.
    if bcount < 2 then throw DeviceTooSmall
    else
      let bps = (if is_power_of_two bsize then bsize else 2 ^ ilog2 bsize);
          (total_cluster_count, remain_block) = calc_cluster_count 2 bps 8 bcount
      in if total_cluster_count < 2 then throw DeviceTooSmall
      else
        let reserved = 2 + remain_block;
            fat_size = format_fat_size bps total_cluster_count;
            b = format_bpb bps reserved bcount fat_size;
            info = format_info total_cluster_count
        in if bsize > 512 then undefined_behaviour
        else
          bind (lift_io FormatIoError (write_blocks dev 0 2 (bpb_encode b @ fsinfo_encode info))) (\<lambda>_.
          bind (lift_io FormatIoError (write_zeros dev reserved (fat_size * 2))) (\<lambda>_.
          bind (lift_io FormatIoError (write_block dev reserved (format_fat_block bsize))) (\<lambda>_.
          bind (lift_io FormatIoError (write_block dev (reserved + fat_size) (format_fat_block bsize))) (\<lambda>_.
          bind (lift_io FormatIoError (write_zeros dev (reserved + fat_size * 2) 8)) (\<lambda>_.
          gets (\<lambda>d. \<lparr>device = d, bpb = b, fs_info = Some info,
                     max_cluster = total_cluster_count mod 2 ^ 32, occupied_file = {}\<rparr>)))))))) "

section \<open>The sizes of a new file system\<close>

lemma format_sizes:
  assumes "calc_cluster_count 2 512 8 bcount = (n, rest)" and "2 \<le> n" and "2 \<le> bcount" and "bcount < 2 ^ 32"
  shows "rest < 8" and "0 < format_fat_size 512 n" and "n \<le> format_fat_size 512 n * 128"
    and "2 + rest + format_fat_size 512 n * 2 + n * 8 \<le> bcount"
    and "bcount < 2 + rest + format_fat_size 512 n * 2 + n * 8 + 8"
proof -
  define f where "f = format_fat_size 512 n"
  have f: "f = (n + 127) div 128" by (simp add: f_def format_fat_size_def)
  then have fl: "f * 128 \<le> n + 127" "n + 127 < f * 128 + 128" by simp_all
  have "rest < 8 \<and> 2 + rest + f * 2 + n * 8 \<le> bcount \<and> bcount < 2 + rest + f * 2 + n * 8 + 8"
  proof (rule calc_cluster_count_split [OF assms(1)])
    fix g r
    assume "n + 2 = g * (512 div 4) + r" "r < 512 div 4" "bcount = 2 + 2 * g + 2 + n * 8 + rest" "rest < 8"
    moreover from this fl have "g \<le> f" "f \<le> g + 1" by simp_all
    ultimately show ?thesis by simp
  next
    fix g
    assume "n + 2 = g * (512 div 4)" "bcount = 2 + 2 * g + n * 8 + rest" "rest \<le> 2"
    moreover from this fl have "f = g" by simp
    ultimately show ?thesis by simp
  qed (use assms in simp_all)
  then show "rest < 8" "2 + rest + format_fat_size 512 n * 2 + n * 8 \<le> bcount"
    "bcount < 2 + rest + format_fat_size 512 n * 2 + n * 8 + 8"
    unfolding f_def by blast+
  show "0 < format_fat_size 512 n" "n \<le> format_fat_size 512 n * 128"
    using fl assms(2) unfolding f_def by simp_all
qed

section \<open>The blocks of a new file system\<close>

definition format_blocks :: "nat \<Rightarrow> nat \<Rightarrow> BPB \<Rightarrow> FSInfo \<Rightarrow> u8 list list \<Rightarrow> u8 list list" where
  "format_blocks r f b info bl =
    (let zero = replicate 512 0; fat = format_fat_block 512
     in patch (r + f * 2) (replicate 8 zero)
          ((patch r (replicate (f * 2) zero) (patch 0 [bpb_encode b, fsinfo_encode info] bl))
             [r := fat, r + f := fat]))"

definition formatted :: "'d \<Rightarrow> nat \<Rightarrow> nat \<Rightarrow> nat \<Rightarrow> 'd Fat32Inner" where
  "formatted d bcount n rest =
     \<lparr>device = d, bpb = format_bpb 512 (2 + rest) bcount (format_fat_size 512 n),
      fs_info = Some (format_info n), max_cluster = n, occupied_file = {}\<rparr>"

lemma format_arrays [simp]: "bpb_arrays_ok (format_bpb bps r bcount f)" "fsinfo_arrays_ok (format_info n)"
  by (simp_all add: bpb_arrays_ok_def fsinfo_arrays_ok_def format_bpb_def format_info_def)

lemma is_power_of_two_512: "is_power_of_two 512"
  unfolding is_power_of_two_def by (simp add: list_ex_iff) (rule bexI [of _ 9]; simp)

lemma length_format_fat_block [simp]: "12 \<le> n \<Longrightarrow> length (format_fat_block n) = n"
  by (simp add: format_fat_block_def)

lemma chunks_two: "length xs = k \<Longrightarrow> length ys = k \<Longrightarrow> chunks k 2 (xs @ ys) = [xs, ys]"
  by (simp add: chunks_def slice_def numeral_2_eq_2)

lemma returns_lift_io: "returns (m d) Q \<Longrightarrow> returns (lift_io h m d) Q"
  unfolding lift_io_def by (rule returns_zoom)

lemma run_lift_io: "m d = Some (Ok x, d') \<Longrightarrow> lift_io h m d = Some (Ok x, d')"
  by (simp add: lift_io_def zoom_def)

context reliable_device
begin

abbreviation holds :: "nat \<Rightarrow> u8 list list \<Rightarrow> 'd \<Rightarrow> bool" where
  "holds bs bl d \<equiv> dinv d \<and> block_size dev d = bs \<and> blocks d = bl"

lemma lift_write_block:
  assumes "holds bs bl d" and "i < length bl" and "length buf = bs"
  shows "returns (lift_io h (write_block dev i buf) d) (\<lambda>_. holds bs (bl[i := buf]))"
  using write_block_ok [of d i buf] assms by (auto intro!: returns_lift_io elim: returns_mono)

lemma lift_write_blocks:
  assumes "holds bs bl d" and "i + n \<le> length bl" and "length buf = n * bs"
  shows "returns (lift_io h (write_blocks dev i n buf) d) (\<lambda>_. holds bs (patch i (chunks bs n buf) bl))"
  using write_blocks_ok [of d i n buf] assms by (auto intro!: returns_lift_io elim: returns_mono)

lemma lift_write_zeros:
  assumes "holds bs bl d" and "i + n \<le> length bl"
  shows "returns (lift_io h (write_zeros dev i n) d) (\<lambda>_. holds bs (patch i (replicate n (replicate bs 0)) bl))"
  using write_zeros_ok [of d i n] assms by (auto intro!: returns_lift_io elim: returns_mono)

lemma with_format_run:
  assumes d: "holds 512 bl d" and calc: "calc_cluster_count 2 512 8 (length bl) = (n, rest)"
    and n: "2 \<le> n" and len: "2 \<le> length bl" "length bl < 2 ^ 32"
  shows "returns (with_format dev d) (\<lambda>s d'. s = formatted d' (length bl) n rest \<and>
    holds 512 (format_blocks (2 + rest) (format_fat_size 512 n)
      (format_bpb 512 (2 + rest) (length bl) (format_fat_size 512 n)) (format_info n) bl) d')"
proof -
  let ?f = "format_fat_size 512 n" and ?r = "2 + rest" and ?fb = "format_fat_block 512"
  let ?b = "format_bpb 512 ?r (length bl) ?f" and ?i = "format_info n"
  let ?z = "replicate 512 0"
  note sz = format_sizes [OF calc n len]
  have big: "?r + ?f * 2 + 8 \<le> length bl" using sz(4) n by simp
  let ?bl1 = "patch 0 [bpb_encode ?b, fsinfo_encode ?i] bl"
  let ?bl2 = "patch ?r (replicate (?f * 2) ?z) ?bl1"
  have two: "chunks 512 2 (bpb_encode ?b @ fsinfo_encode ?i) = [bpb_encode ?b, fsinfo_encode ?i]"
    by (intro chunks_two) (simp_all add: bpb_encode_length fsinfo_encode_length)
  have len1: "length ?bl1 = length bl" using len by simp
  have len2: "length ?bl2 = length bl" using big len1 by simp
  have w1: "returns (lift_io FormatIoError (write_blocks dev 0 2 (bpb_encode ?b @ fsinfo_encode ?i)) d)
      (\<lambda>_. holds 512 ?bl1)"
    using lift_write_blocks [OF d, of 0 2 "bpb_encode ?b @ fsinfo_encode ?i"] len two
    by (simp add: bpb_encode_length fsinfo_encode_length)
  have w2: "returns (lift_io FormatIoError (write_zeros dev ?r (?f * 2)) d) (\<lambda>_. holds 512 ?bl2)"
    if "holds 512 ?bl1 d" for d
    using lift_write_zeros [OF that, of ?r "?f * 2"] big len1 by simp
  have w3: "returns (lift_io FormatIoError (write_block dev ?r ?fb) d) (\<lambda>_. holds 512 (?bl2[?r := ?fb]))"
    if "holds 512 ?bl2 d" for d
    using big len2 by (intro lift_write_block [OF that]) simp_all
  have w4: "returns (lift_io FormatIoError (write_block dev (?r + ?f) ?fb) d)
      (\<lambda>_. holds 512 (?bl2[?r := ?fb, ?r + ?f := ?fb]))"
    if "holds 512 (?bl2[?r := ?fb]) d" for d
    using big len2 sz(2) by (intro lift_write_block [OF that]) simp_all
  have w5: "returns (lift_io FormatIoError (write_zeros dev (?r + ?f * 2) 8) d)
      (\<lambda>_. holds 512 (patch (?r + ?f * 2) (replicate 8 ?z) (?bl2[?r := ?fb, ?r + ?f := ?fb])))"
    if "holds 512 (?bl2[?r := ?fb, ?r + ?f := ?fb]) d" for d
    using big len2 by (intro lift_write_zeros [OF that]) simp_all
  have count: "block_count dev d = length bl" using d block_count_blocks by auto
  have n32: "n mod 2 ^ 32 = n" using sz(4) len by simp
  have "returns (bind (lift_io FormatIoError (write_blocks dev 0 2 (bpb_encode ?b @ fsinfo_encode ?i))) (\<lambda>_.
          bind (lift_io FormatIoError (write_zeros dev ?r (?f * 2))) (\<lambda>_.
          bind (lift_io FormatIoError (write_block dev ?r ?fb)) (\<lambda>_.
          bind (lift_io FormatIoError (write_block dev (?r + ?f) ?fb)) (\<lambda>_.
          bind (lift_io FormatIoError (write_zeros dev (?r + ?f * 2) 8)) (\<lambda>_.
          gets (\<lambda>d. formatted d (length bl) n rest)))))) d)
     (\<lambda>s d'. s = formatted d' (length bl) n rest \<and> holds 512 (format_blocks ?r ?f ?b ?i bl) d')"
    unfolding returns_bind_iff
    by (rule returns_mono [OF w1], rule returns_mono [OF w2], assumption, rule returns_mono [OF w3],
        assumption, rule returns_mono [OF w4], assumption, rule returns_mono [OF w5], assumption)
       (simp only: run_gets returns_Some format_blocks_def Let_def simp_thms)
  then show ?thesis
    using d count len calc n n32
    by (simp add: with_format_def is_power_of_two_512 Let_def formatted_def)
qed

lemma mount_run:
  assumes d: "holds 512 bl d" and len: "2 \<le> length bl" and b: "bpb_arrays_ok b" "bl ! 0 = bpb_encode b"
    and i: "bpb_fs_info b < bpb_reserved_sector_count b" "unat (bpb_fs_info b) < length bl"
      "fsinfo_arrays_ok info" "bl ! unat (bpb_fs_info b) = fsinfo_encode info"
    and "check_bpb b 512 (length bl) = Ok ()" "check_fs_info info = Ok ()"
  shows "mount dev d = Some (Ok \<lparr>device = d, bpb = b, fs_info = Some info,
    max_cluster = mount_max_cluster b (length bl), occupied_file = {}\<rparr>, d)"
proof -
  have count: "block_count dev d = length bl" using d block_count_blocks by auto
  have rd: "lift_io MountIoError (read_block dev k (disk_struct_new 512 512)) d = Some (Ok (bl ! k), d)"
    if "k < length bl" for k
    using d that read_block_ok [of d k "disk_struct_new 512 512"]
    by (intro run_lift_io) (simp add: disk_struct_new_def)
  have "bpb_decode (bl ! 0) = b" using bpb_decode_encode [OF b(1), of "[]"] b(2) by simp
  moreover have "fsinfo_decode (bl ! unat (bpb_fs_info b)) = info"
    using fsinfo_decode_encode [OF i(3), of "[]"] i(4) by simp
  moreover have "0 < length bl" using len by linarith
  ultimately show ?thesis
    using d count len rd [of 0] rd [OF i(2)] assms
    by (simp add: mount_def mount_fs_info_def lift_res_def)
qed

end

lemma format_blocks_nth:
  assumes "2 \<le> r" and "0 < f" and "r + f * 2 + 8 \<le> length bl"
  shows "length (format_blocks r f b info bl) = length bl"
    and "k < length bl \<Longrightarrow> format_blocks r f b info bl ! k =
      (if k = 0 then bpb_encode b else if k = 1 then fsinfo_encode info
       else if k = r \<or> k = r + f then format_fat_block 512
       else if r \<le> k \<and> k < r + f * 2 + 8 then replicate 512 0 else bl ! k)"
  using assms by (auto simp: format_blocks_def patch_nth nth_list_update Let_def)

text \<open>The geometry of the boot record that formatting writes.\<close>

lemma format_bpb_fields:
  assumes "calc_cluster_count 2 512 8 bcount = (n, rest)" and "2 \<le> n" and "2 \<le> bcount" and "bcount < 2 ^ 32"
  defines "b \<equiv> format_bpb 512 (2 + rest) bcount (format_fat_size 512 n)"
  shows "reserved_sector_count b = 2 + rest" and "fat_size_32 b = format_fat_size 512 n"
    and "bytes_per_sector b = 512" and "sectors_per_cluster b = 8" and "unat (bpb_num_fats b) = 2"
    and "unat (bpb_total_sectors_32 b) = bcount" and "cluster_per_sector b = 128"
    and "fat_capacity b = format_fat_size 512 n * 128"
    and "bpb_num_fats b = 2" and "bpb_fs_info b = 1" and "bpb_root_cluster b = 2"
proof -
  note sz = format_sizes [OF assms(1-4)]
  have "format_fat_size 512 n < 2 ^ 32" using sz(4) assms(4) by simp
  then show f: "fat_size_32 b = format_fat_size 512 n" by (simp add: b_def format_bpb_def unat_of_nat)
  have "unat (of_nat k :: u16) = k" if "k < 65536" for k using that by (simp add: unat_of_nat)
  from this [of "2 + rest"] show "reserved_sector_count b = 2 + rest"
    using sz(1) by (simp add: b_def format_bpb_def del: of_nat_add of_nat_Suc)
  show "unat (bpb_total_sectors_32 b) = bcount" using assms(4) by (simp add: b_def format_bpb_def unat_of_nat)
  show c: "cluster_per_sector b = 128" by (simp add: cluster_per_sector_def b_def format_bpb_def)
  show "fat_capacity b = format_fat_size 512 n * 128" by (simp add: fat_capacity_def f c)
qed (simp_all add: b_def format_bpb_def)

lemma check_format_bpb:
  assumes "calc_cluster_count 2 512 8 bcount = (n, rest)" and "2 \<le> n" and "2 \<le> bcount" and "bcount < 2 ^ 32"
  shows "check_bpb (format_bpb 512 (2 + rest) bcount (format_fat_size 512 n)) 512 bcount = Ok ()"
    and "check_fs_info (format_info n) = Ok ()"
proof -
  let ?b = "format_bpb 512 (2 + rest) bcount (format_fat_size 512 n)"
  note F = format_bpb_fields [OF assms] and sz = format_sizes [OF assms]
  have "is_power_of_two 8" unfolding is_power_of_two_def by (simp add: list_ex_iff) (rule bexI [of _ 3]; simp)
  moreover have "bpb_reserved_sector_count ?b \<noteq> 0" "bpb_fat_size_32 ?b \<noteq> 0"
    using F(1,2) sz(2) by (auto simp flip: unat_eq_0)
  moreover have "2 + rest \<le> bcount" using sz(4) by simp
  ultimately show "check_bpb ?b 512 bcount = Ok ()"
    using F is_power_of_two_512
    by (simp add: check_bpb_def) (simp add: format_bpb_def BPB_BOOT_SECTOR_SIGNATURE_def)
qed (simp add: check_fs_info_def format_info_def)

lemma mount_max_format:
  assumes "calc_cluster_count 2 512 8 bcount = (n, rest)" and "2 \<le> n" and "2 \<le> bcount" and "bcount < 2 ^ 32"
    and "n + 2 \<le> format_fat_size 512 n * 128"
  shows "mount_max_cluster (format_bpb 512 (2 + rest) bcount (format_fat_size 512 n)) bcount = n"
proof -
  define f where "f = format_fat_size 512 n"
  note sz = format_sizes [OF assms(1-4), folded f_def]
  have dev: "wsub64 (wsub64 bcount (2 + rest)) (f * 2) = bcount - (2 + rest) - f * 2"
    using sz(4) by (simp add: wsub64_le)
  have "bcount - (2 + rest) - f * 2 = 8 * n + (bcount - (2 + rest) - f * 2 - 8 * n)" 
    "bcount - (2 + rest) - f * 2 - 8 * n < 8"
    using sz(4,5) by linarith+
  then have "(bcount - (2 + rest) - f * 2) div 8 = n" by (metis div_mult_self4 div_less add_0_right zero_neq_numeral)
  moreover have "wsub64 (f * 512 div 4) 2 = f * 128 - 2" using assms(5) f_def by (simp add: wsub64_le)
  moreover have "n mod 2 ^ 32 = n" using sz(4) assms(4) by simp
  ultimately show ?thesis
    using assms(5) dev format_bpb_fields [OF assms(1-4)]
    by (simp add: mount_max_cluster_def Let_def flip: f_def)
qed

section \<open>The new file system\<close>

lemma format_fat_image: "format_fat_block 512 = fat_image [0xffffff00, 0xffffffff, FAT_ENTRY_EOC_START]"
  by (simp add: format_fat_block_def fat_image_def patch_def)

lemma slice_zeros: "i + 4 \<le> n \<Longrightarrow> from_le (slice i 4 (replicate n 0)) = 0"
  by (simp add: slice_replicate replicate_4)

text \<open>The device has \<open>bcount\<close> blocks, \<open>n\<close> clusters fit, and the table has room for their entries.\<close>

definition format_ok :: "nat \<Rightarrow> nat \<Rightarrow> nat \<Rightarrow> bool" where
  "format_ok bcount n rest \<longleftrightarrow> calc_cluster_count 2 512 8 bcount = (n, rest) \<and> 2 \<le> n \<and> 2 \<le> bcount
     \<and> bcount < 2 ^ 32 \<and> n + 2 \<le> FAT_ENTRY_RESERVED_START \<and> n + 2 \<le> format_fat_size 512 n * 128"

definition format_image :: "nat \<Rightarrow> nat \<Rightarrow> u8 list list \<Rightarrow> u8 list list" where
  "format_image n rest bl = format_blocks (2 + rest) (format_fat_size 512 n)
     (format_bpb 512 (2 + rest) (length bl) (format_fat_size 512 n)) (format_info n) bl"

lemma format_geometry:
  assumes "format_ok bcount n rest"
  shows "fat32_geometry (format_bpb 512 (2 + rest) bcount (format_fat_size 512 n)) n bcount 512"
  using assms format_bpb_fields [of bcount n rest] format_sizes [of bcount n rest]
  by (simp add: format_ok_def fat32_geometry_def)

lemma format_image_fat:
  assumes ok: "format_ok (length bl) n rest" and c: "c < format_fat_size 512 n * 128"
  shows "fat_get (format_bpb 512 (2 + rest) (length bl) (format_fat_size 512 n)) (format_image n rest bl) c
    = (if c = 0 then 0xffffff00 else if c = 1 then 0xffffffff else if c = 2 then FAT_ENTRY_EOC_START else 0)"
proof -
  define f where "f = format_fat_size 512 n"
  have calc: "calc_cluster_count 2 512 8 (length bl) = (n, rest)" "2 \<le> n" "2 \<le> length bl" "length bl < 2 ^ 32"
    using ok by (simp_all add: format_ok_def)
  note sz = format_sizes [OF calc, folded f_def]
  have "c div 128 < f" using c unfolding f_def by (simp add: less_mult_imp_div_less)
  then have blk: "format_image n rest bl ! (2 + rest + c div 128)
      = (if c div 128 = 0 then format_fat_block 512 else replicate 512 0)"
    using sz format_blocks_nth [of "2 + rest" f bl] calc(2)
    by (auto simp: format_image_def simp flip: f_def)
  have get: "fat_get (format_bpb 512 (2 + rest) (length bl) f) (format_image n rest bl) c
      = from_le (slice (4 * (c mod 128)) 4 (if c div 128 = 0 then format_fat_block 512 else replicate 512 0))"
    using format_bpb_fields [OF calc, folded f_def] blk by (simp add: fat_get_def fat_block_def)
  show ?thesis
  proof (cases "c < 128")
    case True
    then show ?thesis
      using get fat_image_entry [of "[0xffffff00, 0xffffffff, FAT_ENTRY_EOC_START]" c]
      by (auto simp: format_fat_image fat_entry_defs nth_Cons' simp flip: f_def)
  next
    case False
    then have "4 * (c mod 128) + 4 \<le> 512" "c div 128 \<noteq> 0" by auto
    then show ?thesis using get False slice_zeros by (simp flip: f_def)
  qed
qed

lemma format_image_root:
  assumes ok: "format_ok (length bl) n rest"
  shows "cluster_get (format_bpb 512 (2 + rest) (length bl) (format_fat_size 512 n)) (format_image n rest bl) 2
    = replicate 8 (replicate 512 0)"
proof -
  define f where "f = format_fat_size 512 n"
  have calc: "calc_cluster_count 2 512 8 (length bl) = (n, rest)" "2 \<le> n" "2 \<le> length bl" "length bl < 2 ^ 32"
    using ok by (simp_all add: format_ok_def)
  note sz = format_sizes [OF calc, folded f_def]
  have len: "2 + rest + f * 2 + 8 \<le> length bl" using sz(4) calc(2) by simp
  show ?thesis
    using len sz(2) format_bpb_fields [OF calc, folded f_def] format_blocks_nth [of "2 + rest" f bl]
    by (intro nth_equalityI)
       (auto simp: cluster_get_def cluster_sector_def format_image_def slice_nth simp flip: f_def)
qed

context reliable_device
begin

lemma formatted_fs:
  assumes ok: "format_ok (length bl) n rest" and d: "holds 512 (format_image n rest bl) d"
  defines "s \<equiv> formatted d (length bl) n rest"
  shows "wf s" and "mount dev d = Some (Ok s, d)" and "count_ok blocks s"
    and "packed_directory dev blocks dinv s 2 [2] (\<lambda>_ _. [])"
proof -
  let ?b = "format_bpb 512 (2 + rest) (length bl) (format_fat_size 512 n)"
  have calc: "calc_cluster_count 2 512 8 (length bl) = (n, rest)" "2 \<le> n" "2 \<le> length bl" "length bl < 2 ^ 32"
    and room: "n + 2 \<le> format_fat_size 512 n * 128"
    using ok by (simp_all add: format_ok_def)
  note F = format_bpb_fields [OF calc] and sz = format_sizes [OF calc]
  have s: "bpb s = ?b" "max_cluster s = n" "device s = d" "fs_info s = Some (format_info n)"
    by (simp_all add: s_def formatted_def)
  have big: "2 + rest + format_fat_size 512 n * 2 + 8 \<le> length bl" using sz(4) calc(2) by simp
  note img = format_blocks_nth [OF _ sz(2) big, where b = ?b and info = "format_info n", folded format_image_def, simplified]
  have len: "length (format_image n rest bl) = length bl" by (rule img(1))
  have ne: "bl \<noteq> []" using calc(3) by auto
  show wf: "wf s" using d s len F format_geometry [OF ok] by (simp add: fs_wf_def)
  have "mount dev d = Some (Ok \<lparr>device = d, bpb = ?b, fs_info = Some (format_info n),
      max_cluster = mount_max_cluster ?b (length (format_image n rest bl)), occupied_file = {}\<rparr>, d)"
    using d calc F len ne img(2) [of 0] img(2) [of 1] check_format_bpb [OF calc]
    by (intro mount_run) (auto simp: word_less_nat_alt)
  then show "mount dev d = Some (Ok s, d)"
    using mount_max_format [OF calc room] len by (simp add: s_def formatted_def)
  have fat: "fat_of blocks s c = (if c = 2 then FAT_ENTRY_EOC_START else 0)" if "2 \<le> c" "c < n + 2" for c
    using format_image_fat [OF ok, of c] that room d by (simp add: s)
  have "free_clusters blocks s = {3..<n + 2}"
    using fat by (auto simp: free_clusters_def s fat_entry_defs split: if_splits)
  moreover have "unat (of_nat (n - 1) :: u32) = n - 1" using sz(4) calc(4) by (simp add: unat_of_nat del: of_nat_diff)
  ultimately show "count_ok blocks s" using calc(2) by (simp add: count_ok_def s format_info_def)
  have "packed_sector 16 (entry_slots 16 (replicate 512 0)) []"
    using packed_sector_zeros [of 16] by (simp add: DIRECTORY_ENTRY_SIZE_def)
  then have "packed_dir ?b (blocks d) [2] (\<lambda>_ _. [])"
    using format_image_root [OF ok] d F by (simp add: packed_dir_def DIRECTORY_ENTRY_SIZE_def)
  then show "packed_directory dev blocks dinv s 2 [2] (\<lambda>_ _. [])"
    using wf fat [of 2] s calc(2) by (simp add: packed_directory_def data_chain_def in_chain_def fat_entry_defs)
qed

end

text \<open>
  C10. Formatting and mounting: on a device with blocks of 512 bytes whose cluster count leaves room
  in the table, formatting succeeds with a well-formed file system with the largest possible number
  of clusters, all but the root directory's free and counted as free, and an empty root directory;
  and mounting the device afterwards gives back exactly this file system.
\<close>

theorem format_mount:
  assumes "reliable_device dev blocks dinv" and "dinv d" and "block_size dev d = 512"
    and "format_ok (length (blocks d)) n rest"
  shows "returns (with_format dev d) (\<lambda>s d'. device s = d' \<and> max_cluster s = n \<and>
    mount dev d' = Some (Ok s, d') \<and> fs_wf dev blocks dinv s \<and> count_ok blocks s \<and>
    packed_directory dev blocks dinv s (unat (bpb_root_cluster (bpb s))) [2] (\<lambda>_ _. []))"
proof -
  have "returns (with_format dev d) (\<lambda>s d'. s = formatted d' (length (blocks d)) n rest \<and>
      dinv d' \<and> block_size dev d' = 512 \<and> blocks d' = format_image n rest (blocks d))"
    using reliable_device.with_format_run [OF assms(1), of d "blocks d" n rest] assms
    by (simp add: format_ok_def format_image_def)
  then show ?thesis
    by (rule returns_mono)
       (use reliable_device.formatted_fs [OF assms(1,4)] in \<open>auto simp: formatted_def format_bpb_def\<close>)
qed

definition blank_device :: "nat \<Rightarrow> MemoryDevice" where
  "blank_device n = \<lparr>md_data = replicate (n * 512) 0, md_block_size = 512, md_block_count = n\<rparr>"

lemma blank_device_ok:
  "memory_inv (blank_device n)" "block_size memory_device (blank_device n) = 512"
  "length (memory_blocks (blank_device n)) = n"
  by (simp_all add: memory_inv_def blank_device_def memory_device_def default_device_def memory_blocks_def)

theorem format_mount_witness:
  "returns (with_format memory_device (blank_device 2046)) (\<lambda>s d'. max_cluster s = 254 \<and>
    mount memory_device d' = Some (Ok s, d'))"
proof -
  have "calc_cluster_count 2 512 8 2046 = (254, 6)"
    by (simp add: calc_cluster_count_def wadd64_def wsub64_def)
  then have "format_ok (length (memory_blocks (blank_device 2046))) 254 6"
    by (simp add: format_ok_def blank_device_ok fat_entry_defs format_fat_size_def)
  from format_mount [OF memory_reliable blank_device_ok(1,2) this] show ?thesis
    by (rule returns_mono) simp
qed

text \<open>
  C29. Formatting computes the size of the FATs from the cluster count without the two reserved
  entries.  When the entries of the clusters fill the last sector of the table up to those two, there
  is a cluster of the new file system whose entry lies outside the first FAT, and whose copy, which
  every update of the entry writes, is in the first sector of the root directory.
\<close>

theorem format_fat_overlaps_root:
  assumes "reliable_device dev blocks dinv" and "dinv d" and "block_size dev d = 512"
    and "calc_cluster_count 2 512 8 (length (blocks d)) = (n, rest)" and "2 \<le> n" and "2 \<le> length (blocks d)"
    and "length (blocks d) < 2 ^ 32" and "format_fat_size 512 n * 128 < n + 2"
  shows "returns (with_format dev d) (\<lambda>s d'. \<exists>c. 2 \<le> c \<and> c < max_cluster s + 2 \<and>
    fat_block (bpb s) c = reserved_sector_count (bpb s) + fat_size_32 (bpb s) \<and>
    fat_block (bpb s) c + fat_size_32 (bpb s) = cluster_sector (bpb s) (unat (bpb_root_cluster (bpb s))))"
proof -
  let ?c = "format_fat_size 512 n * 128"
  note F = format_bpb_fields [OF assms(4-7)] and sz = format_sizes [OF assms(4-7)]
  have "returns (with_format dev d) (\<lambda>s d'. s = formatted d' (length (blocks d)) n rest)"
    using reliable_device.with_format_run [OF assms(1), of d "blocks d" n rest] assms
    by (auto elim: returns_mono)
  moreover have "2 \<le> ?c" "?c < n + 2" using sz(3) assms(5,8) by auto
  ultimately show ?thesis
    using F by (auto elim!: returns_mono intro!: exI [of _ ?c] simp: formatted_def fat_block_def cluster_sector_def)
qed

theorem format_fat_overlaps_root_witness:
  "returns (with_format memory_device (blank_device 1022)) (\<lambda>s d'. \<exists>c. 2 \<le> c \<and> c < max_cluster s + 2 \<and>
    fat_block (bpb s) c + fat_size_32 (bpb s) = cluster_sector (bpb s) (unat (bpb_root_cluster (bpb s))))"
proof -
  have "calc_cluster_count 2 512 8 1022 = (127, 0)"
    by (simp add: calc_cluster_count_def wadd64_def wsub64_def)
  then have "calc_cluster_count 2 512 8 (length (memory_blocks (blank_device 1022))) = (127, 0)"
    by (simp add: blank_device_ok)
  from format_fat_overlaps_root [OF memory_reliable blank_device_ok(1,2) this] show ?thesis
    by (simp add: blank_device_ok format_fat_size_def) (auto elim!: returns_mono)
qed

end
