(* ===== verification/Fat32_Fs.thy ===== *)
theory Fat32_Fs
  imports Fat32_Format
begin

text \<open>
  The operations of the trait \<open>FileSystem\<close> (\<open>library/filesystem/src/fs/mod.rs\<close>) on FAT32,
  \<open>library/filesystem/src/fs/fat32.rs\<close>.  Each runs on \<open>Fat32Inner\<close>, whose lock it holds for its whole
  duration.  A path is the list of its segments.
\<close>

section \<open>The operations of \<open>FileSystem\<close>\<close>

definition total_space :: "('d, nat) fs_prog" where
  "total_space = gets (\<lambda>s. max_cluster s * bytes_per_sector (bpb s) * sectors_per_cluster (bpb s))"

definition free_space :: "('d, nat) fs_prog" where
  "free_space = gets (\<lambda>s.
     (case fs_info s of None \<Rightarrow> 0 | Some info \<Rightarrow> unat (fi_free_cluster_count info))
     * bytes_per_sector (bpb s) * sectors_per_cluster (bpb s))"

text \<open>The start cluster of the directory that is to hold a new file or directory.\<close>

definition parent_cluster :: "'d block_device \<Rightarrow> rstr list \<Rightarrow> ('d, nat) fs_prog" where
  "parent_cluster dev parent =
    bind (get_file_metadata dev parent) (\<lambda>directory_metadata.
    case directory_metadata of
      None \<Rightarrow> gets (\<lambda>s. unat (bpb_root_cluster (bpb s)))
    | Some metadata \<Rightarrow>
        if \<not> is_directory_entry metadata then throw FileTypeMismatch
        else ret (metadata_start_cluster metadata))"

text \<open>\<open>match .. { Ok(_) => FileExists, Err(FileNotFound) => (), Err(e) => e }\<close>\<close>

definition require_absent :: "('d, 'a) fs_prog \<Rightarrow> ('d, unit) fs_prog" where
  "require_absent m s =
    (case m s of
       None \<Rightarrow> None
     | Some (r, s') \<Rightarrow>
         Some (case r of Ok _ \<Rightarrow> Err FileExists | Err e \<Rightarrow> if e = FileNotFound then Ok () else Err e
               | Panic \<Rightarrow> Panic | UB \<Rightarrow> UB, s'))"

definition create_file :: "'d block_device \<Rightarrow> rstr list \<Rightarrow> ('d, unit) fs_prog" where
  "create_file dev path =
    (case last_segment path of
       None \<Rightarrow> throw FileExists
     | Some name \<Rightarrow>
         bind (parent_cluster dev (path_parent path)) (\<lambda>directory_cluster.
         bind (require_absent (get_file_metadata_by_cluster dev directory_cluster name)) (\<lambda>_.
         bind (find_available_cluster dev) (\<lambda>cluster.
         catch (create_file_meta dev directory_cluster (metadata_new name cluster ATTR_ARCHIVE))
           (\<lambda>e. bind (free_cluster dev cluster) (\<lambda>_. throw e))))))"

text \<open>\<open>_ = inner.free_cluster(cluster).await; return Err(e);\<close>\<close>

definition free_and_throw :: "'d block_device \<Rightarrow> nat \<Rightarrow> FileSystemError \<Rightarrow> ('d, unit) fs_prog" where
  "free_and_throw dev cluster e =
    bind (catch (free_cluster dev cluster) (\<lambda>_. ret ())) (\<lambda>_. throw e)"

definition create_directory :: "'d block_device \<Rightarrow> rstr list \<Rightarrow> ('d, unit) fs_prog" where
  "create_directory dev path =
    (case last_segment path of
       None \<Rightarrow> throw FileExists
     | Some name \<Rightarrow>
         bind (parent_cluster dev (path_parent path)) (\<lambda>directory_cluster.
         bind (require_absent (get_file_metadata_by_cluster dev directory_cluster name)) (\<lambda>_.
         bind (find_available_cluster dev) (\<lambda>cluster.
         bind (catch
                (bind (get_sector_by_cluster cluster) (\<lambda>sector.
                 bind (gets (\<lambda>s. sectors_per_cluster (bpb s))) (\<lambda>n.
                 io (write_zeros dev sector n))))
                (free_and_throw dev cluster)) (\<lambda>_.
         catch (create_file_meta dev directory_cluster (metadata_new name cluster ATTR_DIRECTORY))
           (free_and_throw dev cluster))))))"

record Fat32FileHandle =
  fh_inner :: bool
  fh_metadata :: Fat32FileMetadata
  fh_pointer :: nat
  fh_closed :: bool

definition open_file :: "'d block_device \<Rightarrow> rstr list \<Rightarrow> ('d, Fat32FileHandle) fs_prog" where
  "open_file dev path =
    bind (get_file_metadata dev path) (\<lambda>file.
    case file of
      None \<Rightarrow> throw FileTypeMismatch
    | Some file \<Rightarrow>
        if is_directory_entry file then throw FileTypeMismatch
        else bind (gets occupied_file) (\<lambda>occupied.
          if metadata_start_cluster file \<in> occupied then throw FileOccupied
          else
            bind (modify (\<lambda>s. s\<lparr>occupied_file := insert (metadata_start_cluster file) occupied\<rparr>)) (\<lambda>_.
            ret \<lparr>fh_inner = True, fh_metadata = file, fh_pointer = 0, fh_closed = False\<rparr>)))"

definition delete_file :: "'d block_device \<Rightarrow> rstr list \<Rightarrow> ('d, unit) fs_prog" where
  "delete_file dev path =
    bind (get_file_metadata dev path) (\<lambda>file.
    case file of
      None \<Rightarrow> throw FileTypeMismatch
    | Some file \<Rightarrow>
        if is_directory_entry file then throw FileTypeMismatch
        else bind (gets occupied_file) (\<lambda>occupied.
          if metadata_start_cluster file \<in> occupied then throw FileOccupied
          else
            bind (delete_file_meta dev file) (\<lambda>_.
            free_chain dev (metadata_start_cluster file))))"

definition delete_directory :: "'d block_device \<Rightarrow> rstr list \<Rightarrow> ('d, unit) fs_prog" where
  "delete_directory dev path =
    bind (get_file_metadata dev path) (\<lambda>file.
    case file of
      None \<Rightarrow> throw OperationNotSupport
    | Some file \<Rightarrow>
        if \<not> is_directory_entry file then throw FileTypeMismatch
        else
          bind (get_all_filemeta_by_cluster dev (metadata_start_cluster file)) (\<lambda>files.
          if files \<noteq> [] then throw FileExists
          else
            bind (delete_file_meta dev file) (\<lambda>_.
            free_chain dev (metadata_start_cluster file))))"

definition rename :: "'d block_device \<Rightarrow> rstr list \<Rightarrow> rstr list \<Rightarrow> ('d, unit) fs_prog" where
  "rename dev old_path new_path =
    bind (get_file_metadata dev old_path) (\<lambda>src.
    case src of
      None \<Rightarrow> throw OperationNotSupport
    | Some src \<Rightarrow>
        bind (get_file_metadata dev (path_parent new_path)) (\<lambda>dst_parent.
        bind (gets (\<lambda>s. case dst_parent of None \<Rightarrow> unat (bpb_root_cluster (bpb s))
                        | Some metadata \<Rightarrow> metadata_start_cluster metadata)) (\<lambda>dst_parent_cluster.
        case last_segment new_path of
          None \<Rightarrow> throw OperationNotSupport
        | Some name \<Rightarrow>
            bind (require_absent (get_file_metadata_by_cluster dev dst_parent_cluster name)) (\<lambda>_.
            bind (delete_file_meta dev src) (\<lambda>_.
            create_file_meta dev dst_parent_cluster src)))))"

definition get_metadata :: "'d block_device \<Rightarrow> rstr list \<Rightarrow> ('d, FileMetadata) fs_prog" where
  "get_metadata dev path =
    bind (get_file_metadata dev path) (\<lambda>file.
    case file of None \<Rightarrow> throw OperationNotSupport | Some file \<Rightarrow> get_fs_metadata dev file)"

definition list_directory :: "'d block_device \<Rightarrow> rstr list \<Rightarrow> ('d, FileMetadata list) fs_prog" where
  "list_directory dev path =
    bind (get_file_metadata dev path) (\<lambda>file.
    if (case file of None \<Rightarrow> False | Some file \<Rightarrow> \<not> is_directory_entry file) then throw FileTypeMismatch
    else
      bind (gets (\<lambda>s. case file of None \<Rightarrow> unat (bpb_root_cluster (bpb s))
                      | Some file \<Rightarrow> metadata_start_cluster file)) (\<lambda>cluster.
      bind (get_all_filemeta_by_cluster dev cluster) (\<lambda>files.
      for_each files (\<lambda>file result.
        bind (get_fs_metadata dev file) (\<lambda>metadata. ret (result @ [metadata]))) [])))"

definition unmount :: "('d, unit) fs_prog" where
  "unmount = ret ()"

section \<open>Creation and lookup\<close>

text \<open>A lookup that gives in the state \<open>s'\<close> what it gave in \<open>s\<close>.\<close>

definition same_lookup :: "'d block_device \<Rightarrow> nat \<Rightarrow> rstr \<Rightarrow> 'd Fat32Inner \<Rightarrow> 'd Fat32Inner \<Rightarrow> bool" where
  "same_lookup dev d name s s' \<longleftrightarrow>
     get_file_metadata_by_cluster dev d name s'
       = map_option (\<lambda>(r, _). (r, s')) (get_file_metadata_by_cluster dev d name s)"

text \<open>The outcome of a successful creation of a file in the directory \<open>d\<close> with clusters \<open>cs\<close>.\<close>

definition file_created ::
  "'d block_device \<Rightarrow> ('d \<Rightarrow> u8 list list) \<Rightarrow> nat \<Rightarrow> nat list \<Rightarrow> rstr \<Rightarrow> 'd Fat32Inner \<Rightarrow> 'd Fat32Inner \<Rightarrow> bool" where
  "file_created dev blocks d cs name s s' \<longleftrightarrow>
     count_ok blocks s' \<and>
     (\<exists>c p. c \<in> free_clusters blocks s \<and> data_chain blocks s' c [c] \<and>
        get_file_metadata_by_cluster dev d name s' = Some (Ok p, s') \<and>
        metadata_start_cluster p = c \<and> name_to_string p = name \<and> \<not> is_directory_entry p) \<and>
     (\<forall>other. (\<forall>k \<in> set other. is_scalar k) \<longrightarrow> other \<noteq> name \<longrightarrow> same_lookup dev d other s s') \<and>
     (\<forall>k. 2 \<le> k \<longrightarrow> k < max_cluster s + 2 \<longrightarrow> k \<notin> set cs \<longrightarrow> k \<notin> free_clusters blocks s \<longrightarrow>
        fat_of blocks s' k = fat_of blocks s k \<and> cluster_of blocks s' k = cluster_of blocks s k)"

text \<open>The reasons for which a creation is refused: a name too long for a sector, or a full disk.\<close>

definition create_refused :: "('d \<Rightarrow> u8 list list) \<Rightarrow> 'd Fat32Inner \<Rightarrow> rstr \<Rightarrow> FileSystemError \<Rightarrow> bool" where
  "create_refused blocks s name e \<longleftrightarrow>
     e = NameTooLang \<and> sector_entries (bpb s) \<le> length (long_entries (encode_utf16 name)) \<or>
     e = DiskFull \<and> card (free_clusters blocks s) \<le> 1"

lemma is_named_new:
  assumes "name_ok name" and "\<forall>c \<in> set other. is_scalar c" and "length (encode_utf16 name) \<le> 13 * 256"
    and "fm_long p = fm_long (metadata_new name c attr)"
  shows "is_named other p \<longleftrightarrow> other = name"
proof -
  have scalar: "\<forall>c \<in> set name. is_scalar c" and ne: "name \<noteq> []" using assms(1) by (auto simp: name_ok_def)
  have nonzero: "0 \<notin> set (encode_utf16 name)"
    using encode_utf16_nonzero assms(1) unfolding name_ok_def by blast
  have "concat (map entry_text (long_entries (encode_utf16 name))) = encode_utf16 name"
    using nonzero by (intro long_entries_concat entry_text_long_entry)
  then show ?thesis
    using assms scalar ne
    by (auto simp: is_named_def sort_long_def sort_long_entries name_match_long_iff encode_utf16_inject)
qed

context reliable_device
begin

lemma packed_table_step:
  assumes d: "packed_directory dev blocks dinv s d cs F" and "c \<in> free_clusters blocks s"
    and st: "table_step dev blocks dinv ((fat_of blocks s)(c := v)) g s s'"
  shows "packed_directory dev blocks dinv s' d cs F" and "files_of blocks s' cs = files_of blocks s cs"
proof -
  note D = packed_directoryD [OF d] and S = table_stepD [OF st]
  have fat: "fat_of blocks s' x = fat_of blocks s x" if "x \<in> set cs" for x
    using S(8) [OF D(8) [OF that]] D(5) [OF that] assms(2) by (auto simp: free_clusters_def)
  have dir: "packed_dir (bpb s') (blocks (device s')) cs F"
    using D(4) S(9) unfolding packed_dir_def S(2) by simp
  have "is_chain (fat_of blocks s') d cs"
    using D(2) fat by (subst is_chain_cong [of cs _ "fat_of blocks s"]) (auto simp: data_chain_def)
  then have "data_chain blocks s' d cs" using D(6,7) S(3) by (auto simp: data_chain_def)
  then show "packed_directory dev blocks dinv s' d cs F"
    using S(1) D(3,5) fat dir by (auto simp: packed_directory_def)
  then show "files_of blocks s' cs = files_of blocks s cs"
    using packed_directoryD(10) D(10) S(2) by metis
qed

lemma free_clusters_taken:
  assumes "wf s" and "table_step dev blocks dinv ((fat_of blocks s)(c := FAT_ENTRY_EOC_START)) g s s1"
  shows "free_clusters blocks s1 = free_clusters blocks s - {c}"
  using data_cluster_capacity [OF assms(1)] table_stepD(3,8) [OF assms(2)]
  by (auto simp: free_clusters_def fat_entry_defs split: if_splits)

lemma lookup_packed:
  assumes "packed_directory dev blocks dinv s d cs F"
  shows "get_file_metadata_by_cluster dev d name s =
    (case find (is_named name) (files_of blocks s cs) of
       None \<Rightarrow> Some (Err FileNotFound, s) | Some m \<Rightarrow> Some (Ok (sorted_file m), s))"
  using lookup_run packed_directoryD(1,2) [OF assms] by blast

text \<open>After a creation the new name is found, and every other name is looked up as before.\<close>

lemma lookup_added:
  assumes d: "packed_directory dev blocks dinv s d cs F"
    and add: "file_added dev blocks dinv d cs (metadata_new name c attr) s s'"
    and name: "name_ok name" "length (encode_utf16 name) \<le> 13 * 256"
    and absent: "find (is_named name) (files_of blocks s cs) = None"
  shows "\<exists>p. get_file_metadata_by_cluster dev d name s' = Some (Ok p, s')
      \<and> fm_short p = fm_short (metadata_new name c attr) \<and> name_to_string p = name"
    and "\<forall>k \<in> set other. is_scalar k \<Longrightarrow> other \<noteq> name \<Longrightarrow> same_lookup dev d other s s'"
proof -
  obtain new F' xs p ys where d': "packed_directory dev blocks dinv s' d (cs @ new) F'"
    and fs: "files_of blocks s cs = xs @ ys" "files_of blocks s' (cs @ new) = xs @ [p] @ ys"
    and p: "fm_short p = fm_short (metadata_new name c attr)" "fm_long p = fm_long (metadata_new name c attr)"
    using add unfolding file_added_def by auto
  have scalar: "\<forall>c \<in> set name. is_scalar c" and ne: "name \<noteq> []" using name(1) by (auto simp: name_ok_def)
  note named = is_named_new [OF name(1) _ name(2) p(2)]
  have "find (is_named name) (xs @ [p] @ ys) = Some p"
    using absent named [OF scalar] by (auto simp: fs find_append find_None_iff split: option.splits dest: find_SomeD)
  then have "get_file_metadata_by_cluster dev d name s' = Some (Ok (sorted_file p), s')"
    using lookup_packed [OF d', of name] fs by simp
  moreover have "name_to_string (metadata_new name c attr) = name"
  proof -
    have "0 \<notin> set (encode_utf16 name)" using encode_utf16_nonzero name(1) unfolding name_ok_def by blast
    then have "concat (map entry_units (long_entries (encode_utf16 name))) = encode_utf16 name"
      by (intro long_entries_concat entry_units_long_entry)
    then show ?thesis using scalar ne by (simp add: name_to_string_def from_utf16_encode)
  qed
  ultimately show "\<exists>p. get_file_metadata_by_cluster dev d name s' = Some (Ok p, s')
      \<and> fm_short p = fm_short (metadata_new name c attr) \<and> name_to_string p = name"
    using p name(2) ne by (intro exI [of _ "sorted_file p"])
      (simp add: sorted_file_def sort_long_def sort_long_entries name_to_string_def)
  assume "\<forall>k \<in> set other. is_scalar k" "other \<noteq> name"
  then have "find (is_named other) (xs @ [p] @ ys) = find (is_named other) (xs @ ys)"
    using named [of other] by (simp add: find_append split: option.splits)
  then show "same_lookup dev d other s s'"
    using lookup_packed [OF d', of other] lookup_packed [OF d, of other] fs
    by (simp add: same_lookup_def split: option.splits)
qed

text \<open>A cluster that was taken and is freed again: the table is as before.\<close>

lemma free_taken_cluster:
  assumes wf: "wf s" and c: "c \<in> free_clusters blocks s" and ok: "count_ok blocks s1"
    and st: "table_step dev blocks dinv ((fat_of blocks s)(c := FAT_ENTRY_EOC_START)) g s s1"
  shows "returns (free_cluster dev c s1) (\<lambda>_ s'. count_ok blocks s'
    \<and> fs_step dev blocks dinv (fat_of blocks s) (cluster_of blocks s) s s')"
proof -
  note S = table_stepD [OF st]
  have c': "2 \<le> c" "c < max_cluster s + 2" "fat_of blocks s c = FAT_ENTRY_FREE"
    using c by (auto simp: free_clusters_def)
  then have cap: "c < fat_capacity (bpb s)" using data_cluster_capacity [OF wf] by blast
  show ?thesis
  proof (rule returns_mono [OF free_cluster_step [OF S(1)]])
    show "c < fat_capacity (bpb s1)" using cap S(2) by simp
    fix u s'
    assume st': "table_step dev blocks dinv ((fat_of blocks s1)(c := FAT_ENTRY_FREE))
       (\<lambda>i. i\<lparr>fi_free_cluster_count := fi_free_cluster_count i + 1\<rparr>) s1 s'"
    have used: "fat_of blocks s1 c \<noteq> FAT_ENTRY_FREE" using S(8) [OF cap] by (simp add: fat_entry_defs)
    have upd: "(fat_of blocks s1)(c := FAT_ENTRY_FREE)
        = (\<lambda>x. if x \<in> set [c] then FAT_ENTRY_FREE else fat_of blocks s1 x)" by auto
    have "count_ok blocks s'"
      by (rule count_ok_release [OF S(1) ok, of "[c]"])
         (use c' used S(3) st' [unfolded upd] in simp_all)
    moreover have "fs_step dev blocks dinv (fat_of blocks s) (cluster_of blocks s) s s'"
      by (rule fs_step_cong [OF fs_step_trans [OF table_step_fs_step [OF st] table_step_fs_step [OF st']]])
         (use S(8,9) c'(3) in auto)
    ultimately show "count_ok blocks s' \<and> fs_step dev blocks dinv (fat_of blocks s) (cluster_of blocks s) s s'" ..
  qed
qed

lemma create_file_run:
  assumes d: "packed_directory dev blocks dinv s d cs F" and ok: "count_ok blocks s"
    and path: "path \<noteq> []" "last path = name" "parent_cluster dev (path_parent path) s = Some (Ok d, s)"
    and name: "name_ok name" "length (encode_utf16 name) \<le> 13 * 256"
    and absent: "find (is_named name) (files_of blocks s cs) = None"
  shows "(\<exists>e s'. create_file dev path s = Some (Err e, s') \<and> create_refused blocks s name e
      \<and> fs_step dev blocks dinv (fat_of blocks s) (cluster_of blocks s) s s' \<and> count_ok blocks s')
    \<or> returns (create_file dev path s) (\<lambda>_ s'. \<exists>c s1. c \<in> free_clusters blocks s
      \<and> table_step dev blocks dinv ((fat_of blocks s)(c := FAT_ENTRY_EOC_START))
          (\<lambda>i. i\<lparr>fi_free_cluster_count := fi_free_cluster_count i - 1\<rparr>) s s1
      \<and> file_added dev blocks dinv d cs (metadata_new name c ATTR_ARCHIVE) s1 s')"
proof -
  note D = packed_directoryD [OF d]
  have same: "fs_step dev blocks dinv (fat_of blocks s) (cluster_of blocks s) s s"
    using D(1) by (simp add: fs_step_def)
  have run: "create_file dev path s = bind (find_available_cluster dev) (\<lambda>cluster.
      catch (create_file_meta dev d (metadata_new name cluster ATTR_ARCHIVE))
        (\<lambda>e. bind (free_cluster dev cluster) (\<lambda>_. throw e))) s"
    using path absent lookup_packed [OF d, of name]
    by (simp add: create_file_def last_segment_def require_absent_def bind_def)
  show ?thesis
  proof (cases "free_clusters blocks s = {}")
    case True
    then show ?thesis
      using run find_available_cluster_full [OF D(1) ok True] same ok by (simp add: create_refused_def)
  next
    case False
    obtain c s1 where take: "find_available_cluster dev s = Some (Ok c, s1)" "c \<in> free_clusters blocks s"
      and ok1: "count_ok blocks s1"
      and st: "table_step dev blocks dinv ((fat_of blocks s)(c := FAT_ENTRY_EOC_START))
         (\<lambda>i. i\<lparr>fi_free_cluster_count := fi_free_cluster_count i - 1\<rparr>) s s1"
      using find_available_cluster_some [OF D(1) ok False] by (auto elim!: returnsE)
    let ?m = "metadata_new name c ATTR_ARCHIVE"
    note d1 = packed_table_step(1) [OF d take(2) st] and S = table_stepD [OF st]
    have grp: "meta_of_group ?m (encode_utf16 name, fm_short ?m)"
      using name by (intro metadata_new_group) (auto simp: name_ok_def attr_defs)
    have run1: "create_file dev path s = catch (create_file_meta dev d ?m)
        (\<lambda>e. bind (free_cluster dev c) (\<lambda>_. throw e)) s1"
      using run take by simp
    have "create_refused blocks s name DiskFull" if "free_clusters blocks s1 = {}"
    proof -
      have "free_clusters blocks s \<subseteq> {c}" using that free_clusters_taken [OF D(1) st] by auto
      then show ?thesis using card_mono [of "{c}" "free_clusters blocks s"] by (simp add: create_refused_def)
    qed
    then consider e where "create_file_meta dev d ?m s1 = Some (Err e, s1)" "create_refused blocks s name e"
      | "returns (create_file_meta dev d ?m s1) (\<lambda>_. file_added dev blocks dinv d cs ?m s1)"
      using create_file_meta_run [OF d1 ok1 grp] S(2) by (auto simp: create_refused_def)
    then show ?thesis
    proof cases
      case (1 e)
      then have "create_file dev path s = bind (free_cluster dev c) (\<lambda>_. throw e) s1"
        using run1 by (simp add: catch_def)
      then show ?thesis
        using free_taken_cluster [OF D(1) take(2) ok1 st] 1(2) by (auto elim!: returnsE)
    next
      case 2
      then show ?thesis using run1 take(2) st by (auto simp: catch_def elim!: returnsE)
    qed
  qed
qed

lemma file_added_new_cluster:
  assumes d: "packed_directory dev blocks dinv s d cs F" and c: "c \<in> free_clusters blocks s"
    and st: "table_step dev blocks dinv ((fat_of blocks s)(c := FAT_ENTRY_EOC_START)) g s s1"
    and add: "file_added dev blocks dinv d cs m s1 s'"
  shows "count_ok blocks s'" and "data_chain blocks s' c [c]"
    and "2 \<le> k \<Longrightarrow> k < max_cluster s + 2 \<Longrightarrow> k \<notin> set cs \<Longrightarrow> k \<notin> free_clusters blocks s \<Longrightarrow>
      fat_of blocks s' k = fat_of blocks s k \<and> cluster_of blocks s' k = cluster_of blocks s k"
proof -
  note D = packed_directoryD [OF d] and S = table_stepD [OF st]
  obtain new where new: "set new \<subseteq> free_clusters blocks s1" and ok: "count_ok blocks s'"
    and b: "bpb s' = bpb s1" "max_cluster s' = max_cluster s1"
    and clus: "\<And>k. 2 \<le> k \<Longrightarrow> k \<notin> set (cs @ new) \<Longrightarrow> cluster_of blocks s' k = cluster_of blocks s1 k"
    and fat: "\<And>k. k < fat_capacity (bpb s1) \<Longrightarrow> k \<notin> set (cs @ new) \<Longrightarrow> fat_of blocks s' k = fat_of blocks s1 k"
    using add unfolding file_added_def by blast
  show "count_ok blocks s'" by (rule ok)
  have c': "2 \<le> c" "c < max_cluster s + 2" "fat_of blocks s c = FAT_ENTRY_FREE"
    using c by (auto simp: free_clusters_def)
  have cap: "k < fat_capacity (bpb s)" if "k < max_cluster s + 2" for k
    using that data_cluster_capacity [OF D(1)] by blast
  note free1 = free_clusters_taken [OF D(1) st]
  have "c \<notin> set (cs @ new)" using new free1 c'(3) D(5) by auto
  then have "fat_of blocks s' c = FAT_ENTRY_EOC_START"
    using fat [of c] S(2) S(8) [OF cap [OF c'(2)]] cap [OF c'(2)] by simp
  moreover have "in_chain c" "\<not> in_chain FAT_ENTRY_EOC_START"
    using c' wf_geometry [OF D(1)] by (auto simp: in_chain_def fat32_geometry_def fat_entry_defs)
  ultimately show "data_chain blocks s' c [c]" using c' b S(3) by (simp add: data_chain_def)
  assume k: "2 \<le> k" "k < max_cluster s + 2" "k \<notin> set cs" "k \<notin> free_clusters blocks s"
  then have "k \<notin> set (cs @ new)" "k \<noteq> c" using new free1 c by auto
  then show "fat_of blocks s' k = fat_of blocks s k \<and> cluster_of blocks s' k = cluster_of blocks s k"
    using clus [OF k(1)] fat [of k] S(2,9) S(8) [OF cap [OF k(2)]] cap [OF k(2)] by simp
qed

lemma same_lookup_taken:
  assumes "packed_directory dev blocks dinv s d cs F" and "c \<in> free_clusters blocks s"
    and "table_step dev blocks dinv ((fat_of blocks s)(c := v)) g s s1" and "same_lookup dev d other s1 s'"
  shows "same_lookup dev d other s s'"
  using assms(4) lookup_packed [OF assms(1), of other] lookup_packed [OF packed_table_step(1) [OF assms(1-3)], of other]
    packed_table_step(2) [OF assms(1-3)]
  by (simp add: same_lookup_def split: option.splits)

lemma file_createdI:
  assumes d: "packed_directory dev blocks dinv s d cs F" and c: "c \<in> free_clusters blocks s"
    and st: "table_step dev blocks dinv ((fat_of blocks s)(c := FAT_ENTRY_EOC_START)) g s s1"
    and add: "file_added dev blocks dinv d cs (metadata_new name c ATTR_ARCHIVE) s1 s'"
    and name: "name_ok name" "length (encode_utf16 name) \<le> 13 * 256"
    and absent: "find (is_named name) (files_of blocks s cs) = None"
  shows "file_created dev blocks d cs name s s'"
proof -
  note d1 = packed_table_step [OF d c st] and new = file_added_new_cluster [OF d c st add]
  note look = lookup_added [OF d1(1) add name absent [folded d1(2)]]
  obtain p where p: "get_file_metadata_by_cluster dev d name s' = Some (Ok p, s')"
    "fm_short p = fm_short (metadata_new name c ATTR_ARCHIVE)" "name_to_string p = name"
    using look(1) by blast
  have "c < 2 ^ 32"
    using c d by (auto simp: free_clusters_def packed_directory_def fs_wf_def fat32_geometry_def fat_entry_defs)
  then have "metadata_start_cluster p = c"
    using start_cluster_new [of c name ATTR_ARCHIVE] p(2) by (simp add: metadata_start_cluster_def)
  moreover have "\<not> is_directory_entry p"
    using p(2) by (simp add: is_directory_entry_def metadata_new_def attr_defs)
  ultimately show ?thesis
    unfolding file_created_def using c new p look(2) same_lookup_taken [OF d c st] by blast
qed

end


lemma example_path_lookup:
  "encode_utf16 [0x61] = [0x61]" "name_ok [0x61]"
  by (simp_all add: encode_utf16_def utf16_char_def name_ok_def is_scalar_def)


end
