(* ===== verification/Fat32_File.thy ===== *)
theory Fat32_File
  imports Fat32_Fs
begin

text \<open>
  File handles, \<open>Fat32FileHandle\<close> of \<open>library/filesystem/src/fs/fat32.rs\<close>: \<open>close\<close>, \<open>move_pointer\<close>,
  \<open>get_pointer\<close>, \<open>read\<close> and \<open>write\<close>.

  A handle holds a weak reference to the file system.  The state of an operation is the file system,
  \<open>None\<close> once it has been dropped, and the handle; \<open>upgrade\<close> runs a body on both when the reference is
  live.  \<open>read\<close> returns the buffer with the number of bytes read.

  The lemmas relate \<open>read\<close> and \<open>write\<close> to the content of the file: the bytes of the sectors of its
  clusters in the order of the chain.
\<close>

section \<open>Handles\<close>

type_synonym 'd file_state = "'d Fat32Inner option \<times> Fat32FileHandle"

record 'd file_ctx =
  fc_inner :: "'d Fat32Inner"
  fc_handle :: Fat32FileHandle

type_synonym ('d, 'a) file_prog = "('d file_state, FileSystemError, 'a) prog"
type_synonym ('d, 'a) ctx_prog = "('d file_ctx, FileSystemError, 'a) prog"

definition upgrade :: "('d, 'a) ctx_prog \<Rightarrow> ('d, 'a) file_prog" where
  "upgrade m = (\<lambda>(inner, h).
    case (if fh_inner h then inner else None) of
      None \<Rightarrow> Some (Err Unmounted, (inner, h))
    | Some s \<Rightarrow>
        (case m \<lparr>fc_inner = s, fc_handle = h\<rparr> of
           None \<Rightarrow> None
         | Some (r, c) \<Rightarrow> Some (r, (Some (fc_inner c), fc_handle c))))"

definition on_inner :: "('d, 'a) fs_prog \<Rightarrow> ('d, 'a) ctx_prog" where
  "on_inner m = zoom fc_inner (\<lambda>s c. c\<lparr>fc_inner := s\<rparr>) (\<lambda>e. e) m"

definition pointer_of :: "('d, nat) ctx_prog" where
  "pointer_of = gets (\<lambda>c. fh_pointer (fc_handle c))"

definition advance_pointer :: "nat \<Rightarrow> ('d, unit) ctx_prog" where
  "advance_pointer n =
     modify (\<lambda>c. c\<lparr>fc_handle := (fc_handle c)\<lparr>fh_pointer := wadd64 (fh_pointer (fc_handle c)) n\<rparr>\<rparr>)"

definition handle_of :: "('d, Fat32FileHandle) file_prog" where
  "handle_of = gets snd"

definition close_handle :: "('d, unit) file_prog" where
  "close_handle =
    bind handle_of (\<lambda>h.
    if fh_closed h then throw FileClosed
    else upgrade (modify (\<lambda>c. \<lparr>
      fc_inner = (fc_inner c)\<lparr>occupied_file :=
        occupied_file (fc_inner c) - {metadata_start_cluster (fh_metadata (fc_handle c))}\<rparr>,
      fc_handle = (fc_handle c)\<lparr>fh_inner := False, fh_closed := True\<rparr>\<rparr>)))"

definition move_pointer :: "nat \<Rightarrow> ('d, unit) file_prog" where
  "move_pointer position =
    bind handle_of (\<lambda>h.
    if fh_closed h then throw FileClosed
    else modify (\<lambda>(inner, h).
      (inner, h\<lparr>fh_pointer := min position (unat (de_file_size (fm_short (fh_metadata h))))\<rparr>)))"

definition get_pointer :: "('d, nat) file_prog" where
  "get_pointer =
    bind handle_of (\<lambda>h.
    if fh_closed h then throw FileClosed else ret (fh_pointer h))"

section \<open>Reading\<close>

text \<open>
  The loop's variables are \<open>offset\<close>, \<open>assign_offset\<close>, \<open>remain\<close> and the buffer; the pointer is in the
  handle.  The flag records that \<open>remain\<close> has reached zero and the loops are left.
\<close>

definition read_sector ::
  "nat \<Rightarrow> nat \<Rightarrow> u8 list \<Rightarrow> nat \<Rightarrow> nat \<times> nat \<times> nat \<times> u8 list \<times> bool
    \<Rightarrow> ('d, nat \<times> nat \<times> nat \<times> u8 list \<times> bool) ctx_prog" where
  "read_sector bps bsize cluster_buffer i = (\<lambda>(offset, assign_offset, remain, buf, left).
    if left then ret (offset, assign_offset, remain, buf, left)
    else bind pointer_of (\<lambda>pointer.
      if wadd64 offset bps < pointer then ret (wadd64 offset bps, assign_offset, remain, buf, False)
      else
        let copy_start = wsub64 pointer offset;
            copy_length = min (wsub64 bps copy_start) remain
        in bind (assert (i * bsize + copy_start + copy_length \<le> length cluster_buffer)) (\<lambda>_.
           bind (assert (assign_offset + copy_length \<le> length buf)) (\<lambda>_.
           bind (advance_pointer copy_length) (\<lambda>_.
           bind pointer_of (\<lambda>pointer.
           let buf = patch assign_offset (slice (i * bsize + copy_start) copy_length cluster_buffer) buf;
               offset = wadd64 offset bps;
               remain = remain - copy_length
           in if remain = 0 then ret (offset, assign_offset + copy_length, remain, buf, True)
              else bind (assert (offset = pointer)) (\<lambda>_.
                   ret (offset, assign_offset + copy_length, remain, buf, False))))))))"

partial_function (option) read_loop ::
  "'d block_device \<Rightarrow> nat \<Rightarrow> u8 list \<Rightarrow> nat \<times> nat \<times> nat \<times> u8 list \<Rightarrow> 'd file_ctx
    \<Rightarrow> ((FileSystemError, u8 list) res \<times> 'd file_ctx) option" where
  "read_loop dev cluster cluster_buffer acc c =
    (case acc of (offset, assign_offset, remain, buf) \<Rightarrow>
     if cluster \<noteq> FAT_ENTRY_FREE \<and> cluster < FAT_ENTRY_EOC_START \<and> remain > 0 then
       bind (gets (\<lambda>c. (bpb (fc_inner c), block_size dev (device (fc_inner c)),
                        fh_pointer (fc_handle c)))) (\<lambda>(b, bsize, pointer) c.
       if wadd64 offset (bytes_per_sector b * sectors_per_cluster b) < pointer then
         bind (on_inner (get_next_cluster dev cluster)) (\<lambda>cluster.
         read_loop dev cluster cluster_buffer
           (wadd64 offset (bytes_per_sector b * sectors_per_cluster b), assign_offset, remain, buf)) c
       else
         bind (on_inner (get_sector_by_cluster cluster)) (\<lambda>sector.
         bind (on_inner (io (read_blocks dev sector (sectors_per_cluster b) cluster_buffer)))
           (\<lambda>cluster_buffer.
         bind (for_each [0..<sectors_per_cluster b]
                (read_sector (bytes_per_sector b) bsize cluster_buffer)
                (offset, assign_offset, remain, buf, False)) (\<lambda>(offset, assign_offset, remain, buf, left) c.
         if left then ret buf c
         else bind (on_inner (get_next_cluster dev cluster)) (\<lambda>cluster.
              read_loop dev cluster cluster_buffer (offset, assign_offset, remain, buf)) c))) c) c
     else ret buf c)"

definition read_file :: "'d block_device \<Rightarrow> u8 list \<Rightarrow> ('d, nat \<times> u8 list) file_prog" where
  "read_file dev buf =
    bind handle_of (\<lambda>h.
    if fh_closed h then throw FileClosed
    else upgrade (
      bind (gets (\<lambda>c. (fc_inner c, fc_handle c))) (\<lambda>(s, h).
      let file_size = unat (de_file_size (fm_short (fh_metadata h)));
          read_length = min (length buf) (wsub64 file_size (fh_pointer h))
      in bind (read_loop dev (metadata_start_cluster (fh_metadata h))
                (replicate (block_size dev (device s) * sectors_per_cluster (bpb s)) 0)
                (0, 0, read_length, buf)) (\<lambda>buf.
         ret (read_length, buf)))))"

section \<open>Writing\<close>

definition write_sector ::
  "u8 list \<Rightarrow> nat \<Rightarrow> nat \<Rightarrow> nat \<Rightarrow> nat \<times> nat \<times> nat \<times> u8 list \<times> bool
    \<Rightarrow> ('d, nat \<times> nat \<times> nat \<times> u8 list \<times> bool) ctx_prog" where
  "write_sector buf bps bsize i = (\<lambda>(offset, write_offset, remain, cluster_buffer, left).
    if left then ret (offset, write_offset, remain, cluster_buffer, left)
    else bind pointer_of (\<lambda>pointer.
      if wadd64 offset bps < pointer then ret (wadd64 offset bps, write_offset, remain, cluster_buffer, False)
      else
        let copy_start = wsub64 pointer offset;
            copy_length = min (wsub64 bps copy_start) remain
        in bind (assert (i * bsize + copy_start + copy_length \<le> length cluster_buffer)) (\<lambda>_.
           bind (assert (write_offset + copy_length \<le> length buf)) (\<lambda>_.
           bind (advance_pointer copy_length) (\<lambda>_.
           bind pointer_of (\<lambda>pointer.
           let cluster_buffer = patch (i * bsize + copy_start) (slice write_offset copy_length buf) cluster_buffer;
               offset = wadd64 offset bps;
               remain = remain - copy_length
           in if remain = 0 then ret (offset, write_offset + copy_length, remain, cluster_buffer, True)
              else bind (assert (offset = pointer)) (\<lambda>_.
                   ret (offset, write_offset + copy_length, remain, cluster_buffer, False))))))))"

text \<open>The loop over the clusters the file has; it returns the loop's variables and the last cluster.\<close>

partial_function (option) write_loop ::
  "'d block_device \<Rightarrow> u8 list \<Rightarrow> nat \<Rightarrow> nat \<Rightarrow> u8 list \<Rightarrow> nat \<times> nat \<times> nat \<Rightarrow> 'd file_ctx
    \<Rightarrow> ((FileSystemError, nat \<times> u8 list \<times> nat \<times> nat \<times> nat) res \<times> 'd file_ctx) option" where
  "write_loop dev buf cluster last_cluster cluster_buffer acc c =
    (case acc of (offset, write_offset, remain) \<Rightarrow>
     if cluster \<noteq> FAT_ENTRY_FREE \<and> cluster < FAT_ENTRY_EOC_START \<and> remain > 0 then
       bind (gets (\<lambda>c. (bpb (fc_inner c), block_size dev (device (fc_inner c)),
                        fh_pointer (fc_handle c)))) (\<lambda>(b, bsize, pointer) c.
       if wadd64 offset (bytes_per_sector b * sectors_per_cluster b) < pointer then
         bind (on_inner (get_next_cluster dev cluster)) (\<lambda>next.
         write_loop dev buf next cluster cluster_buffer
           (wadd64 offset (bytes_per_sector b * sectors_per_cluster b), write_offset, remain)) c
       else
         bind (on_inner (get_sector_by_cluster cluster)) (\<lambda>current_sector.
         bind (on_inner (io (read_blocks dev current_sector (sectors_per_cluster b) cluster_buffer)))
           (\<lambda>cluster_buffer.
         bind (for_each [0..<sectors_per_cluster b] (write_sector buf (bytes_per_sector b) bsize)
                (offset, write_offset, remain, cluster_buffer, False))
           (\<lambda>(offset, write_offset, remain, cluster_buffer, left).
         bind (on_inner (io (write_blocks dev current_sector (sectors_per_cluster b) cluster_buffer))) (\<lambda>_.
         bind (on_inner (get_next_cluster dev cluster)) (\<lambda>next.
         write_loop dev buf next cluster cluster_buffer (offset, write_offset, remain)))))) c) c
     else ret (last_cluster, cluster_buffer, offset, write_offset, remain) c)"

text \<open>The loop that appends clusters.\<close>

partial_function (option) append_loop ::
  "'d block_device \<Rightarrow> u8 list \<Rightarrow> nat \<Rightarrow> u8 list \<Rightarrow> nat \<times> nat \<times> nat \<Rightarrow> 'd file_ctx
    \<Rightarrow> ((FileSystemError, unit) res \<times> 'd file_ctx) option" where
  "append_loop dev buf last_cluster cluster_buffer acc c =
    (case acc of (offset, write_offset, remain) \<Rightarrow>
     if remain > 0 then
       bind (on_inner (find_available_cluster dev)) (\<lambda>cluster.
       bind (assert (in_chain cluster)) (\<lambda>_.
       bind (assert (in_chain last_cluster)) (\<lambda>_.
       bind (on_inner (update_cluster dev last_cluster cluster)) (\<lambda>_.
       bind (gets (\<lambda>c. (bpb (fc_inner c), block_size dev (device (fc_inner c))))) (\<lambda>(b, bsize).
       bind (for_each [0..<sectors_per_cluster b] (write_sector buf (bytes_per_sector b) bsize)
              (offset, write_offset, remain, replicate (length cluster_buffer) 0, False))
         (\<lambda>(offset, write_offset, remain, cluster_buffer, left).
       bind (on_inner (get_sector_by_cluster cluster)) (\<lambda>sector.
       bind (on_inner (io (write_blocks dev sector (sectors_per_cluster b) cluster_buffer))) (\<lambda>_.
       append_loop dev buf cluster cluster_buffer (offset, write_offset, remain))))))))) c
     else ret () c)"

text \<open>The size of the file, when the pointer has passed it.\<close>

definition finish_write :: "'d block_device \<Rightarrow> nat \<Rightarrow> ('d, unit) ctx_prog" where
  "finish_write dev old =
    bind pointer_of (\<lambda>pointer.
    if pointer > old then
      bind (modify (\<lambda>c. c\<lparr>fc_handle := (fc_handle c)\<lparr>fh_metadata := (fh_metadata (fc_handle c))
             \<lparr>fm_short := (fm_short (fh_metadata (fc_handle c)))\<lparr>de_file_size := of_nat pointer\<rparr>\<rparr>\<rparr>\<rparr>)) (\<lambda>_.
      bind (gets (\<lambda>c. fh_metadata (fc_handle c))) (\<lambda>metadata.
      on_inner (update_file_metadata dev metadata)))
    else ret ())"

definition write_body :: "'d block_device \<Rightarrow> u8 list \<Rightarrow> ('d, unit) ctx_prog" where
  "write_body dev buf =
    bind (gets (\<lambda>c. (fc_inner c, fc_handle c))) (\<lambda>(s, h).
    let file_size = unat (de_file_size (fm_short (fh_metadata h)))
    in bind (write_loop dev buf (metadata_start_cluster (fh_metadata h)) 0
              (replicate (block_size dev (device s) * sectors_per_cluster (bpb s)) 0)
              (0, 0, length buf)) (\<lambda>(last_cluster, cluster_buffer, offset, write_offset, remain).
       bind (append_loop dev buf last_cluster cluster_buffer (offset, write_offset, remain)) (\<lambda>_.
       finish_write dev file_size)))"

definition write_file :: "'d block_device \<Rightarrow> u8 list \<Rightarrow> ('d, unit) file_prog" where
  "write_file dev buf =
    bind handle_of (\<lambda>h.
    if fh_closed h then throw FileClosed
    else if wadd64 (fh_pointer h) (length buf) > 2 ^ 32 - 1 then throw FileTooLarge
    else upgrade (write_body dev buf))"

section \<open>Positions\<close>

text \<open>
  The position of the pointer once the loops have passed \<open>x\<close> bytes of the file, in a transfer of \<open>n\<close>
  bytes from position \<open>p\<close> on.
\<close>

definition pos :: "nat \<Rightarrow> nat \<Rightarrow> nat \<Rightarrow> nat" where
  "pos p n x = max p (min (p + n) x)"

lemma pos_bounds: "p \<le> pos p n x" "pos p n x \<le> p + n"
  by (simp_all add: pos_def)

lemma pos_left: "p + n \<le> x \<Longrightarrow> pos p n x = p + n"
  by (simp add: pos_def)

lemma pos_mono: "x \<le> y \<Longrightarrow> pos p n x \<le> pos p n y"
  by (simp add: pos_def)

lemma pos_skip: "y < pos p n x \<Longrightarrow> x \<le> y \<Longrightarrow> pos p n y = pos p n x \<and> pos p n x = p \<and> y < p"
  by (auto simp: pos_def max_def min_def split: if_splits)

text \<open>The arithmetic of one sector, from \<open>x\<close> to \<open>x + b\<close>.\<close>

lemma pos_copy:
  assumes "x < p + n" and "\<not> x + b < pos p n x"
  shows "x \<le> pos p n x" and "min (b - (pos p n x - x)) (p + n - pos p n x) = pos p n (x + b) - pos p n x"
    and "pos p n x - x + (pos p n (x + b) - pos p n x) \<le> b"
    and "\<not> p + n \<le> x + b \<Longrightarrow> pos p n (x + b) = x + b"
  using assms by (auto simp: pos_def max_def min_def split: if_splits)

lemma patch_in_concat:
  assumes "\<And>x. x \<in> set xs \<Longrightarrow> length x = k" and "i < length xs" and "off + length ys \<le> k"
  shows "patch (i * k + off) ys (concat xs) = concat (xs[i := patch off ys (xs ! i)])"
proof -
  have len: "length (concat (take i xs)) = i * k"
    using assms(1,2) length_concat_uniform [of "take i xs" k] by (auto dest: in_set_takeD)
  have xi: "length (xs ! i) = k" using assms(1,2) by simp
  have split: "xs = take i xs @ xs ! i # drop (Suc i) xs" using assms(2) by (simp add: id_take_nth_drop)
  then have cat: "concat xs = concat (take i xs) @ xs ! i @ concat (drop (Suc i) xs)"
    by (metis concat.simps(2) concat_append)
  have "concat (xs[i := patch off ys (xs ! i)])
      = concat (take i xs) @ patch off ys (xs ! i) @ concat (drop (Suc i) xs)"
    using assms(2) by (simp add: upd_conv_take_nth_drop)
  then show ?thesis using len xi assms(3) by (simp add: cat patch_def)
qed

lemma take_patch: "off + length ys \<le> n \<Longrightarrow> n \<le> length xs \<Longrightarrow> take n (patch off ys xs) = patch off ys (take n xs)"
  by (intro nth_equalityI) (auto simp: patch_nth)

section \<open>Content\<close>

definition cluster_bytes :: "nat \<Rightarrow> u8 list list \<Rightarrow> u8 list" where
  "cluster_bytes bps bl = concat (map (take bps) bl)"

definition file_content :: "('d \<Rightarrow> u8 list list) \<Rightarrow> 'd Fat32Inner \<Rightarrow> nat list \<Rightarrow> u8 list" where
  "file_content blocks s cs =
     concat (map (\<lambda>c. cluster_bytes (bytes_per_sector (bpb s)) (cluster_of blocks s c)) cs)"

text \<open>The blocks of a cluster: all of the device's size, which is at least the sector size.\<close>

definition cluster_shape :: "nat \<Rightarrow> nat \<Rightarrow> u8 list list \<Rightarrow> bool" where
  "cluster_shape bps bsize bl \<longleftrightarrow> bps \<le> bsize \<and> (\<forall>x \<in> set bl. length x = bsize)"

lemma length_cluster_bytes: "cluster_shape bps bsize bl \<Longrightarrow> length (cluster_bytes bps bl) = length bl * bps"
  unfolding cluster_bytes_def cluster_shape_def
  by (subst length_concat_uniform [of "map (take bps) bl" bps]) auto

lemma cluster_bytes_slice:
  assumes "cluster_shape bps bsize bl" and "i < length bl" and "off + n \<le> bps"
  shows "slice (i * bsize + off) n (concat bl) = slice (i * bps + off) n (cluster_bytes bps bl)"
proof -
  have bl: "\<And>x. x \<in> set bl \<Longrightarrow> length x = bsize" "bps \<le> bsize" using assms(1) by (auto simp: cluster_shape_def)
  have "slice (i * bps + off) n (cluster_bytes bps bl) = slice off n (map (take bps) bl ! i)"
    unfolding cluster_bytes_def using bl assms(2,3) by (intro slice_in_concat) auto
  moreover have "slice (i * bsize + off) n (concat bl) = slice off n (bl ! i)"
    using bl assms(2,3) by (intro slice_in_concat) auto
  moreover have "slice off n (take bps (bl ! i)) = slice off n (bl ! i)"
    using assms(3) by (simp add: slice_def drop_take min_def)
  ultimately show ?thesis using assms(2) by simp
qed

lemma cluster_bytes_patch:
  assumes "cluster_shape bps bsize bl" and "i < length bl" and "off + length ys \<le> bps"
  defines "bl' \<equiv> bl[i := patch off ys (bl ! i)]"
  shows "cluster_bytes bps bl' = patch (i * bps + off) ys (cluster_bytes bps bl)"
    and "patch (i * bsize + off) ys (concat bl) = concat bl'" and "cluster_shape bps bsize bl'"
proof -
  have bl: "\<And>x. x \<in> set bl \<Longrightarrow> length x = bsize" "bps \<le> bsize" using assms(1) by (auto simp: cluster_shape_def)
  then have li: "length (bl ! i) = bsize" using assms(2) by simp
  show "patch (i * bsize + off) ys (concat bl) = concat bl'"
    unfolding bl'_def using bl assms(2,3) by (intro patch_in_concat) auto
  have "patch (i * bps + off) ys (concat (map (take bps) bl))
      = concat ((map (take bps) bl)[i := patch off ys (map (take bps) bl ! i)])"
    using bl assms(2,3) by (intro patch_in_concat) auto
  also have "(map (take bps) bl)[i := patch off ys (map (take bps) bl ! i)] = map (take bps) bl'"
    using assms(2,3) li bl(2) by (simp add: bl'_def map_update take_patch)
  finally show "cluster_bytes bps bl' = patch (i * bps + off) ys (cluster_bytes bps bl)"
    by (simp add: cluster_bytes_def)
  have "length x = bsize" if "x \<in> set bl'" for x
    using that set_update_subset_insert [of bl i] bl li assms(3) unfolding bl'_def by fastforce
  then show "cluster_shape bps bsize bl'" using bl by (simp add: cluster_shape_def)
qed

section \<open>Reading returns the content\<close>

definition at_pos :: "nat \<Rightarrow> 'd file_ctx \<Rightarrow> 'd file_ctx" where
  "at_pos q c = c\<lparr>fc_handle := (fc_handle c)\<lparr>fh_pointer := q\<rparr>\<rparr>"

lemma at_pos_simps [simp]:
  "fc_inner (at_pos q c) = fc_inner c" "fh_pointer (fc_handle (at_pos q c)) = q"
  "fh_metadata (fc_handle (at_pos q c)) = fh_metadata (fc_handle c)"
  "fh_inner (fc_handle (at_pos q c)) = fh_inner (fc_handle c)"
  "fh_closed (fc_handle (at_pos q c)) = fh_closed (fc_handle c)"
  "at_pos q (at_pos q' c) = at_pos q c"
  by (simp_all add: at_pos_def)

lemma run_pointer_of [simp]: "pointer_of c = Some (Ok (fh_pointer (fc_handle c)), c)"
  by (simp add: pointer_of_def)

lemma run_advance:
  "fh_pointer (fc_handle c) + n < 2 ^ 64 \<Longrightarrow>
   advance_pointer n c = Some (Ok (), at_pos (fh_pointer (fc_handle c) + n) c)"
  by (simp add: advance_pointer_def at_pos_def wadd64_small)

text \<open>The buffer of a read of \<open>n\<close> bytes of \<open>T\<close> from \<open>p\<close> when the pointer has reached \<open>q\<close>.\<close>

definition read_so_far :: "u8 list \<Rightarrow> nat \<Rightarrow> u8 list \<Rightarrow> nat \<Rightarrow> u8 list" where
  "read_so_far T p buf q = patch 0 (slice p (q - p) T) buf"

lemma read_so_far_step:
  assumes "p \<le> q" and "q \<le> q'" and "q' \<le> length T" and "q' - p \<le> length buf"
  shows "patch (q - p) (slice q (q' - q) T) (read_so_far T p buf q) = read_so_far T p buf q'"
proof -
  have "slice p (q' - p) T = slice p (q - p) T @ slice q (q' - q) T"
    using assms slice_append [of p "q - p" "q' - q" T] by simp
  moreover have "length (slice p (q - p) T) = q - p" "length (slice q (q' - q) T) = q' - q"
    using assms by simp_all
  ultimately show ?thesis
    using assms patch_patch_append [of 0 "slice p (q - p) T" "slice q (q' - q) T" buf]
    by (simp add: read_so_far_def)
qed

lemma length_read_so_far:
  "p \<le> q \<Longrightarrow> q \<le> length T \<Longrightarrow> q - p \<le> length buf \<Longrightarrow> length (read_so_far T p buf q) = length buf"
  by (simp add: read_so_far_def)

text \<open>The state of the read loop when it has passed \<open>x\<close> bytes of the file.\<close>

definition read_acc ::
  "u8 list \<Rightarrow> nat \<Rightarrow> nat \<Rightarrow> u8 list \<Rightarrow> nat \<Rightarrow> nat \<times> nat \<times> nat \<times> u8 list \<times> bool \<Rightarrow> bool" where
  "read_acc T p n buf x acc \<longleftrightarrow>
    (\<exists>offset. acc = (offset, pos p n x - p, p + n - pos p n x, read_so_far T p buf (pos p n x), p + n \<le> x)
       \<and> (\<not> p + n \<le> x \<longrightarrow> offset = x))"

lemma read_sector_run:
  assumes acc: "read_acc T p n buf x acc" and c: "fh_pointer (fc_handle c) = pos p n x"
    and T: "p + n \<le> length T" "p + n < 2 ^ 64" "n \<le> length buf" and x: "x + bps < 2 ^ 64"
    and bl: "cluster_shape bps bsize bl" "i < length bl"
    and content: "slice x bps T = slice (i * bps) bps (cluster_bytes bps bl)"
  shows "returns (read_sector bps bsize (concat bl) i acc c)
    (\<lambda>acc' c'. read_acc T p n buf (x + bps) acc' \<and> c' = at_pos (pos p n (x + bps)) c)"
proof (cases "p + n \<le> x")
  case True
  then show ?thesis
    using acc c by (auto simp: read_sector_def read_acc_def pos_left at_pos_def)
next
  case False
  let ?q = "pos p n x" and ?q' = "pos p n (x + bps)"
  have acc: "acc = (x, ?q - p, p + n - ?q, read_so_far T p buf ?q, False)"
    using acc False by (auto simp: read_acc_def)
  have add: "wadd64 x bps = x + bps" using x by (simp add: wadd64_small)
  show ?thesis
  proof (cases "x + bps < ?q")
    case True
    then show ?thesis
      using False c add pos_skip [OF True] pos_left [of p n]
      by (auto simp: acc read_sector_def read_acc_def at_pos_def)
  next
    case copy: False
    note P = pos_copy [OF _ copy] and B = pos_bounds [of p n x] pos_bounds [of p n "x + bps"]
    have x_lt: "x < p + n" using False by simp
    have mono: "?q \<le> ?q'" by (simp add: pos_mono)
    have len: "length (concat bl) = length bl * bsize"
      using bl(1) by (simp add: cluster_shape_def length_concat_uniform)
    have inb: "i * bsize + (?q - x) + (?q' - ?q) \<le> length (concat bl)"
      using P(3) [OF x_lt] bl chunk_bound [of i "length bl" bsize "length (concat bl)"] len
      by (simp add: cluster_shape_def)
    have "slice (i * bsize + (?q - x)) (?q' - ?q) (concat bl)
        = slice (i * bps + (?q - x)) (?q' - ?q) (cluster_bytes bps bl)"
      using P(3) [OF x_lt] by (intro cluster_bytes_slice [OF bl]) simp
    also have "\<dots> = slice ?q (?q' - ?q) T"
    proof -
      have "slice (i * bps + (?q - x)) (?q' - ?q) (cluster_bytes bps bl)
          = slice (?q - x) (?q' - ?q) (slice (i * bps) bps (cluster_bytes bps bl))"
        using P(3) [OF x_lt] by (simp add: slice_slice)
      also have "\<dots> = slice (?q - x) (?q' - ?q) (slice x bps T)" by (simp only: content)
      also have "\<dots> = slice ?q (?q' - ?q) T" using P(1,3) [OF x_lt] by (simp add: slice_slice)
      finally show ?thesis .
    qed
    finally have bytes: "slice (i * bsize + (?q - x)) (?q' - ?q) (concat bl) = slice ?q (?q' - ?q) T" .
    have buf: "patch (?q - p) (slice ?q (?q' - ?q) T) (read_so_far T p buf ?q) = read_so_far T p buf ?q'"
      using B mono T by (intro read_so_far_step) simp_all
    have lbuf: "length (read_so_far T p buf ?q) = length buf"
      using B T by (intro length_read_so_far) simp_all
    have sub: "wsub64 ?q x = ?q - x" "wsub64 bps (?q - x) = bps - (?q - x)"
      using P(1,3) [OF x_lt] by (simp_all add: wsub64_le)
    have adv: "advance_pointer (?q' - ?q) c = Some (Ok (), at_pos ?q' c)"
      using run_advance [of c "?q' - ?q"] c B mono T by simp
    have len_iff: "p + n - ?q' = 0 \<longleftrightarrow> p + n \<le> x + bps"
      using P(4) [OF x_lt] pos_left [of p n "x + bps"] by (cases "p + n \<le> x + bps") simp_all
    have arith: "?q - p + (?q' - ?q) = ?q' - p" "p + n - ?q - (?q' - ?q) = p + n - ?q'" "?q' - p \<le> length buf"
      using B mono T by simp_all
    have "read_sector bps bsize (concat bl) i acc c =
        Some (Ok (x + bps, ?q' - p, p + n - ?q', read_so_far T p buf ?q', p + n \<le> x + bps), at_pos ?q' c)"
      using P(4) [OF x_lt]
      by (simp only: acc read_sector_def case_prod_conv if_False run_bind_Ok [OF run_pointer_of] c add copy
          sub P(2) [OF x_lt] Let_def inb lbuf arith bytes buf len_iff)
         (simp add: adv)
    then show ?thesis
      using P(4) [OF x_lt] by (auto simp: read_acc_def)
  qed
qed

lemma run_on_inner: "m (fc_inner c) = Some (Ok x, s) \<Longrightarrow> on_inner m c = Some (Ok x, c\<lparr>fc_inner := s\<rparr>)"
  by (simp add: on_inner_def zoom_def)

lemma run_on_inner_same: "m (fc_inner c) = Some (Ok x, fc_inner c) \<Longrightarrow> on_inner m c = Some (Ok x, c)"
  by (simp add: on_inner_def zoom_def)

lemma read_cluster_run:
  assumes acc: "read_acc T p n buf x acc" and c: "fh_pointer (fc_handle c) = pos p n x"
    and T: "p + n \<le> length T" "p + n < 2 ^ 64" "n \<le> length buf" and x: "x + length bl * bps < 2 ^ 64"
    and bl: "cluster_shape bps bsize bl"
    and content: "slice x (length bl * bps) T = cluster_bytes bps bl"
  shows "returns (for_each [0..<length bl] (read_sector bps bsize (concat bl)) acc c)
    (\<lambda>acc' c'. read_acc T p n buf (x + length bl * bps) acc' \<and> c' = at_pos (pos p n (x + length bl * bps)) c)"
proof -
  let ?I = "\<lambda>k acc' c'. read_acc T p n buf (x + k * bps) acc' \<and> c' = at_pos (pos p n (x + k * bps)) c"
  have step: "returns (read_sector bps bsize (concat bl) k acc' c') (?I (Suc k))"
    if k: "k < length bl" and I: "?I k acc' c'" for k acc' c'
  proof -
    have le: "k * bps + bps \<le> length bl * bps" using chunk_bound [OF k order.refl] .
    have "slice (x + k * bps) bps T = slice (k * bps) bps (slice x (length bl * bps) T)"
      using le by (simp add: slice_slice)
    then have "slice (x + k * bps) bps T = slice (k * bps) bps (cluster_bytes bps bl)" by (simp only: content)
    then have "returns (read_sector bps bsize (concat bl) k acc' c')
      (\<lambda>acc'' c''. read_acc T p n buf (x + k * bps + bps) acc'' \<and> c'' = at_pos (pos p n (x + k * bps + bps)) c')"
      using I T x le k bl by (intro read_sector_run) simp_all
    then show ?thesis using I by (auto simp: algebra_simps elim!: returns_mono)
  qed
  have start: "?I 0 acc c" using acc c by (simp add: at_pos_def)
  show ?thesis by (rule returns_for_upt [of ?I, OF start step])
qed

lemma file_content_Cons:
  "file_content blocks s (c # cs) = cluster_bytes (bytes_per_sector (bpb s)) (cluster_of blocks s c) @ file_content blocks s cs"
  by (simp add: file_content_def)

text \<open>The parameters of a read: the content ends after the bytes to be read, which fit in the buffer.\<close>

context reliable_device
begin

lemma cluster_shape_of:
  assumes "wf s" and "2 \<le> c" and "c < max_cluster s + 2"
  shows "cluster_shape (bytes_per_sector (bpb s)) (block_size dev (device s)) (cluster_of blocks s c)"
    and "length (cluster_of blocks s c) = sectors_per_cluster (bpb s)"
    and "length (cluster_bytes (bytes_per_sector (bpb s)) (cluster_of blocks s c))
      = sectors_per_cluster (bpb s) * bytes_per_sector (bpb s)"
proof -
  show shape: "cluster_shape (bytes_per_sector (bpb s)) (block_size dev (device s)) (cluster_of blocks s c)"
    using cluster_blocks_length(1) [OF assms] wf_geometry [OF assms(1)]
    by (simp add: cluster_shape_def fat32_geometry_def)
  show len: "length (cluster_of blocks s c) = sectors_per_cluster (bpb s)"
    by (rule cluster_blocks_length(2) [OF assms])
  show "length (cluster_bytes (bytes_per_sector (bpb s)) (cluster_of blocks s c))
      = sectors_per_cluster (bpb s) * bytes_per_sector (bpb s)"
    using length_cluster_bytes [OF shape] len by simp
qed

lemma read_loop_run:
  assumes wf: "wf (fc_inner c)" and chain: "data_chain blocks (fc_inner c) cl cs"
    and T: "p + n \<le> length T" "length T < 2 ^ 64" "n \<le> length buf" "0 < n"
    and drop: "drop x T = file_content blocks (fc_inner c) cs"
    and c: "fh_pointer (fc_handle c) = pos p n x" and x: "\<not> p + n \<le> x"
    and buf: "length cb = sectors_per_cluster (bpb (fc_inner c)) * block_size dev (device (fc_inner c))"
  shows "read_loop dev cl cb (x, pos p n x - p, p + n - pos p n x, read_so_far T p buf (pos p n x)) c
    = Some (Ok (read_so_far T p buf (p + n)), at_pos (p + n) c)"
  using wf chain drop c x buf
proof (induction cs arbitrary: cl x cb c)
  case Nil
  then show ?case using T by (simp add: file_content_def)
next
  case (Cons y cs)
  let ?s = "fc_inner c"
  let ?B = "bytes_per_sector (bpb ?s)" and ?N = "sectors_per_cluster (bpb ?s)"
  let ?bl = "cluster_of blocks ?s cl"
  have cl: "y = cl" "in_chain cl" "2 \<le> cl" "cl < max_cluster ?s + 2"
    and chain': "data_chain blocks ?s (fat_of blocks ?s cl) cs"
    using Cons.prems(2) by (auto simp: data_chain_Cons)
  note wf = Cons.prems(1) and shape = cluster_shape_of [OF Cons.prems(1) cl(3,4)]
  have content: "drop x T = cluster_bytes ?B ?bl @ file_content blocks ?s cs"
    using Cons.prems(3) by (simp add: file_content_Cons cl(1))
  have slice: "slice x (length ?bl * ?B) T = cluster_bytes ?B ?bl"
    using content shape by (simp add: slice_def)
  have rest: "drop (x + ?N * ?B) T = file_content blocks ?s cs"
    using content shape by (metis add.commute append_eq_conv_conj drop_drop)
  have le: "x + ?N * ?B \<le> length T"
    using arg_cong [OF content, of length] shape Cons.prems(5) T by simp
  have add: "wadd64 x (?B * ?N) = x + ?N * ?B" using le T by (simp add: wadd64_small mult.commute)
  have next_cl: "on_inner (get_next_cluster dev cl) c' = Some (Ok (fat_of blocks ?s cl), c')"
    if "fc_inner c' = ?s" for c'
    using that get_next_cluster_run [OF wf data_cluster_capacity [OF wf cl(4)]] by (intro run_on_inner_same) simp
  have live: "cl \<noteq> FAT_ENTRY_FREE" "cl < FAT_ENTRY_EOC_START" "p + n - pos p n x > 0"
    using cl(2) Cons.prems(5) T(4) by (auto simp: in_chain_def fat_entry_defs pos_def)
  show ?case
  proof (cases "x + ?N * ?B < pos p n x")
    case True
    have pos: "pos p n (x + ?N * ?B) = pos p n x" "\<not> p + n \<le> x + ?N * ?B"
      using pos_skip [OF True] by auto
    have "read_loop dev cl cb (x, pos p n x - p, p + n - pos p n x, read_so_far T p buf (pos p n x)) c
      = read_loop dev (fat_of blocks ?s cl) cb
          (x + ?N * ?B, pos p n x - p, p + n - pos p n x, read_so_far T p buf (pos p n x)) c"
      using live True Cons.prems(4) add next_cl [OF refl] by (subst read_loop.simps) simp
    then show ?thesis
      using Cons.IH [OF wf chain' rest _ pos(2), of cb] Cons.prems(4,6) pos(1) by simp
  next
    case False
    have read: "on_inner (io (read_blocks dev (cluster_sector (bpb ?s) cl) ?N cb)) c = Some (Ok (concat ?bl), c)"
      using cluster_range [OF wf cl(3,4)] Cons.prems(6) wf
      by (intro run_on_inner_same) (simp add: io_read_blocks cluster_get_def)
    have sector: "on_inner (get_sector_by_cluster cl) c = Some (Ok (cluster_sector (bpb ?s) cl), c)"
      using get_sector_by_cluster_run [OF wf cl(3,4)] by (intro run_on_inner_same) simp
    let ?acc = "(x, pos p n x - p, p + n - pos p n x, read_so_far T p buf (pos p n x), False)"
    have "read_acc T p n buf x ?acc" using Cons.prems(5) by (simp add: read_acc_def)
    from read_cluster_run [OF this Cons.prems(4) T(1) _ T(3) _ shape(1) slice]
    obtain acc' where loop: "for_each [0..<?N] (read_sector ?B (block_size dev (device ?s)) (concat ?bl)) ?acc c
        = Some (Ok acc', at_pos (pos p n (x + ?N * ?B)) c)"
      and acc': "read_acc T p n buf (x + ?N * ?B) acc'"
      using T le shape(2) by (auto elim!: returnsE)
    let ?c = "at_pos (pos p n (x + ?N * ?B)) c"
    have clen: "length (concat ?bl) = ?N * block_size dev (device ?s)"
      by (rule cluster_buffer_length [OF wf cl(3,4)])
    obtain off where off: "acc' = (off, pos p n (x + ?N * ?B) - p, p + n - pos p n (x + ?N * ?B),
        read_so_far T p buf (pos p n (x + ?N * ?B)), p + n \<le> x + ?N * ?B)"
      "\<not> p + n \<le> x + ?N * ?B \<Longrightarrow> off = x + ?N * ?B"
      using acc' unfolding read_acc_def by blast
    show ?thesis
    proof (cases "p + n \<le> x + ?N * ?B")
      case True
      then show ?thesis
        using live False Cons.prems(4) add read sector loop off pos_left [OF True]
        by (subst read_loop.simps) simp
    next
      case more: False
      have "read_loop dev cl cb (x, pos p n x - p, p + n - pos p n x, read_so_far T p buf (pos p n x)) c
        = read_loop dev (fat_of blocks ?s cl) (concat ?bl) (x + ?N * ?B, pos p n (x + ?N * ?B) - p,
            p + n - pos p n (x + ?N * ?B), read_so_far T p buf (pos p n (x + ?N * ?B))) ?c"
        using live False Cons.prems(4) add read sector loop off more next_cl [of ?c]
        by (subst read_loop.simps) simp
      then show ?thesis
        using Cons.IH [of ?c "fat_of blocks ?s cl" "x + ?N * ?B" "concat ?bl"] wf chain' rest more clen by simp
    qed
  qed
qed

lemma length_file_content:
  assumes "wf s" and "data_chain blocks s c cs"
  shows "length (file_content blocks s cs) = length cs * (sectors_per_cluster (bpb s) * bytes_per_sector (bpb s))"
    and "length (file_content blocks s cs) < 2 ^ 63"
proof -
  let ?W = "sectors_per_cluster (bpb s) * bytes_per_sector (bpb s)"
  have rng: "\<forall>x \<in> set cs. 2 \<le> x \<and> x < max_cluster s + 2" using assms(2) by (simp add: data_chain_def)
  then show len: "length (file_content blocks s cs) = length cs * ?W"
    using cluster_shape_of(3) [OF assms(1)] by (induction cs) (simp_all add: file_content_def)
  have "distinct cs" using assms(2) is_chain_distinct by (auto simp: data_chain_def)
  moreover have "set cs \<subseteq> {2..<max_cluster s + 2}" using rng by auto
  ultimately have "length cs \<le> card {2..<max_cluster s + 2}"
    using card_mono [of "{2..<max_cluster s + 2}" "set cs"] by (simp add: distinct_card)
  then have "length cs \<le> 2 ^ 28"
    using wf_geometry [OF assms(1)] by (simp add: fat32_geometry_def fat_entry_defs)
  moreover have "?W \<le> 2 ^ 8 * 2 ^ 16"
    using unat_u8_less [of "bpb_sectors_per_cluster (bpb s)"] unat_u16_less [of "bpb_bytes_per_sector (bpb s)"]
    by (intro mult_le_mono) (simp_all add: less_imp_le)
  ultimately have "length cs * ?W \<le> 2 ^ 28 * (2 ^ 8 * 2 ^ 16)" by (rule mult_le_mono)
  then show "length (file_content blocks s cs) < 2 ^ 63" unfolding len by simp
qed

end

abbreviation handle_size :: "Fat32FileHandle \<Rightarrow> nat" where
  "handle_size h \<equiv> unat (de_file_size (fm_short (fh_metadata h)))"

text \<open>An open handle on a file whose clusters are \<open>cs\<close>.\<close>

definition handle_on ::
  "'d block_device \<Rightarrow> ('d \<Rightarrow> u8 list list) \<Rightarrow> ('d \<Rightarrow> bool) \<Rightarrow> 'd Fat32Inner \<Rightarrow> Fat32FileHandle \<Rightarrow> nat list \<Rightarrow> bool" where
  "handle_on dev blocks dinv s h cs \<longleftrightarrow>
     fs_wf dev blocks dinv s \<and> fh_inner h \<and> \<not> fh_closed h \<and>
     data_chain blocks s (metadata_start_cluster (fh_metadata h)) cs \<and>
     fh_pointer h \<le> handle_size h \<and> handle_size h \<le> length (file_content blocks s cs)"

context reliable_device
begin

lemma read_file_run:
  fixes buf :: "u8 list"
  assumes h: "handle_on dev blocks dinv s h cs"
  defines "n \<equiv> min (length buf) (handle_size h - fh_pointer h)"
  shows "read_file dev buf (Some s, h) = Some (Ok (n, patch 0 (slice (fh_pointer h) n (file_content blocks s cs)) buf),
    (Some s, h\<lparr>fh_pointer := fh_pointer h + n\<rparr>))"
proof -
  let ?T = "file_content blocks s cs" and ?p = "fh_pointer h" and ?c = "\<lparr>fc_inner = s, fc_handle = h\<rparr>"
  let ?cl = "metadata_start_cluster (fh_metadata h)"
  let ?cb = "replicate (block_size dev (device s) * sectors_per_cluster (bpb s)) 0"
  have H: "wf s" "fh_inner h" "\<not> fh_closed h" "data_chain blocks s ?cl cs" "?p \<le> handle_size h"
    "handle_size h \<le> length ?T"
    using h by (simp_all add: handle_on_def)
  have small: "length ?T < 2 ^ 64" using length_file_content(2) [OF H(1,4)] by simp
  have bound: "?p + n \<le> length ?T" "n \<le> length buf" using H(5,6) by (simp_all add: n_def)
  have loop: "read_loop dev ?cl ?cb (0, 0, n, buf) ?c = Some (Ok (read_so_far ?T ?p buf (?p + n)), at_pos (?p + n) ?c)"
  proof (cases "n = 0")
    case True
    then show ?thesis by (subst read_loop.simps) (simp add: read_so_far_def at_pos_def)
  next
    case False
    have "read_loop dev ?cl ?cb (0, pos ?p n 0 - ?p, ?p + n - pos ?p n 0, read_so_far ?T ?p buf (pos ?p n 0)) ?c
      = Some (Ok (read_so_far ?T ?p buf (?p + n)), at_pos (?p + n) ?c)"
      using H small False bound by (intro read_loop_run [where cs = cs]) (simp_all add: pos_def mult.commute)
    then show ?thesis by (simp add: pos_def read_so_far_def)
  qed
  have "n = min (length buf) (wsub64 (handle_size h) ?p)" using H(5) by (simp add: n_def wsub64_le)
  then show ?thesis
    using loop H(2,3) by (simp add: read_file_def handle_of_def upgrade_def Let_def at_pos_def read_so_far_def)
qed

end

text \<open>
  C7. Reading from an open handle returns the file: it ends without error, the number of bytes is
  the smaller of the buffer's length and what is left after the pointer, exactly these bytes of the
  file's content are put at the front of the buffer, the pointer moves by as many, and the file
  system is unchanged.
\<close>

theorem read_file_correct:
  assumes "reliable_device dev blocks dinv" and "handle_on dev blocks dinv s h cs"
  shows "let n = min (length buf) (handle_size h - fh_pointer h) in
    read_file dev buf (Some s, h) = Some (Ok (n, patch 0 (slice (fh_pointer h) n (file_content blocks s cs)) buf),
      (Some s, h\<lparr>fh_pointer := fh_pointer h + n\<rparr>))"
  using reliable_device.read_file_run [OF assms] by (simp add: Let_def)

text \<open>A file of the root directory: its only cluster is the third, its entry the second of the root.\<close>

definition example_file_fs :: "MemoryDevice Fat32Inner" where
  "example_file_fs = example_fs [0x0FFFFFF8, 0x0FFFFFF8, 0x0FFFFFF8, 0x0FFFFFF8] 1"

definition example_handle :: "nat \<Rightarrow> u32 \<Rightarrow> Fat32FileHandle" where
  "example_handle p sz =
     \<lparr>fh_inner = True,
      fh_metadata = (metadata_new [0x61] 3 ATTR_ARCHIVE)
        \<lparr>fm_short := (fm_short (metadata_new [0x61] 3 ATTR_ARCHIVE))\<lparr>de_file_size := sz\<rparr>,
         fm_start_cluster := 2, fm_start_sector := 4, fm_short_cluster := 2, fm_short_sector := 4,
         fm_short_sector_offset := 1\<rparr>,
      fh_pointer = p, fh_closed = False\<rparr>"

lemma example_handle_fields [simp]:
  "fh_inner (example_handle p sz)" "\<not> fh_closed (example_handle p sz)" "fh_pointer (example_handle p sz) = p"
  "handle_size (example_handle p sz) = unat sz"
  by (simp_all add: example_handle_def)

lemma example_handle_start: "metadata_start_cluster (fh_metadata (example_handle p sz)) = 3"
  using start_cluster_new [of 3 "[0x61]" ATTR_ARCHIVE]
  by (simp add: example_handle_def metadata_start_cluster_def short_start_cluster_def)

lemma example_file_fat:
  "c < 128 \<Longrightarrow> fat_of memory_blocks example_file_fs c = (if c < 4 then 0x0FFFFFF8 else 0)"
  by (auto simp: example_file_fs_def example_fat_bpb nth_Cons')

lemma example_file_content: "file_content memory_blocks example_file_fs [3] = replicate 512 0"
  using example_cluster [of "[0x0FFFFFF8, 0x0FFFFFF8, 0x0FFFFFF8, 0x0FFFFFF8]" 3 1]
  by (simp add: file_content_def cluster_bytes_def example_file_fs_def example_bpb_def)

lemma example_handle_on:
  assumes "p \<le> unat sz" and "unat sz \<le> 512"
  shows "handle_on memory_device memory_blocks memory_inv example_file_fs (example_handle p sz) [3]"
proof -
  have "fs_wf memory_device memory_blocks memory_inv example_file_fs"
    unfolding example_file_fs_def by (rule example_wf) simp
  moreover have "data_chain memory_blocks example_file_fs 3 [3]"
    using example_file_fat [of 3] by (simp add: data_chain_def in_chain_def fat_entry_defs) (simp add: example_file_fs_def)
  ultimately show ?thesis using assms by (simp add: handle_on_def example_handle_start example_file_content)
qed

theorem read_file_correct_witness:
  "read_file memory_device (replicate 6 7) (Some example_file_fs, example_handle 1 5)
     = Some (Ok (4, [0, 0, 0, 0, 7, 7]), (Some example_file_fs, (example_handle 1 5)\<lparr>fh_pointer := 5\<rparr>))"
proof -
  have four: "min (length (replicate 6 (7::u8))) (handle_size (example_handle 1 5) - fh_pointer (example_handle 1 5)) = 4"
    by simp
  have "patch 0 (slice (fh_pointer (example_handle 1 5)) 4 (replicate 512 (0::u8))) (replicate 6 7) = [0, 0, 0, 0, 7, 7]"
    "fh_pointer (example_handle 1 5) + 4 = 5"
    by (simp_all add: slice_def patch_def numeral_eq_Suc)
  then show ?thesis
    using read_file_correct [OF memory_reliable example_handle_on [of 1 5], of "replicate 6 7"]
    unfolding four Let_def example_file_content by simp
qed

end
