(* ===== verification/Fat32_Write.thy ===== *)
theory Fat32_Write
  imports Fat32_File
begin

text \<open>
  The correctness of \<open>Fat32FileHandle::write\<close>: the content of the file after a write is the content
  before with the buffer laid over it at the pointer, extended by zeroed clusters where the file has
  to grow; and a read from the same position returns the bytes written.
\<close>

section \<open>Sectors\<close>

text \<open>
  The state of the write loop in a cluster that starts at \<open>o\<close> and held the bytes \<open>K\<close>, when it has
  passed \<open>x\<close> bytes of the file: the blocks \<open>bl\<close> of the cluster hold what was written so far.
\<close>

definition write_acc ::
  "u8 list \<Rightarrow> nat \<Rightarrow> nat \<Rightarrow> nat \<Rightarrow> u8 list \<Rightarrow> nat \<Rightarrow> nat \<Rightarrow> nat
    \<Rightarrow> nat \<times> nat \<times> nat \<times> u8 list \<times> bool \<Rightarrow> u8 list list \<Rightarrow> bool" where
  "write_acc data p bps bsize K k st x acc bl \<longleftrightarrow>
    (\<exists>offset. acc = (offset, pos p (length data) x - p, p + length data - pos p (length data) x,
        concat bl, p + length data \<le> x)
       \<and> (\<not> p + length data \<le> x \<longrightarrow> offset = x))
    \<and> cluster_shape bps bsize bl \<and> length bl = k \<and>
    cluster_bytes bps bl =
      patch (pos p (length data) st - st)
        (slice (pos p (length data) st - p) (pos p (length data) x - pos p (length data) st) data) K"

lemma patch_slice_step:
  assumes "a \<le> b" and "b \<le> b'" and "b' - p \<le> length data" and "p \<le> a"
    and "st \<le> a" and "b' - st \<le> length K"
  shows "patch (b - st) (slice (b - p) (b' - b) data) (patch (a - st) (slice (a - p) (b - a) data) K)
    = patch (a - st) (slice (a - p) (b' - a) data) K"
proof -
  have "slice (a - p) (b' - a) data = slice (a - p) (b - a) data @ slice (b - p) (b' - b) data"
    using assms slice_append [of "a - p" "b - a" "b' - b" data] by simp
  moreover have "length (slice (a - p) (b - a) data) = b - a" "length (slice (b - p) (b' - b) data) = b' - b"
    using assms by simp_all
  ultimately show ?thesis
    using assms patch_patch_append [of "a - st" "slice (a - p) (b - a) data" "slice (b - p) (b' - b) data" K]
    by simp
qed

lemma write_sector_run:
  assumes acc: "write_acc data p bps bsize K k st x acc bl" and c: "fh_pointer (fc_handle c) = pos p (length data) x"
    and small: "p + length data < 2 ^ 64" "x + bps < 2 ^ 64" and i: "i < k" "x = st + i * bps"
    and K: "length K = k * bps" and st: "st < p + length data"
  shows "returns (write_sector data bps bsize i acc c)
    (\<lambda>acc' c'. (\<exists>bl'. write_acc data p bps bsize K k st (x + bps) acc' bl')
       \<and> c' = at_pos (pos p (length data) (x + bps)) c)"
proof (cases "p + length data \<le> x")
  case True
  then show ?thesis
    using acc c unfolding write_acc_def
    by (auto simp: write_sector_def pos_left at_pos_def intro!: exI [of _ bl])
next
  case False
  let ?n = "length data"
  let ?q = "pos p ?n x" and ?q' = "pos p ?n (x + bps)" and ?a = "pos p ?n st"
  have acc': "acc = (x, ?q - p, p + ?n - ?q, concat bl, False)"
    and bl: "cluster_shape bps bsize bl" "length bl = k"
    and bytes: "cluster_bytes bps bl = patch (?a - st) (slice (?a - p) (?q - ?a) data) K"
    using acc False by (auto simp: write_acc_def)
  have add: "wadd64 x bps = x + bps" using small by (simp add: wadd64_small)
  show ?thesis
  proof (cases "x + bps < ?q")
    case True
    have skip: "?q' = ?q" "\<not> p + ?n \<le> x + bps" using pos_skip [OF True] by auto
    have "write_sector data bps bsize i acc c = Some (Ok (x + bps, ?q' - p, p + ?n - ?q', concat bl, False), c)"
      using True c add skip by (simp add: acc' write_sector_def)
    then show ?thesis
      using skip c bl bytes by (auto simp: write_acc_def at_pos_def intro!: exI [of _ bl])
  next
    case copy: False
    have x_lt: "x < p + ?n" using False by simp
    note P = pos_copy [OF x_lt copy] and B = pos_bounds [of p ?n x] pos_bounds [of p ?n "x + bps"]
    have mono: "?q \<le> ?q'" "?a \<le> ?q" using i by (auto intro!: pos_mono)
    have a: "st \<le> ?a" "p \<le> ?a" using st by (auto simp: pos_def)
    let ?ch = "slice (?q - p) (?q' - ?q) data"
    let ?bl = "bl[i := patch (?q - x) ?ch (bl ! i)]"
    have ch: "length ?ch = ?q' - ?q" using B mono by simp
    have le: "i * bps + bps \<le> k * bps" using chunk_bound [OF i(1) order.refl] .
    have fits: "?q - x + length ?ch \<le> bps" "i < length bl" using P(3) ch bl i(1) by simp_all
    note upd = cluster_bytes_patch [OF bl(1) fits(2,1)]
    have inb: "i * bsize + (?q - x) + (?q' - ?q) \<le> length (concat bl)"
      using P(3) bl i(1) chunk_bound [of i k bsize "length (concat bl)"]
        length_concat_uniform [of bl bsize]
      by (simp add: cluster_shape_def)
    have sub: "wsub64 ?q x = ?q - x" "wsub64 bps (?q - x) = bps - (?q - x)"
      using P(1,3) by (simp_all add: wsub64_le)
    have adv: "advance_pointer (?q' - ?q) c = Some (Ok (), at_pos ?q' c)"
      using run_advance [of c "?q' - ?q"] c B mono small by simp
    have len_iff: "p + ?n - ?q' = 0 \<longleftrightarrow> p + ?n \<le> x + bps"
      using P(4) pos_left [of p ?n "x + bps"] by (cases "p + ?n \<le> x + bps") simp_all
    have arith: "?q - p + (?q' - ?q) = ?q' - p" "p + ?n - ?q - (?q' - ?q) = p + ?n - ?q'" "?q' - p \<le> ?n"
      using B mono by simp_all
    have "write_sector data bps bsize i acc c =
        Some (Ok (x + bps, ?q' - p, p + ?n - ?q', concat ?bl, p + ?n \<le> x + bps), at_pos ?q' c)"
      using P(4)
      by (simp only: acc' write_sector_def case_prod_conv if_False run_bind_Ok [OF run_pointer_of] c add copy
          sub P(2) Let_def inb arith upd(2) len_iff)
         (simp add: adv)
    moreover have "cluster_bytes bps ?bl = patch (?a - st) (slice (?a - p) (?q' - ?a) data) K"
    proof -
      have "i * bps + (?q - x) = ?q - st" using i(2) P(1) by simp
      moreover have "?q' - st \<le> length K" using P(1,3) le i(2) K mono by simp
      ultimately show ?thesis
        using upd(1) bytes a mono B patch_slice_step [of ?a ?q ?q' p data st K] by simp
    qed
    ultimately show ?thesis
      using P(4) upd(3) bl(2) by (auto simp: write_acc_def intro!: exI [of _ ?bl])
  qed
qed

text \<open>A whole cluster: what its bytes are afterwards.\<close>

lemma write_cluster_run:
  assumes c: "fh_pointer (fc_handle c) = pos p (length data) st"
    and small: "p + length data < 2 ^ 64" "st + length bl * bps < 2 ^ 64" and st: "st < p + length data"
    and bl: "cluster_shape bps bsize bl"
  defines "fin \<equiv> st + length bl * bps"
  shows "\<exists>offset bl'. for_each [0..<length bl] (write_sector data bps bsize)
      (st, pos p (length data) st - p, p + length data - pos p (length data) st, concat bl, False) c
    = Some (Ok (offset, pos p (length data) fin - p, p + length data - pos p (length data) fin, concat bl',
        p + length data \<le> fin), at_pos (pos p (length data) fin) c)
    \<and> (\<not> p + length data \<le> fin \<longrightarrow> offset = fin) \<and> cluster_shape bps bsize bl' \<and> length bl' = length bl
    \<and> cluster_bytes bps bl' = patch (pos p (length data) st - st)
        (slice (pos p (length data) st - p) (pos p (length data) fin - pos p (length data) st) data)
        (cluster_bytes bps bl)"
proof -
  let ?n = "length data" and ?K = "cluster_bytes bps bl"
  let ?acc = "(st, pos p ?n st - p, p + ?n - pos p ?n st, concat bl, False)"
  let ?I = "\<lambda>k acc c'. (\<exists>bl'. write_acc data p bps bsize ?K (length bl) st (st + k * bps) acc bl')
      \<and> c' = at_pos (pos p ?n (st + k * bps)) c"
  have step: "returns (write_sector data bps bsize k acc c') (?I (Suc k))"
    if k: "k < length bl" and I: "?I k acc c'" for k acc c'
  proof -
    obtain bl' where acc: "write_acc data p bps bsize ?K (length bl) st (st + k * bps) acc bl'"
      and c': "c' = at_pos (pos p ?n (st + k * bps)) c"
      using I by blast
    have le: "k * bps + bps \<le> length bl * bps" using chunk_bound [OF k order.refl] .
    have "returns (write_sector data bps bsize k acc c')
      (\<lambda>acc' c''. (\<exists>bl''. write_acc data p bps bsize ?K (length bl) st (st + k * bps + bps) acc' bl'')
         \<and> c'' = at_pos (pos p ?n (st + k * bps + bps)) c')"
      using small st le k c' length_cluster_bytes [OF bl] by (intro write_sector_run [OF acc]) simp_all
    then show ?thesis using c' by (auto simp: algebra_simps elim!: returns_mono)
  qed
  have "write_acc data p bps bsize ?K (length bl) st st ?acc bl"
    using st bl by (simp add: write_acc_def)
  then have start: "?I 0 ?acc c" using c by (auto simp: at_pos_def)
  have "returns (for_each [0..<length bl] (write_sector data bps bsize) ?acc c) (?I (length bl))"
    by (rule returns_for_upt [of ?I, OF start step])
  then obtain acc' bl' where loop: "for_each [0..<length bl] (write_sector data bps bsize) ?acc c
      = Some (Ok acc', at_pos (pos p ?n fin) c)"
    and acc': "write_acc data p bps bsize ?K (length bl) st fin acc' bl'"
    unfolding fin_def by (auto elim!: returnsE)
  then show ?thesis unfolding write_acc_def by blast
qed

section \<open>Content\<close>

lemma patch_append_right: "length xs \<le> i \<Longrightarrow> patch i zs (xs @ ys) = xs @ patch (i - length xs) zs ys"
  by (simp add: patch_def)

lemma patch_append_left: "i + length zs \<le> length xs \<Longrightarrow> patch i zs (xs @ ys) = patch i zs xs @ ys"
  by (simp add: patch_def)

lemma patch_append_split:
  "i + length as = length xs \<Longrightarrow> patch i as xs @ patch 0 bs ys = patch i (as @ bs) (xs @ ys)"
  by (simp add: patch_def flip: add.assoc)

text \<open>A step that changes nothing but the contents of the clusters \<open>cs\<close>.\<close>

definition content_step ::
  "'d block_device \<Rightarrow> ('d \<Rightarrow> u8 list list) \<Rightarrow> ('d \<Rightarrow> bool) \<Rightarrow> nat set \<Rightarrow> 'd Fat32Inner \<Rightarrow> 'd Fat32Inner \<Rightarrow> bool" where
  "content_step dev blocks dinv C s s' \<longleftrightarrow>
     fs_wf dev blocks dinv s' \<and> bpb s' = bpb s \<and> max_cluster s' = max_cluster s \<and>
     occupied_file s' = occupied_file s \<and> fs_info s' = fs_info s \<and>
     block_size dev (device s') = block_size dev (device s) \<and>
     (\<forall>k < fat_capacity (bpb s). fat_of blocks s' k = fat_of blocks s k) \<and>
     (\<forall>k \<ge> 2. k \<notin> C \<longrightarrow> cluster_of blocks s' k = cluster_of blocks s k)"

lemma content_stepD:
  assumes "content_step dev blocks dinv C s s'"
  shows "fs_wf dev blocks dinv s'" and "bpb s' = bpb s" and "max_cluster s' = max_cluster s"
    and "occupied_file s' = occupied_file s" and "fs_info s' = fs_info s"
    and "block_size dev (device s') = block_size dev (device s)"
    and "k < fat_capacity (bpb s) \<Longrightarrow> fat_of blocks s' k = fat_of blocks s k"
    and "2 \<le> k \<Longrightarrow> k \<notin> C \<Longrightarrow> cluster_of blocks s' k = cluster_of blocks s k"
  using assms unfolding content_step_def by blast+

lemma content_step_refl: "fs_wf dev blocks dinv s \<Longrightarrow> content_step dev blocks dinv C s s"
  by (simp add: content_step_def)

lemma content_step_trans:
  assumes "content_step dev blocks dinv C s s'" and "content_step dev blocks dinv D s' s''"
  shows "content_step dev blocks dinv (C \<union> D) s s''"
  using content_stepD [OF assms(1)] content_stepD [OF assms(2)] unfolding content_step_def by auto

lemma data_content_step: "data_step dev blocks dinv c x s s' \<Longrightarrow> content_step dev blocks dinv {c} s s'"
  unfolding data_step_def content_step_def by auto

lemma file_content_cong:
  assumes "bpb s' = bpb s" and "\<And>c. c \<in> set cs \<Longrightarrow> cluster_of blocks s' c = cluster_of blocks s c"
  shows "file_content blocks s' cs = file_content blocks s cs"
  using assms unfolding file_content_def by (simp cong: map_cong)

context reliable_device
begin

lemma data_chain_step:
  assumes wf: "wf s" and "bpb s' = bpb s" and "max_cluster s' = max_cluster s"
    and "\<And>k. k < fat_capacity (bpb s) \<Longrightarrow> fat_of blocks s' k = fat_of blocks s k"
    and "data_chain blocks s c cs"
  shows "data_chain blocks s' c cs"
proof -
  have "x < fat_capacity (bpb s)" if "x \<in> set cs" for x
    using that assms(5) data_cluster_capacity [OF wf] by (auto simp: data_chain_def)
  then have "is_chain (fat_of blocks s') c cs"
    using assms(4,5) by (subst is_chain_cong [of cs _ "fat_of blocks s"]) (auto simp: data_chain_def)
  then show ?thesis using assms(3,5) by (simp add: data_chain_def)
qed

end

definition ctx :: "'d Fat32Inner \<Rightarrow> nat \<Rightarrow> 'd file_ctx \<Rightarrow> 'd file_ctx" where
  "ctx s q c = \<lparr>fc_inner = s, fc_handle = (fc_handle c)\<lparr>fh_pointer := q\<rparr>\<rparr>"

lemma ctx_simps [simp]:
  "fc_inner (ctx s q c) = s" "fh_pointer (fc_handle (ctx s q c)) = q"
  "fh_metadata (fc_handle (ctx s q c)) = fh_metadata (fc_handle c)"
  "fh_inner (fc_handle (ctx s q c)) = fh_inner (fc_handle c)"
  "fh_closed (fc_handle (ctx s q c)) = fh_closed (fc_handle c)"
  "at_pos q' (ctx s q c) = ctx s q' c" "(ctx s q c)\<lparr>fc_inner := s'\<rparr> = ctx s' q c"
  "ctx s q (ctx s' q' c) = ctx s q c"
  by (simp_all add: ctx_def at_pos_def)

lemma at_pos_ctx: "at_pos q c = ctx (fc_inner c) q c"
  by (cases c) (simp add: ctx_def at_pos_def)

lemma ctx_id: "fh_pointer (fc_handle c) = q \<Longrightarrow> ctx (fc_inner c) q c = c"
  by (cases c) (simp add: ctx_def)

text \<open>The end of a file's chain is an end-of-chain mark, not a reserved value.\<close>

definition chain_ends :: "('d \<Rightarrow> u8 list list) \<Rightarrow> 'd Fat32Inner \<Rightarrow> nat \<Rightarrow> nat list \<Rightarrow> bool" where
  "chain_ends blocks s c cs \<longleftrightarrow>
     FAT_ENTRY_EOC_START \<le> (if cs = [] then c else fat_of blocks s (last cs))"

lemma chain_ends_Cons:
  "chain_ends blocks s c (x # cs) \<longleftrightarrow> chain_ends blocks s (fat_of blocks s x) cs"
  by (simp add: chain_ends_def)

text \<open>What the loop over the file's clusters does from position \<open>x\<close> on, the clusters \<open>cs\<close> being left.\<close>

definition overwritten ::
  "'d block_device \<Rightarrow> ('d \<Rightarrow> u8 list list) \<Rightarrow> ('d \<Rightarrow> bool) \<Rightarrow> u8 list \<Rightarrow> nat \<Rightarrow> nat list \<Rightarrow> nat \<Rightarrow> nat
    \<Rightarrow> 'd file_ctx \<Rightarrow> (nat \<times> u8 list \<times> nat \<times> nat \<times> nat) \<Rightarrow> 'd file_ctx \<Rightarrow> bool" where
  "overwritten dev blocks dinv data p cs last_cluster x c r c' \<longleftrightarrow>
    (let n = length data; s = fc_inner c; fin = x + length (file_content blocks s cs)
     in \<exists>l cb off s'. r = (l, cb, off, pos p n fin - p, p + n - pos p n fin) \<and> c' = ctx s' (pos p n fin) c \<and>
       content_step dev blocks dinv (set cs) s s' \<and>
       length cb = sectors_per_cluster (bpb s) * block_size dev (device s) \<and>
       (\<not> p + n \<le> fin \<longrightarrow> off = fin \<and> l = last (last_cluster # cs)) \<and>
       file_content blocks s' cs = patch (pos p n x - x) (slice (pos p n x - p) (pos p n fin - pos p n x) data)
         (file_content blocks s cs))"

lemma overwrittenI:
  assumes "fin = x + length (file_content blocks (fc_inner c) cs)"
    and "r = (l, cb, off, pos p (length data) fin - p, p + length data - pos p (length data) fin)"
    and "c' = ctx s' (pos p (length data) fin) c" and "content_step dev blocks dinv (set cs) (fc_inner c) s'"
    and "length cb = sectors_per_cluster (bpb (fc_inner c)) * block_size dev (device (fc_inner c))"
    and "\<not> p + length data \<le> fin \<Longrightarrow> off = fin \<and> l = last (last_cluster # cs)"
    and "file_content blocks s' cs = patch (pos p (length data) x - x)
      (slice (pos p (length data) x - p) (pos p (length data) fin - pos p (length data) x) data)
      (file_content blocks (fc_inner c) cs)"
  shows "overwritten dev blocks dinv data p cs last_cluster x c r c'"
  unfolding overwritten_def Let_def using assms by blast

context reliable_device
begin

text \<open>One cluster: the content of this cluster changes, then the loop goes on with the next.\<close>

lemma write_loop_cluster:
  assumes wf: "wf s" and s: "fc_inner c = s" and cl: "in_chain cl" "2 \<le> cl" "cl < max_cluster s + 2"
    and c: "fh_pointer (fc_handle c) = pos p (length data) x" and x: "\<not> p + length data \<le> x"
    and cb: "length cb = sectors_per_cluster (bpb s) * block_size dev (device s)"
    and small: "p + length data < 2 ^ 64" "x + sectors_per_cluster (bpb s) * bytes_per_sector (bpb s) < 2 ^ 64"
    and n: "data \<noteq> []"
    and copy: "\<not> x + sectors_per_cluster (bpb s) * bytes_per_sector (bpb s) < pos p (length data) x"
  defines "fin \<equiv> x + sectors_per_cluster (bpb s) * bytes_per_sector (bpb s)"
  shows "\<exists>off bl' s'. data_step dev blocks dinv cl bl' s s' \<and> (\<not> p + length data \<le> fin \<longrightarrow> off = fin) \<and>
    length (concat bl') = sectors_per_cluster (bpb s) * block_size dev (device s) \<and>
    cluster_bytes (bytes_per_sector (bpb s)) bl' = patch (pos p (length data) x - x)
      (slice (pos p (length data) x - p) (pos p (length data) fin - pos p (length data) x) data)
      (cluster_bytes (bytes_per_sector (bpb s)) (cluster_of blocks s cl)) \<and>
    write_loop dev data cl l cb (x, pos p (length data) x - p, p + length data - pos p (length data) x) c
    = write_loop dev data (fat_of blocks s cl) cl (concat bl')
        (off, pos p (length data) fin - p, p + length data - pos p (length data) fin) (ctx s' (pos p (length data) fin) c)"
proof -
  let ?B = "bytes_per_sector (bpb s)" and ?N = "sectors_per_cluster (bpb s)" and ?n = "length data"
  let ?bl = "cluster_of blocks s cl" and ?bs = "block_size dev (device s)"
  note shape = cluster_shape_of [OF wf cl(2,3)]
  have live: "cl \<noteq> FAT_ENTRY_FREE" "cl < FAT_ENTRY_EOC_START" "p + ?n - pos p ?n x > 0"
    using cl(1) x n by (auto simp: in_chain_def fat_entry_defs pos_def)
  have add: "wadd64 x (?B * ?N) = fin" using small by (simp add: fin_def wadd64_small mult.commute)
  have read: "on_inner (io (read_blocks dev (cluster_sector (bpb s) cl) ?N cb)) c = Some (Ok (concat ?bl), c)"
    using cluster_range [OF wf cl(2,3)] cb wf s
    by (intro run_on_inner_same) (simp add: io_read_blocks cluster_get_def)
  have sector: "on_inner (get_sector_by_cluster cl) c = Some (Ok (cluster_sector (bpb s) cl), c)"
    using get_sector_by_cluster_run [OF wf cl(2,3)] s by (intro run_on_inner_same) simp
  obtain off bl' where loop: "for_each [0..<?N] (write_sector data ?B ?bs)
      (x, pos p ?n x - p, p + ?n - pos p ?n x, concat ?bl, False) c
    = Some (Ok (off, pos p ?n fin - p, p + ?n - pos p ?n fin, concat bl', p + ?n \<le> fin), at_pos (pos p ?n fin) c)"
    and off: "\<not> p + ?n \<le> fin \<Longrightarrow> off = fin" and bl': "cluster_shape ?B ?bs bl'" "length bl' = ?N"
    and bytes: "cluster_bytes ?B bl' = patch (pos p ?n x - x)
        (slice (pos p ?n x - p) (pos p ?n fin - pos p ?n x) data) (cluster_bytes ?B ?bl)"
    using write_cluster_run [OF c small(1) _ _ shape(1)] small(2) x shape(2) unfolding fin_def by auto
  let ?c = "at_pos (pos p ?n fin) c"
  have len: "length (concat bl') = ?N * ?bs"
    using bl' by (simp add: cluster_shape_def length_concat_uniform)
  have chunks: "chunks ?bs ?N (concat bl') = bl'"
    using bl' chunks_concat_uniform [of bl' ?bs] by (auto simp: cluster_shape_def)
  obtain s' where wr: "on_inner (io (write_blocks dev (cluster_sector (bpb s) cl) ?N (concat bl'))) ?c
      = Some (Ok (), ctx s' (pos p ?n fin) c)" and st: "data_step dev blocks dinv cl bl' s s'"
    using write_cluster_step [OF wf cl(2,3) len] s
    by (auto simp: chunks at_pos_ctx elim!: returnsE dest: run_on_inner [of _ ?c, simplified])
  note S = data_stepD [OF st]
  have next_cl: "on_inner (get_next_cluster dev cl) (ctx s' (pos p ?n fin) c)
      = Some (Ok (fat_of blocks s cl), ctx s' (pos p ?n fin) c)"
    using get_next_cluster_run [OF S(1)] data_cluster_capacity [OF wf cl(3)] S(2,8)
    by (intro run_on_inner_same) simp
  have "write_loop dev data cl l cb (x, pos p ?n x - p, p + ?n - pos p ?n x) c
    = write_loop dev data (fat_of blocks s cl) cl (concat bl')
        (off, pos p ?n fin - p, p + ?n - pos p ?n fin) (ctx s' (pos p ?n fin) c)"
    using live copy c add read sector loop wr next_cl s fin_def
    by (subst write_loop.simps) simp
  then show ?thesis using st off len bytes by blast
qed

lemma write_loop_done:
  "write_loop dev data cl l cb (off, wo, 0) c = Some (Ok (l, cb, off, wo, 0), c)"
  by (subst write_loop.simps) simp

lemma chain_ends_step:
  assumes wf: "wf s" and "bpb s' = bpb s" and "data_chain blocks s c cs" and "chain_ends blocks s c cs"
    and "\<And>k. k < fat_capacity (bpb s) \<Longrightarrow> fat_of blocks s' k = fat_of blocks s k"
  shows "chain_ends blocks s' c cs"
proof -
  have "last cs < fat_capacity (bpb s)" if "cs \<noteq> []"
    using that assms(3) data_cluster_capacity [OF wf] last_in_set [OF that] by (auto simp: data_chain_def)
  then show ?thesis using assms(4,5) by (auto simp: chain_ends_def split: if_splits)
qed

lemma data_chain_head:
  assumes "data_chain blocks s c (x # xs)"
  shows "x = c" and "in_chain c" and "2 \<le> c" and "c < max_cluster s + 2" and "c \<notin> set xs"
    and "data_chain blocks s (fat_of blocks s c) xs"
proof -
  show "x = c" "in_chain c" "2 \<le> c" "c < max_cluster s + 2" "data_chain blocks s (fat_of blocks s c) xs"
    using assms by (auto simp: data_chain_Cons)
  show "c \<notin> set xs"
    using assms is_chain_distinct [of "fat_of blocks s" c "x # xs"] \<open>x = c\<close> by (auto simp: data_chain_def)
qed

lemma file_content_rest:
  assumes "data_chain blocks s c (c # cs)" and "data_step dev blocks dinv c bl' s s'"
  shows "file_content blocks s' cs = file_content blocks s cs"
  using data_chain_head [OF assms(1)] data_stepD(2,10) [OF assms(2)]
  by (intro file_content_cong) (auto simp: data_chain_def)

text \<open>The loop passes over the first cluster, which lies before the pointer.\<close>

lemma overwritten_skip:
  assumes wf: "wf (fc_inner c)" and chain: "data_chain blocks (fc_inner c) cl (cl # cs)"
    and skip: "x' < pos p (length data) x"
    and x': "x' = x + sectors_per_cluster (bpb (fc_inner c)) * bytes_per_sector (bpb (fc_inner c))"
    and over: "overwritten dev blocks dinv data p cs cl x' c r c'"
  shows "overwritten dev blocks dinv data p (cl # cs) l x c r c'"
proof -
  let ?s = "fc_inner c" and ?n = "length data"
  let ?R = "file_content blocks ?s cs" and ?K = "cluster_bytes (bytes_per_sector (bpb ?s)) (cluster_of blocks ?s cl)"
  let ?fin = "x' + length ?R"
  note C = data_chain_head [OF chain]
  have len: "length ?K = x' - x" using cluster_shape_of(3) [OF wf C(3,4)] x' by simp
  have content: "file_content blocks ?s (cl # cs) = ?K @ ?R" by (simp add: file_content_Cons)
  have fin: "?fin = x + length (file_content blocks ?s (cl # cs))" using content len x' by simp
  have pos: "pos p ?n x' = p" "pos p ?n x = p" "x' < p" using pos_skip [OF skip] x' by auto
  obtain l' cb' off s' where r: "r = (l', cb', off, pos p ?n ?fin - p, p + ?n - pos p ?n ?fin)"
    "c' = ctx s' (pos p ?n ?fin) c" "content_step dev blocks dinv (set cs) ?s s'"
    "length cb' = sectors_per_cluster (bpb ?s) * block_size dev (device ?s)"
    "\<not> p + ?n \<le> ?fin \<Longrightarrow> off = ?fin \<and> l' = last (cl # cs)"
    and R': "file_content blocks s' cs = patch (p - x') (slice 0 (pos p ?n ?fin - p) data) ?R"
    using over unfolding overwritten_def Let_def pos by auto
  note S = content_stepD [OF r(3)]
  have "file_content blocks s' (cl # cs) = ?K @ file_content blocks s' cs"
    using S(2) S(8) [OF C(3,5)] by (simp add: file_content_Cons)
  also have "\<dots> = patch (p - x) (slice 0 (pos p ?n ?fin - p) data) (?K @ ?R)"
    using R' patch_append_right [of ?K "p - x" _ ?R] pos(3) len x' by simp
  finally have "file_content blocks s' (cl # cs)
    = patch (pos p ?n x - x) (slice (pos p ?n x - p) (pos p ?n ?fin - pos p ?n x) data) (?K @ ?R)"
    using pos by simp
  moreover have "content_step dev blocks dinv (set (cl # cs)) ?s s'" using S unfolding content_step_def by auto
  ultimately show ?thesis using r content by (intro overwrittenI [OF fin]) auto
qed

text \<open>The first cluster has been written; the loop is finished with it, or goes on.\<close>

lemma overwritten_first:
  assumes wf: "wf (fc_inner c)" and chain: "data_chain blocks (fc_inner c) cl (cl # cs)"
    and copy: "\<not> x' < pos p (length data) x" and x: "x < p + length data"
    and x': "x' = x + sectors_per_cluster (bpb (fc_inner c)) * bytes_per_sector (bpb (fc_inner c))"
    and st1: "data_step dev blocks dinv cl bl' (fc_inner c) s1"
    and K': "cluster_bytes (bytes_per_sector (bpb (fc_inner c))) bl' = patch (pos p (length data) x - x)
        (slice (pos p (length data) x - p) (pos p (length data) x' - pos p (length data) x) data)
        (cluster_bytes (bytes_per_sector (bpb (fc_inner c))) (cluster_of blocks (fc_inner c) cl))"
    and fin: "fin = x + length (file_content blocks (fc_inner c) (cl # cs))"
    and R': "file_content blocks s' cs = patch 0 (slice (pos p (length data) x' - p)
        (pos p (length data) fin - pos p (length data) x') data) (file_content blocks (fc_inner c) cs)"
    and st: "content_step dev blocks dinv (set cs) s1 s'"
  shows "content_step dev blocks dinv (set (cl # cs)) (fc_inner c) s'"
    and "file_content blocks s' (cl # cs) = patch (pos p (length data) x - x)
      (slice (pos p (length data) x - p) (pos p (length data) fin - pos p (length data) x) data)
      (file_content blocks (fc_inner c) (cl # cs))"
proof -
  let ?s = "fc_inner c" and ?n = "length data"
  let ?R = "file_content blocks ?s cs" and ?K = "cluster_bytes (bytes_per_sector (bpb ?s)) (cluster_of blocks ?s cl)"
  note C = data_chain_head [OF chain] and S1 = data_stepD [OF st1] and S = content_stepD [OF st]
  show "content_step dev blocks dinv (set (cl # cs)) ?s s'"
    using content_step_trans [OF data_content_step [OF st1] st] by simp
  note P = pos_copy [OF x copy [unfolded x'], folded x']
  have len: "length ?K = x' - x" using cluster_shape_of(3) [OF wf C(3,4)] x' by simp
  have content: "file_content blocks ?s (cl # cs) = ?K @ ?R" by (simp add: file_content_Cons)
  let ?A = "slice (pos p ?n x - p) (pos p ?n x' - pos p ?n x) data"
  let ?D = "slice (pos p ?n x' - p) (pos p ?n fin - pos p ?n x') data"
  have mono: "pos p ?n x \<le> pos p ?n x'" "pos p ?n x' \<le> pos p ?n fin" "p \<le> pos p ?n x" "pos p ?n x' \<le> p + ?n"
    using x' fin len content by (auto intro!: pos_mono simp: pos_bounds)
  have AD: "slice (pos p ?n x - p) (pos p ?n fin - pos p ?n x) data = ?A @ ?D"
    using mono slice_append [of "pos p ?n x - p" "pos p ?n x' - pos p ?n x" "pos p ?n fin - pos p ?n x'" data] by simp
  have lA: "length ?A = pos p ?n x' - pos p ?n x" using mono by simp
  have "file_content blocks s' (cl # cs) = patch (pos p ?n x - x) ?A ?K @ patch 0 ?D ?R"
    using S(2) S1(2,9) S(8) [OF C(3,5)] K' R' by (simp add: file_content_Cons)
  also have "\<dots> = patch (pos p ?n x - x) (?A @ ?D) (?K @ ?R)"
  proof (cases "p + ?n \<le> x'")
    case True
    then have "pos p ?n x' = p + ?n" "pos p ?n fin = p + ?n" using mono(2) pos_bounds [of p ?n fin] by (auto simp: pos_left)
    then have "?D = []" by simp
    moreover have "pos p ?n x - x + length ?A \<le> length ?K" using P(3) len x' lA by simp
    ultimately show ?thesis by (simp add: patch_append_left)
  next
    case False
    then have "pos p ?n x - x + length ?A = length ?K" using P(1,4) lA len mono by simp
    then show ?thesis by (rule patch_append_split)
  qed
  finally show "file_content blocks s' (cl # cs) = patch (pos p ?n x - x)
      (slice (pos p ?n x - p) (pos p ?n fin - pos p ?n x) data) (file_content blocks ?s (cl # cs))"
    using AD content by simp
qed

lemma overwritten_next:
  assumes wf: "wf (fc_inner c)" and chain: "data_chain blocks (fc_inner c) cl (cl # cs)"
    and copy: "\<not> x' < pos p (length data) x" and x: "x < p + length data"
    and x': "x' = x + sectors_per_cluster (bpb (fc_inner c)) * bytes_per_sector (bpb (fc_inner c))"
    and st1: "data_step dev blocks dinv cl bl' (fc_inner c) s1"
    and K': "cluster_bytes (bytes_per_sector (bpb (fc_inner c))) bl' = patch (pos p (length data) x - x)
        (slice (pos p (length data) x - p) (pos p (length data) x' - pos p (length data) x) data)
        (cluster_bytes (bytes_per_sector (bpb (fc_inner c))) (cluster_of blocks (fc_inner c) cl))"
    and more: "\<not> p + length data \<le> x'"
    and over: "overwritten dev blocks dinv data p cs cl x' (ctx s1 (pos p (length data) x') c) r c'"
  shows "overwritten dev blocks dinv data p (cl # cs) l x c r c'"
proof -
  let ?s = "fc_inner c" and ?n = "length data" and ?R = "file_content blocks (fc_inner c) cs"
  let ?fin = "x' + length ?R"
  note C = data_chain_head [OF chain] and S1 = data_stepD [OF st1]
  note R1 = file_content_rest [OF chain st1]
  have pos: "pos p ?n x' = x'" using pos_copy(4) [OF x copy [unfolded x'], folded x', OF more] .
  obtain l' cb' off s' where r: "r = (l', cb', off, pos p ?n ?fin - p, p + ?n - pos p ?n ?fin)"
    "c' = ctx s' (pos p ?n ?fin) c" "content_step dev blocks dinv (set cs) s1 s'"
    "length cb' = sectors_per_cluster (bpb ?s) * block_size dev (device ?s)"
    "\<not> p + ?n \<le> ?fin \<Longrightarrow> off = ?fin \<and> l' = last (cl # cs)"
    and R': "file_content blocks s' cs = patch 0 (slice (pos p ?n x' - p) (pos p ?n ?fin - pos p ?n x') data) ?R"
    using over R1 pos S1(2,6) unfolding overwritten_def Let_def by auto
  have fin: "?fin = x + length (file_content blocks ?s (cl # cs))"
    using cluster_shape_of(3) [OF wf C(3,4)] x' by (simp add: file_content_Cons)
  show ?thesis
    using r overwritten_first [OF wf chain copy x x' st1 K' fin R' r(3)]
    by (intro overwrittenI [OF fin]) auto
qed

lemma write_loop_run:
  assumes "wf (fc_inner c)" and "data_chain blocks (fc_inner c) cl cs" and "chain_ends blocks (fc_inner c) cl cs"
    and "fh_pointer (fc_handle c) = pos p (length data) x" and "\<not> p + length data \<le> x"
    and "length cb = sectors_per_cluster (bpb (fc_inner c)) * block_size dev (device (fc_inner c))"
    and "x + length (file_content blocks (fc_inner c) cs) < 2 ^ 64"
    and small: "p + length data < 2 ^ 64" and n: "data \<noteq> []"
  shows "returns (write_loop dev data cl l cb (x, pos p (length data) x - p, p + length data - pos p (length data) x) c)
    (overwritten dev blocks dinv data p cs l x c)"
  using assms(1-7)
proof (induction cs arbitrary: cl l x cb c)
  case Nil
  then have "\<not> cl < FAT_ENTRY_EOC_START" by (simp add: chain_ends_def)
  then show ?case
    using Nil.prems by (subst write_loop.simps)
      (auto simp: overwritten_def file_content_def ctx_id content_step_refl intro!: exI [of _ "fc_inner c"])
next
  case (Cons y cs)
  let ?s = "fc_inner c" and ?n = "length data"
  let ?x' = "x + sectors_per_cluster (bpb ?s) * bytes_per_sector (bpb ?s)"
  note C = data_chain_head [OF Cons.prems(2)] and wf = Cons.prems(1)
  have chain: "data_chain blocks ?s cl (cl # cs)" using Cons.prems(2) C(1) by simp
  have ends': "chain_ends blocks ?s (fat_of blocks ?s cl) cs" using Cons.prems(3) C(1) by (simp add: chain_ends_Cons)
  have small': "?x' + length (file_content blocks ?s cs) < 2 ^ 64"
    using Cons.prems(7) cluster_shape_of(3) [OF wf C(3,4)] C(1) by (simp add: file_content_Cons)
  have x_lt: "x < p + ?n" using Cons.prems(5) by simp
  show ?case
  proof (cases "?x' < pos p ?n x")
    case True
    have pos: "pos p ?n ?x' = pos p ?n x" "\<not> p + ?n \<le> ?x'" using pos_skip [OF True] by auto
    have "on_inner (get_next_cluster dev cl) c = Some (Ok (fat_of blocks ?s cl), c)"
      using get_next_cluster_run [OF wf data_cluster_capacity [OF wf C(4)]] by (intro run_on_inner_same) simp
    moreover have "cl \<noteq> FAT_ENTRY_FREE" "cl < FAT_ENTRY_EOC_START" "p + ?n - pos p ?n x > 0"
      using C(2) Cons.prems(5) n by (auto simp: in_chain_def fat_entry_defs pos_def)
    moreover have "wadd64 x (bytes_per_sector (bpb ?s) * sectors_per_cluster (bpb ?s)) = ?x'"
      using small' by (simp add: wadd64_small mult.commute)
    ultimately have run: "write_loop dev data cl l cb (x, pos p ?n x - p, p + ?n - pos p ?n x) c
      = write_loop dev data (fat_of blocks ?s cl) cl cb (?x', pos p ?n ?x' - p, p + ?n - pos p ?n ?x') c"
      using True Cons.prems(4) pos(1) by (subst write_loop.simps) simp
    have "returns (write_loop dev data (fat_of blocks ?s cl) cl cb (?x', pos p ?n ?x' - p, p + ?n - pos p ?n ?x') c)
        (overwritten dev blocks dinv data p cs cl ?x' c)"
      using Cons.prems(4,6) pos small' by (intro Cons.IH [OF wf C(6) ends']) simp_all
    then show ?thesis
      unfolding run using C(1) by (auto elim!: returns_mono overwritten_skip [OF wf chain True refl])
  next
    case False
    obtain off bl' s1 where st1: "data_step dev blocks dinv cl bl' ?s s1"
      and off: "\<not> p + ?n \<le> ?x' \<longrightarrow> off = ?x'"
      and lcb: "length (concat bl') = sectors_per_cluster (bpb ?s) * block_size dev (device ?s)"
      and K': "cluster_bytes (bytes_per_sector (bpb ?s)) bl' = patch (pos p ?n x - x)
        (slice (pos p ?n x - p) (pos p ?n ?x' - pos p ?n x) data)
        (cluster_bytes (bytes_per_sector (bpb ?s)) (cluster_of blocks ?s cl))"
      and run: "write_loop dev data cl l cb (x, pos p ?n x - p, p + ?n - pos p ?n x) c
        = write_loop dev data (fat_of blocks ?s cl) cl (concat bl')
            (off, pos p ?n ?x' - p, p + ?n - pos p ?n ?x') (ctx s1 (pos p ?n ?x') c)"
      using write_loop_cluster [OF wf refl C(2-4) Cons.prems(4,5,6) small _ n False, of l] small' by auto
    note S1 = data_stepD [OF st1] and R1 = file_content_rest [OF chain st1]
      and first = overwritten_first [OF wf chain False x_lt refl st1 K']
    show ?thesis
    proof (cases "p + ?n \<le> ?x'")
      case True
      define fin where "fin = x + length (file_content blocks ?s (cl # cs))"
      have fin: "?x' \<le> fin" using cluster_shape_of(3) [OF wf C(3,4)] by (simp add: fin_def file_content_Cons)
      have pos: "pos p ?n ?x' = p + ?n" "pos p ?n fin = p + ?n" using True fin by (auto intro!: pos_left)
      have "overwritten dev blocks dinv data p (cl # cs) l x c
          (cl, concat bl', off, p + ?n - p, p + ?n - (p + ?n)) (ctx s1 (p + ?n) c)"
        using pos lcb True fin first [OF fin_def _ content_step_refl [OF S1(1)]] R1
        by (intro overwrittenI [OF fin_def]) auto
      then show ?thesis unfolding run pos using write_loop_done C(1) by simp
    next
      case more: False
      have "returns (write_loop dev data (fat_of blocks ?s cl) cl (concat bl')
            (?x', pos p ?n ?x' - p, p + ?n - pos p ?n ?x') (ctx s1 (pos p ?n ?x') c))
          (overwritten dev blocks dinv data p cs cl ?x' (ctx s1 (pos p ?n ?x') c))"
        using S1(1,2,6) lcb small' more R1 data_chain_step [OF wf S1(2,3,8) C(6)]
          chain_ends_step [OF wf S1(2) C(6) ends' S1(8)]
        by (intro Cons.IH) simp_all
      then show ?thesis
        unfolding run off [rule_format, OF more] using C(1)
        by (auto elim!: returns_mono overwritten_next [OF wf chain False x_lt refl st1 K' more])
    qed
  qed
qed

end

section \<open>Growing a file\<close>

lemma is_chain_not_free:
  assumes "is_chain f c cs" and "cs \<noteq> []" and "f (last cs) \<noteq> FAT_ENTRY_FREE" and "x \<in> set cs"
  shows "f x \<noteq> FAT_ENTRY_FREE"
  using assms
proof (induction cs arbitrary: c)
  case (Cons y ys)
  show ?case
  proof (cases "ys = []")
    case False
    then have "in_chain (f c)" using Cons.prems(1) by (cases ys) auto
    then show ?thesis using Cons False by (auto simp: in_chain_def)
  qed (use Cons in auto)
qed simp

lemma cluster_bytes_zeros: "bps \<le> bsize \<Longrightarrow> cluster_bytes bps (replicate k (replicate bsize 0)) = replicate (k * bps) 0"
  by (induction k) (simp_all add: cluster_bytes_def min_def replicate_add)

lemma concat_zeros: "concat (replicate k (replicate n 0)) = replicate (k * n) (0 :: u8)"
  by (induction k) (simp_all add: replicate_add)

text \<open>A file with clusters \<open>cs\<close> that starts at \<open>d\<close>, in a consistent file system.\<close>

definition file_ok ::
  "'d block_device \<Rightarrow> ('d \<Rightarrow> u8 list list) \<Rightarrow> ('d \<Rightarrow> bool) \<Rightarrow> 'd Fat32Inner \<Rightarrow> nat \<Rightarrow> nat list \<Rightarrow> bool" where
  "file_ok dev blocks dinv s d cs \<longleftrightarrow>
     fs_wf dev blocks dinv s \<and> count_ok blocks s \<and> data_chain blocks s d cs \<and> cs \<noteq> [] \<and> chain_ends blocks s d cs"

text \<open>The step that links the free cluster \<open>c\<close> with the content \<open>bl\<close> to the file's chain.\<close>

definition link_step ::
  "'d block_device \<Rightarrow> ('d \<Rightarrow> u8 list list) \<Rightarrow> ('d \<Rightarrow> bool) \<Rightarrow> nat list \<Rightarrow> nat \<Rightarrow> u8 list list
    \<Rightarrow> 'd Fat32Inner \<Rightarrow> 'd Fat32Inner \<Rightarrow> bool" where
  "link_step dev blocks dinv cs c bl s s' \<longleftrightarrow> c \<in> free_clusters blocks s \<and> count_ok blocks s' \<and>
     fs_step dev blocks dinv ((fat_of blocks s)(c := FAT_ENTRY_EOC_START, last cs := c))
       ((cluster_of blocks s)(c := bl)) s s'"

context reliable_device
begin

lemma file_okD:
  assumes "file_ok dev blocks dinv s d cs"
  shows "wf s" and "count_ok blocks s" and "data_chain blocks s d cs" and "cs \<noteq> []" and "chain_ends blocks s d cs"
    and "x \<in> set cs \<Longrightarrow> fat_of blocks s x \<noteq> FAT_ENTRY_FREE" and "x \<in> set cs \<Longrightarrow> 2 \<le> x"
    and "x \<in> set cs \<Longrightarrow> x < max_cluster s + 2" and "x \<in> set cs \<Longrightarrow> x < fat_capacity (bpb s)"
proof -
  show F: "wf s" "count_ok blocks s" "data_chain blocks s d cs" "cs \<noteq> []" "chain_ends blocks s d cs"
    using assms by (simp_all add: file_ok_def)
  have "fat_of blocks s (last cs) \<noteq> FAT_ENTRY_FREE" using F(4,5) by (auto simp: chain_ends_def fat_entry_defs)
  then show "x \<in> set cs \<Longrightarrow> fat_of blocks s x \<noteq> FAT_ENTRY_FREE"
    using F(3,4) is_chain_not_free [of "fat_of blocks s" d cs x] by (simp add: data_chain_def)
  show "x \<in> set cs \<Longrightarrow> 2 \<le> x" "x \<in> set cs \<Longrightarrow> x < max_cluster s + 2" using F(3) by (auto simp: data_chain_def)
  then show "x \<in> set cs \<Longrightarrow> x < fat_capacity (bpb s)" using data_cluster_capacity [OF F(1)] by blast
qed

lemma link_file:
  assumes f: "file_ok dev blocks dinv s d cs" and st: "link_step dev blocks dinv cs c bl s s'"
  shows "file_ok dev blocks dinv s' d (cs @ [c])"
    and "file_content blocks s' (cs @ [c]) = file_content blocks s cs @ cluster_bytes (bytes_per_sector (bpb s)) bl"
    and "free_clusters blocks s' = free_clusters blocks s - {c}"
proof -
  note F = file_okD [OF f]
  have c: "2 \<le> c" "c < max_cluster s + 2" "fat_of blocks s c = FAT_ENTRY_FREE" "c \<notin> set cs" and ok: "count_ok blocks s'"
    and fs: "fs_step dev blocks dinv ((fat_of blocks s)(c := FAT_ENTRY_EOC_START, last cs := c))
       ((cluster_of blocks s)(c := bl)) s s'"
    using st F(6) by (auto simp: link_step_def free_clusters_def)
  note S = fs_stepD [OF fs]
  let ?tab = "(fat_of blocks s)(c := FAT_ENTRY_EOC_START, last cs := c)"
  have inc: "in_chain c" "\<not> in_chain FAT_ENTRY_EOC_START"
    using c wf_geometry [OF F(1)] by (auto simp: in_chain_def fat32_geometry_def fat_entry_defs)
  have cap: "k < fat_capacity (bpb s)" if "k \<in> set (cs @ [c])" for k
    using that F(9) data_cluster_capacity [OF F(1) c(2)] by auto
  have "is_chain ?tab d (cs @ [c])"
    using F(3,4) c inc by (intro is_chain_append_link) (auto simp: data_chain_def)
  then have "is_chain (fat_of blocks s') d (cs @ [c])"
    using S(7) cap by (subst is_chain_cong [of "cs @ [c]" _ ?tab]) auto
  then have chain: "data_chain blocks s' d (cs @ [c])" using F(7,8) S(3) c by (auto simp: data_chain_def)
  have lc: "last cs \<noteq> c" using F(4) c(4) last_in_set by blast
  have "chain_ends blocks s' d (cs @ [c])" using S(7) [OF cap, of c] lc by (simp add: chain_ends_def)
  then show "file_ok dev blocks dinv s' d (cs @ [c])" using S(1) ok chain by (simp add: file_ok_def)
  have "file_content blocks s' cs = file_content blocks s cs"
    using S(2,8) F(7) c(4) by (intro file_content_cong) auto
  then show "file_content blocks s' (cs @ [c]) = file_content blocks s cs @ cluster_bytes (bytes_per_sector (bpb s)) bl"
    using S(2) S(8) [OF c(1)] by (simp add: file_content_def)
  have "fat_of blocks s' k = FAT_ENTRY_FREE \<longleftrightarrow> k \<noteq> c \<and> fat_of blocks s k = FAT_ENTRY_FREE"
    if "k < max_cluster s + 2" for k
    using S(7) [OF data_cluster_capacity [OF F(1) that]] c(1) F(6) [OF last_in_set [OF F(4)]] lc
    by (auto simp: fat_entry_defs)
  then show "free_clusters blocks s' = free_clusters blocks s - {c}" using S(3) by (auto simp: free_clusters_def)
qed

text \<open>Allocation and linking, without the content.\<close>

lemma link_cluster_run:
  assumes f: "file_ok dev blocks dinv s d cs" and free: "free_clusters blocks s \<noteq> {}"
  shows "\<exists>c s1 s2. find_available_cluster dev s = Some (Ok c, s1) \<and> update_cluster dev (last cs) c s1 = Some (Ok (), s2)
    \<and> link_step dev blocks dinv cs c (cluster_of blocks s c) s s2"
proof -
  note F = file_okD [OF f]
  obtain c s1 where r1: "find_available_cluster dev s = Some (Ok c, s1)" and c: "c \<in> free_clusters blocks s"
    and ok1: "count_ok blocks s1"
    and st1: "table_step dev blocks dinv ((fat_of blocks s)(c := FAT_ENTRY_EOC_START))
         (\<lambda>i. i\<lparr>fi_free_cluster_count := fi_free_cluster_count i - 1\<rparr>) s s1"
    using find_available_cluster_some [OF F(1,2) free] by (auto elim!: returnsE)
  note S1 = table_stepD [OF st1]
  have l: "last cs \<in> set cs" "last cs < fat_capacity (bpb s)" using F(4,9) by auto
  have c': "2 \<le> c" "c < max_cluster s + 2" "c < 2 ^ 32" "c \<noteq> FAT_ENTRY_FREE" "c \<noteq> last cs"
    using c wf_geometry [OF F(1)] F(6) [OF l(1)] by (auto simp: free_clusters_def fat32_geometry_def fat_entry_defs)
  obtain s2 where r2: "update_cluster dev (last cs) c s1 = Some (Ok (), s2)"
    and st2: "table_step dev blocks dinv ((fat_of blocks s1)(last cs := c)) (\<lambda>i. i) s1 s2"
    using update_cluster_step [OF S1(1) _ c'(3), of "last cs"] l(2) S1(2) by (auto elim!: returnsE)
  have "fat_of blocks s1 (last cs) \<noteq> FAT_ENTRY_FREE" using S1(8) [OF l(2)] F(6) [OF l(1)] by (auto simp: fat_entry_defs)
  then have "count_ok blocks s2" using c' by (intro count_ok_update [OF S1(1) ok1 st2]) auto
  moreover have "fs_step dev blocks dinv ((fat_of blocks s)(c := FAT_ENTRY_EOC_START, last cs := c))
      ((cluster_of blocks s)(c := cluster_of blocks s c)) s s2"
    by (rule fs_step_cong [OF fs_step_trans [OF table_step_fs_step [OF st1] table_step_fs_step [OF st2]]])
       (use S1(8,9) in auto)
  ultimately show ?thesis using r1 r2 c by (auto simp: link_step_def)
qed

lemma link_step_data:
  assumes "link_step dev blocks dinv cs c bl s s2" and "data_step dev blocks dinv c bl' s2 s3" and "wf s"
  shows "link_step dev blocks dinv cs c bl' s s3"
proof -
  have fs: "fs_step dev blocks dinv ((fat_of blocks s)(c := FAT_ENTRY_EOC_START, last cs := c))
      ((cluster_of blocks s)(c := bl)) s s2" and c: "c \<in> free_clusters blocks s" and ok: "count_ok blocks s2"
    using assms(1) by (auto simp: link_step_def)
  have "fs_step dev blocks dinv ((fat_of blocks s)(c := FAT_ENTRY_EOC_START, last cs := c))
      ((cluster_of blocks s)(c := bl')) s s3"
    by (rule fs_step_cong [OF fs_step_trans [OF fs data_step_fs_step [OF assms(2)]]])
       (use fs_stepD(2,7,8) [OF fs] in auto)
  moreover have "count_ok blocks s3" using count_ok_data_step [OF _ ok assms(2)] fs_stepD(1) [OF fs] by blast
  ultimately show ?thesis using c by (simp add: link_step_def)
qed

text \<open>One pass of the loop that appends clusters.\<close>

lemma append_loop_step:
  assumes f: "file_ok dev blocks dinv (fc_inner c) d cs" and free: "free_clusters blocks (fc_inner c) \<noteq> {}"
    and x: "p \<le> x" "x < p + length data" and c: "fh_pointer (fc_handle c) = x"
    and cb: "length cb = sectors_per_cluster (bpb (fc_inner c)) * block_size dev (device (fc_inner c))"
    and small: "p + length data < 2 ^ 63" 
  defines "fin \<equiv> x + sectors_per_cluster (bpb (fc_inner c)) * bytes_per_sector (bpb (fc_inner c))"
  shows "\<exists>y bl s' off. link_step dev blocks dinv cs y bl (fc_inner c) s'
    \<and> cluster_bytes (bytes_per_sector (bpb (fc_inner c))) bl = patch 0
        (slice (x - p) (pos p (length data) fin - x) data)
        (replicate (sectors_per_cluster (bpb (fc_inner c)) * bytes_per_sector (bpb (fc_inner c))) 0)
    \<and> length (concat bl) = length cb \<and> (\<not> p + length data \<le> fin \<longrightarrow> off = fin)
    \<and> append_loop dev data (last cs) cb (x, x - p, p + length data - x) c
      = append_loop dev data y (concat bl) (off, pos p (length data) fin - p, p + length data - pos p (length data) fin)
          (ctx s' (pos p (length data) fin) c)"
proof -
  let ?s = "fc_inner c" and ?n = "length data"
  let ?B = "bytes_per_sector (bpb ?s)" and ?N = "sectors_per_cluster (bpb ?s)" and ?bs = "block_size dev (device ?s)"
  let ?bl = "replicate ?N (replicate ?bs 0)"
  note F = file_okD [OF f]
  obtain y s1 s2 where r1: "find_available_cluster dev ?s = Some (Ok y, s1)"
    and r2: "update_cluster dev (last cs) y s1 = Some (Ok (), s2)"
    and link: "link_step dev blocks dinv cs y (cluster_of blocks ?s y) ?s s2"
    using link_cluster_run [OF f free] by blast
  note S2 = fs_stepD [OF link [unfolded link_step_def, THEN conjunct2, THEN conjunct2]]
  have y: "2 \<le> y" "y < max_cluster ?s + 2" using link by (auto simp: link_step_def free_clusters_def)
  have inc: "in_chain y" "in_chain (last cs)"
    using y F(7,8) [OF last_in_set [OF F(4)]] wf_geometry [OF F(1)]
    by (auto simp: in_chain_def fat32_geometry_def fat_entry_defs)
  have B: "?B \<le> ?bs" using wf_geometry [OF F(1)] by (simp add: fat32_geometry_def)
  have W: "?N * ?B < 2 ^ 63"
  proof -
    have "?N * ?B \<le> 2 ^ 8 * 2 ^ 16"
      using unat_u8_less [of "bpb_sectors_per_cluster (bpb ?s)"] unat_u16_less [of "bpb_bytes_per_sector (bpb ?s)"]
      by (intro mult_le_mono) (simp_all add: less_imp_le)
    then show ?thesis by simp
  qed
  have px: "pos p ?n x = x" using x by (simp add: pos_def)
  have shape: "cluster_shape ?B ?bs ?bl" using B by (simp add: cluster_shape_def)
  let ?c2 = "ctx s2 x c"
  obtain off bl' where loop: "for_each [0..<?N] (write_sector data ?B ?bs)
      (x, x - p, p + ?n - x, concat ?bl, False) ?c2
    = Some (Ok (off, pos p ?n fin - p, p + ?n - pos p ?n fin, concat bl', p + ?n \<le> fin), ctx s2 (pos p ?n fin) c)"
    and off: "\<not> p + ?n \<le> fin \<longrightarrow> off = fin" and bl': "cluster_shape ?B ?bs bl'" "length bl' = ?N"
    and bytes: "cluster_bytes ?B bl' = patch 0 (slice (x - p) (pos p ?n fin - x) data) (cluster_bytes ?B ?bl)"
    using write_cluster_run [of ?c2 p data x ?bl ?B ?bs] px small x W shape unfolding fin_def by auto
  have len: "length (concat bl') = ?N * ?bs" using bl' by (simp add: cluster_shape_def length_concat_uniform)
  have chunks: "chunks ?bs ?N (concat bl') = bl'"
    using bl' chunks_concat_uniform [of bl' ?bs] by (auto simp: cluster_shape_def)
  obtain s3 where r3: "io (write_blocks dev (cluster_sector (bpb s2) y) ?N (concat bl')) s2 = Some (Ok (), s3)"
    and st3: "data_step dev blocks dinv y bl' s2 s3"
    using write_cluster_step [OF S2(1) y(1), of "concat bl'"] y(2) len S2 by (auto simp: chunks elim!: returnsE)
  have "append_loop dev data (last cs) cb (x, x - p, p + ?n - x) c
      = append_loop dev data y (concat bl') (off, pos p ?n fin - p, p + ?n - pos p ?n fin) (ctx s3 (pos p ?n fin) c)"
  proof -
    have a1: "on_inner (find_available_cluster dev) c = Some (Ok y, ctx s1 x c)"
      using run_on_inner [of "find_available_cluster dev" c] r1 c by (cases c) (simp add: ctx_def)
    have a2: "on_inner (update_cluster dev (last cs) y) (ctx s1 x c) = Some (Ok (), ?c2)"
      using run_on_inner [of _ "ctx s1 x c"] r2 by simp
    have a3: "on_inner (get_sector_by_cluster y) (ctx s2 (pos p ?n fin) c)
        = Some (Ok (cluster_sector (bpb s2) y), ctx s2 (pos p ?n fin) c)"
      using get_sector_by_cluster_run [OF S2(1) y(1)] y(2) S2(3) by (intro run_on_inner_same) simp
    have a4: "on_inner (io (write_blocks dev (cluster_sector (bpb s2) y) ?N (concat bl'))) (ctx s2 (pos p ?n fin) c)
        = Some (Ok (), ctx s3 (pos p ?n fin) c)"
      using run_on_inner [of _ "ctx s2 (pos p ?n fin) c"] r3 by simp
    show ?thesis
      using a1 a2 a3 a4 loop inc x cb S2(2,5) by (subst append_loop.simps) (simp add: concat_zeros)
  qed
  moreover have "link_step dev blocks dinv cs y bl' ?s s3" by (rule link_step_data [OF link st3 F(1)])
  ultimately show ?thesis
    using bytes off len cb cluster_bytes_zeros [OF B, of ?N] by metis
qed

end

text \<open>
  The file \<open>d\<close> with clusters \<open>cs\<close> has grown by the clusters \<open>new\<close>, which were free and hold \<open>ys\<close>
  followed by zeros; nothing else has changed.
\<close>

definition grown ::
  "'d block_device \<Rightarrow> ('d \<Rightarrow> u8 list list) \<Rightarrow> ('d \<Rightarrow> bool) \<Rightarrow> nat \<Rightarrow> nat list \<Rightarrow> nat list \<Rightarrow> u8 list
    \<Rightarrow> 'd Fat32Inner \<Rightarrow> 'd Fat32Inner \<Rightarrow> bool" where
  "grown dev blocks dinv d cs new ys s s' \<longleftrightarrow>
     file_ok dev blocks dinv s' d (cs @ new) \<and> bpb s' = bpb s \<and> max_cluster s' = max_cluster s \<and>
     occupied_file s' = occupied_file s \<and> block_size dev (device s') = block_size dev (device s) \<and>
     set new \<subseteq> free_clusters blocks s \<and>
     file_content blocks s' (cs @ new) = file_content blocks s cs
       @ patch 0 ys (replicate (length new * (sectors_per_cluster (bpb s) * bytes_per_sector (bpb s))) 0) \<and>
     (\<forall>k \<ge> 2. k \<notin> set new \<longrightarrow> cluster_of blocks s' k = cluster_of blocks s k) \<and>
     (\<forall>k < fat_capacity (bpb s). k \<notin> set (last cs # new) \<longrightarrow> fat_of blocks s' k = fat_of blocks s k)"

context reliable_device
begin

lemma grown_refl: "file_ok dev blocks dinv s d cs \<Longrightarrow> grown dev blocks dinv d cs [] [] s s"
  by (simp add: grown_def)

lemma grown_link:
  assumes f: "file_ok dev blocks dinv s d cs" and st: "link_step dev blocks dinv cs y bl s s1"
    and g: "grown dev blocks dinv d (cs @ [y]) new zs s1 s'"
    and bl: "cluster_bytes (bytes_per_sector (bpb s)) bl
      = patch 0 ys (replicate (sectors_per_cluster (bpb s) * bytes_per_sector (bpb s)) 0)"
    and ys: "length ys = sectors_per_cluster (bpb s) * bytes_per_sector (bpb s) \<or> new = [] \<and> zs = []"
  shows "grown dev blocks dinv d cs (y # new) (ys @ zs) s s'"
proof -
  let ?W = "sectors_per_cluster (bpb s) * bytes_per_sector (bpb s)"
  note L = link_file [OF f st] and S = fs_stepD [OF st [unfolded link_step_def, THEN conjunct2, THEN conjunct2]]
  have y: "y \<in> free_clusters blocks s" "2 \<le> y" using st by (auto simp: link_step_def free_clusters_def)
  have G: "file_ok dev blocks dinv s' d ((cs @ [y]) @ new)" "bpb s' = bpb s" "max_cluster s' = max_cluster s"
    "occupied_file s' = occupied_file s" "block_size dev (device s') = block_size dev (device s)"
    "set new \<subseteq> free_clusters blocks s1"
    and content: "file_content blocks s' ((cs @ [y]) @ new)
      = file_content blocks s1 (cs @ [y]) @ patch 0 zs (replicate (length new * ?W) 0)"
    and clus: "\<And>k. 2 \<le> k \<Longrightarrow> k \<notin> set new \<Longrightarrow> cluster_of blocks s' k = cluster_of blocks s1 k"
    and fat: "\<And>k. k < fat_capacity (bpb s) \<Longrightarrow> k \<notin> set (y # new) \<Longrightarrow> fat_of blocks s' k = fat_of blocks s1 k"
    using g S(2-5) unfolding grown_def by auto
  have "patch 0 ys (replicate ?W 0) @ patch 0 zs (replicate (length new * ?W) 0)
      = patch 0 (ys @ zs) (replicate (length (y # new) * ?W) 0)"
    using ys
  proof
    assume "length ys = ?W"
    then show ?thesis
      using patch_append_split [of 0 ys "replicate ?W 0" zs "replicate (length new * ?W) 0"]
      by (simp add: replicate_add)
  qed simp
  then have "file_content blocks s' (cs @ y # new)
      = file_content blocks s cs @ patch 0 (ys @ zs) (replicate (length (y # new) * ?W) 0)"
    using content L(2) bl by simp
  moreover have "set (y # new) \<subseteq> free_clusters blocks s" using G(6) L(3) y by auto
  moreover have "cluster_of blocks s' k = cluster_of blocks s k" if "2 \<le> k" "k \<notin> set (y # new)" for k
    using clus that S(8) by simp
  moreover have "fat_of blocks s' k = fat_of blocks s k" if "k < fat_capacity (bpb s)" "k \<notin> set (last cs # y # new)" for k
    using fat that S(7) by simp
  ultimately show ?thesis using G unfolding grown_def by simp
qed

lemma append_loop_run:
  assumes "file_ok dev blocks dinv (fc_inner c) d cs" and "p \<le> x" and "x < p + length data"
    and "fh_pointer (fc_handle c) = x" and small: "p + length data < 2 ^ 63"
    and "length cb = sectors_per_cluster (bpb (fc_inner c)) * block_size dev (device (fc_inner c))"
  shows "\<exists>new s' q. x \<le> q \<and> grown dev blocks dinv d cs new (slice (x - p) (q - x) data) (fc_inner c) s'
    \<and> (append_loop dev data (last cs) cb (x, x - p, p + length data - x) c = Some (Ok (), ctx s' q c) \<and> q = p + length data
       \<or> append_loop dev data (last cs) cb (x, x - p, p + length data - x) c = Some (Err DiskFull, ctx s' q c)
         \<and> free_clusters blocks s' = {} \<and> q < p + length data
         \<and> q = x + length new * (sectors_per_cluster (bpb (fc_inner c)) * bytes_per_sector (bpb (fc_inner c))))"
  using assms(1-4,6)
proof (induction "p + length data - x" arbitrary: c cs x cb rule: less_induct)
  case less
  let ?s = "fc_inner c" and ?n = "length data"
  let ?W = "sectors_per_cluster (bpb ?s) * bytes_per_sector (bpb ?s)"
  note f = less.prems(1) and F = file_okD [OF less.prems(1)]
  show ?case
  proof (cases "free_clusters blocks ?s = {}")
    case True
    have "on_inner (find_available_cluster dev) c = Some (Err DiskFull, c)"
      using find_available_cluster_full [OF F(1,2) True] by (simp add: on_inner_def zoom_def)
    then have "append_loop dev data (last cs) cb (x, x - p, p + ?n - x) c = Some (Err DiskFull, ctx ?s x c)"
      using less.prems(3,4) by (subst append_loop.simps) (simp add: ctx_id)
    then show ?thesis
      using grown_refl [OF f] True less.prems(3)
      by (intro exI [of _ "[]"] exI [of _ ?s] exI [of _ x]) simp
  next
    case False
    define fin where "fin = x + ?W"
    obtain y bl s1 off where link: "link_step dev blocks dinv cs y bl ?s s1"
      and bl: "cluster_bytes (bytes_per_sector (bpb ?s)) bl = patch 0 (slice (x - p) (pos p ?n fin - x) data) (replicate ?W 0)"
      and cb: "length (concat bl) = length cb" and off: "\<not> p + ?n \<le> fin \<longrightarrow> off = fin"
      and run: "append_loop dev data (last cs) cb (x, x - p, p + ?n - x) c
        = append_loop dev data y (concat bl) (off, pos p ?n fin - p, p + ?n - pos p ?n fin) (ctx s1 (pos p ?n fin) c)"
      using append_loop_step [OF f False less.prems(2,3,4,5) small] unfolding fin_def by blast
    note L = link_file [OF f link] and S = fs_stepD [OF link [unfolded link_step_def, THEN conjunct2, THEN conjunct2]]
    show ?thesis
    proof (cases "p + ?n \<le> fin")
      case True
      have "append_loop dev data (last cs) cb (x, x - p, p + ?n - x) c = Some (Ok (), ctx s1 (p + ?n) c)"
        unfolding run pos_left [OF True] by (subst append_loop.simps) simp
      moreover have "grown dev blocks dinv d cs [y] (slice (x - p) (p + ?n - x) data) ?s s1"
        using grown_link [OF f link grown_refl [OF L(1)] bl] pos_left [OF True] by simp
      ultimately show ?thesis using less.prems(3) by (intro exI [of _ "[y]"] exI [of _ s1] exI [of _ "p + ?n"]) simp
    next
      case more: False
      have pos: "pos p ?n fin = fin" "x < fin" "fin - x = ?W" "off = fin"
        using more less.prems(2) off wf_geometry [OF F(1)] by (auto simp: pos_def fin_def fat32_geometry_def)
      let ?c1 = "ctx s1 fin c"
      have "\<exists>new s' q. fin \<le> q \<and> grown dev blocks dinv d (cs @ [y]) new (slice (fin - p) (q - fin) data) (fc_inner ?c1) s'
        \<and> (append_loop dev data (last (cs @ [y])) (concat bl) (fin, fin - p, p + ?n - fin) ?c1 = Some (Ok (), ctx s' q ?c1) \<and> q = p + ?n
          \<or> append_loop dev data (last (cs @ [y])) (concat bl) (fin, fin - p, p + ?n - fin) ?c1 = Some (Err DiskFull, ctx s' q ?c1)
            \<and> free_clusters blocks s' = {} \<and> q < p + ?n
            \<and> q = fin + length new * (sectors_per_cluster (bpb (fc_inner ?c1)) * bytes_per_sector (bpb (fc_inner ?c1))))"
        using pos less.prems(2,3,5) more L(1) cb S(2,5) by (intro less.hyps) auto
      then obtain new s' q where q: "fin \<le> q" and g: "grown dev blocks dinv d (cs @ [y]) new (slice (fin - p) (q - fin) data) s1 s'"
        and res: "append_loop dev data y (concat bl) (fin, fin - p, p + ?n - fin) ?c1 = Some (Ok (), ctx s' q c) \<and> q = p + ?n
          \<or> append_loop dev data y (concat bl) (fin, fin - p, p + ?n - fin) ?c1 = Some (Err DiskFull, ctx s' q c)
            \<and> free_clusters blocks s' = {} \<and> q < p + ?n \<and> q = fin + length new * ?W"
        using S(2) by auto
      have "slice (x - p) (q - x) data = slice (x - p) (fin - x) data @ slice (fin - p) (q - fin) data"
        using q pos(2) less.prems(2) slice_append [of "x - p" "fin - x" "q - fin" data] by simp
      moreover have "length (slice (x - p) (fin - x) data) = ?W" using pos more less.prems(2) by simp
      ultimately have gr: "grown dev blocks dinv d cs (y # new) (slice (x - p) (q - x) data) ?s s'"
        using grown_link [OF f link g bl [unfolded pos(1)]] by simp
      have eq: "fin + length new * ?W = x + length (y # new) * ?W" by (simp add: fin_def)
      show ?thesis
        using gr run res [unfolded eq] q pos
        by (intro exI [of _ "y # new"] exI [of _ s'] exI [of _ q]) (simp del: length_Cons)
    qed
  qed
qed

end

end
