(* ===== verification/Fat32_Handle.thy ===== *)
theory Fat32_Handle
  imports Fat32_Write
begin

text \<open>
  The file handle of \<open>fat32.rs\<close> as its user sees it: what a call of \<open>write\<close> does to the content, the
  chain and the directory entry of the file, and that what is written is read back.
\<close>

section \<open>The two loops of a write\<close>

text \<open>
  The bytes \<open>data\<close> have been written from position \<open>p\<close> up to position \<open>q\<close> into the file \<open>d\<close> with the
  clusters \<open>cs\<close>, which has grown by the clusters \<open>new\<close> that were free; the clusters \<open>D\<close> have changed too.
\<close>

definition extent_written ::
  "'d block_device \<Rightarrow> ('d \<Rightarrow> u8 list list) \<Rightarrow> ('d \<Rightarrow> bool) \<Rightarrow> nat \<Rightarrow> nat list \<Rightarrow> nat list \<Rightarrow> nat set
    \<Rightarrow> nat \<Rightarrow> u8 list \<Rightarrow> nat \<Rightarrow> 'd Fat32Inner \<Rightarrow> 'd Fat32Inner \<Rightarrow> bool" where
  "extent_written dev blocks dinv d cs new D p data q s s' \<longleftrightarrow>
     file_ok dev blocks dinv s' d (cs @ new) \<and> bpb s' = bpb s \<and> max_cluster s' = max_cluster s \<and>
     occupied_file s' = occupied_file s \<and> block_size dev (device s') = block_size dev (device s) \<and>
     set new \<subseteq> free_clusters blocks s \<and> p \<le> q \<and> q \<le> length (file_content blocks s' (cs @ new)) \<and>
     file_content blocks s' (cs @ new) = patch p (take (q - p) data) (file_content blocks s cs
       @ replicate (length new * (sectors_per_cluster (bpb s) * bytes_per_sector (bpb s))) 0) \<and>
     (\<forall>k \<ge> 2. k \<notin> set (cs @ new) \<union> D \<longrightarrow> cluster_of blocks s' k = cluster_of blocks s k) \<and>
     (\<forall>k < fat_capacity (bpb s). k \<notin> set (last cs # new) \<longrightarrow> fat_of blocks s' k = fat_of blocks s k)"

lemma extent_writtenD:
  assumes "extent_written dev blocks dinv d cs new D p data q s s'"
  shows "q \<le> length (file_content blocks s' (cs @ new))"
    and "file_content blocks s' (cs @ new) = patch p (take (q - p) data) (file_content blocks s cs
       @ replicate (length new * (sectors_per_cluster (bpb s) * bytes_per_sector (bpb s))) 0)"
  using assms unfolding extent_written_def by blast+

context reliable_device
begin

lemma file_ok_content_step:
  assumes "file_ok dev blocks dinv s d cs" and "content_step dev blocks dinv C s s'"
  shows "file_ok dev blocks dinv s' d cs" and "free_clusters blocks s' = free_clusters blocks s"
proof -
  note F = file_okD [OF assms(1)] and S = content_stepD [OF assms(2)]
  have fat: "fat_of blocks s' k = fat_of blocks s k" if "2 \<le> k" "k < max_cluster s + 2" for k
    using S(7) data_cluster_capacity [OF F(1) that(2)] by blast
  then show "free_clusters blocks s' = free_clusters blocks s" using S(3) by (auto simp: free_clusters_def)
  have "count_ok blocks s'" by (rule count_ok_same [OF F(1,2) S(5,3)]) (simp add: fat)
  moreover have "data_chain blocks s' d cs" using data_chain_step [OF F(1) S(2,3,7) F(3)] by blast
  moreover have "chain_ends blocks s' d cs"
    using F(5) S(7) [OF F(9) [OF last_in_set [OF F(4)]]] F(4) by (simp add: chain_ends_def)
  ultimately show "file_ok dev blocks dinv s' d cs" using S(1) F(4) by (simp add: file_ok_def)
qed

lemma extent_written_within:
  assumes f: "file_ok dev blocks dinv s d cs" and st: "content_step dev blocks dinv (set cs) s s'"
    and q: "p + length data \<le> length (file_content blocks s cs)"
    and content: "file_content blocks s' cs = patch p data (file_content blocks s cs)"
  shows "extent_written dev blocks dinv d cs [] {} p data (p + length data) s s'"
  using file_ok_content_step [OF f st] content_stepD [OF st] q content by (simp add: extent_written_def)

lemma extent_written_beyond:
  assumes f: "file_ok dev blocks dinv s d cs" and st: "content_step dev blocks dinv (set cs) s s1"
    and C: "m = length (file_content blocks s cs)" and q: "p \<le> m" "m \<le> q" "q \<le> p + length data"
    and content: "file_content blocks s1 cs = patch p (take (m - p) data) (file_content blocks s cs)"
    and g: "grown dev blocks dinv d cs new (slice (m - p) (q - m) data) s1 s'"
  shows "extent_written dev blocks dinv d cs new {} p data q s s'"
proof -
  let ?W = "sectors_per_cluster (bpb s) * bytes_per_sector (bpb s)"
  let ?Z = "replicate (length new * ?W) (0::u8)"
  note S = content_stepD [OF st] and F1 = file_ok_content_step [OF f st]
  have G: "file_ok dev blocks dinv s' d (cs @ new)" "bpb s' = bpb s" "max_cluster s' = max_cluster s"
    "occupied_file s' = occupied_file s" "block_size dev (device s') = block_size dev (device s)"
    "set new \<subseteq> free_clusters blocks s"
    and app: "file_content blocks s' (cs @ new)
      = file_content blocks s1 cs @ patch 0 (slice (m - p) (q - m) data) ?Z"
    and clus: "\<And>k. 2 \<le> k \<Longrightarrow> k \<notin> set new \<Longrightarrow> cluster_of blocks s' k = cluster_of blocks s1 k"
    and fat: "\<And>k. k < fat_capacity (bpb s) \<Longrightarrow> k \<notin> set (last cs # new) \<Longrightarrow> fat_of blocks s' k = fat_of blocks s1 k"
    using g S F1 unfolding grown_def by auto
  have "take (q - p) data = take (m - p) data @ slice (m - p) (q - m) data"
    using q slice_append [of 0 "m - p" "q - m" data] by (simp add: slice_def)
  then have content': "file_content blocks s' (cs @ new) = patch p (take (q - p) data) (file_content blocks s cs @ ?Z)"
    using app content patch_append_split [of p "take (m - p) data" "file_content blocks s cs"] C q
    by simp
  have "length (file_content blocks s' (cs @ new)) \<ge> q"
    unfolding content' using q C by (simp add: patch_def)
  then show ?thesis
    using G content' clus fat S(7,8) q unfolding extent_written_def by auto
qed

lemma write_loops_run:
  assumes f: "file_ok dev blocks dinv (fc_inner c) d cs" and p: "p = fh_pointer (fc_handle c)"
    and "p \<le> length (file_content blocks (fc_inner c) cs)" and small: "p + length data < 2 ^ 63" and ne: "data \<noteq> []"
    and cb: "length cb = sectors_per_cluster (bpb (fc_inner c)) * block_size dev (device (fc_inner c))"
  defines "prog \<equiv> bind (write_loop dev data d 0 cb (0, 0, length data)) (\<lambda>(last_cluster, cb, offset, write_offset, remain).
      append_loop dev data last_cluster cb (offset, write_offset, remain))"
  shows "\<exists>new s' q. extent_written dev blocks dinv d cs new {} p data q (fc_inner c) s' \<and>
    (prog c = Some (Ok (), ctx s' q c) \<and> q = p + length data
     \<or> prog c = Some (Err DiskFull, ctx s' q c) \<and> free_clusters blocks s' = {} \<and> q < p + length data
       \<and> q = length (file_content blocks s' (cs @ new)))"
proof -
  let ?s = "fc_inner c" and ?n = "length data"
  define m where "m = length (file_content blocks ?s cs)"
  note F = file_okD [OF f]
  have m: "p \<le> m" "m < 2 ^ 64" using assms(3) length_file_content(2) [OF F(1,3)] by (auto simp: m_def)
  have pos0: "pos p ?n 0 = p" by (simp add: pos_def)
  have "returns (write_loop dev data d 0 cb (0, pos p ?n 0 - p, p + ?n - pos p ?n 0) c)
      (overwritten dev blocks dinv data p cs 0 0 c)"
    using F cb p small ne m pos0 by (intro write_loop_run) (auto simp: m_def)
  then obtain r c1 where r: "write_loop dev data d 0 cb (0, 0, ?n) c = Some (Ok r, c1)"
    and "overwritten dev blocks dinv data p cs 0 0 c r c1"
    by (auto simp: pos0 elim!: returnsE)
  then obtain l cb1 off s1 where r': "r = (l, cb1, off, pos p ?n m - p, p + ?n - pos p ?n m)"
    and c1: "c1 = ctx s1 (pos p ?n m) c" and st: "content_step dev blocks dinv (set cs) ?s s1"
    and cb1: "length cb1 = sectors_per_cluster (bpb ?s) * block_size dev (device ?s)"
    and fin: "\<not> p + ?n \<le> m \<longrightarrow> off = m \<and> l = last cs"
    and content: "file_content blocks s1 cs = patch p (take (pos p ?n m - p) data) (file_content blocks ?s cs)"
    using F(4) pos0 by (auto simp: overwritten_def Let_def m_def slice_def)
  have prog: "prog c = append_loop dev data l cb1 (off, pos p ?n m - p, p + ?n - pos p ?n m) c1"
    unfolding prog_def by (simp add: bind_def r r')
  show ?thesis
  proof (cases "p + ?n \<le> m")
    case True
    have "prog c = Some (Ok (), ctx s1 (p + ?n) c)"
      unfolding prog c1 pos_left [OF True] by (subst append_loop.simps) simp
    moreover have "extent_written dev blocks dinv d cs [] {} p data (p + ?n) ?s s1"
      using extent_written_within [OF f st] True content by (simp add: m_def pos_left [OF True, unfolded m_def])
    ultimately show ?thesis by blast
  next
    case False
    have pos: "pos p ?n m = m" using False m by (simp add: pos_def)
    have "\<exists>new s' q. m \<le> q \<and> grown dev blocks dinv d cs new (slice (m - p) (q - m) data) (fc_inner c1) s'
      \<and> (append_loop dev data (last cs) cb1 (m, m - p, p + ?n - m) c1 = Some (Ok (), ctx s' q c1) \<and> q = p + ?n
       \<or> append_loop dev data (last cs) cb1 (m, m - p, p + ?n - m) c1 = Some (Err DiskFull, ctx s' q c1)
         \<and> free_clusters blocks s' = {} \<and> q < p + ?n
         \<and> q = m + length new * (sectors_per_cluster (bpb (fc_inner c1)) * bytes_per_sector (bpb (fc_inner c1))))"
      using file_ok_content_step [OF f st] m False small cb1 content_stepD(2,6) [OF st] pos
      by (intro append_loop_run) (auto simp: c1)
    then obtain new s' q where q: "m \<le> q" and g: "grown dev blocks dinv d cs new (slice (m - p) (q - m) data) s1 s'"
      and res: "prog c = Some (Ok (), ctx s' q c) \<and> q = p + ?n
        \<or> prog c = Some (Err DiskFull, ctx s' q c) \<and> free_clusters blocks s' = {} \<and> q < p + ?n
          \<and> q = m + length new * (sectors_per_cluster (bpb s1) * bytes_per_sector (bpb s1))"
      unfolding prog pos using fin False by (auto simp: c1)
    have x: "extent_written dev blocks dinv d cs new {} p data q ?s s'"
      using extent_written_beyond [OF f st m_def m(1) q _ _ g] res content pos by auto
    then have len: "length (file_content blocks s' (cs @ new))
        = m + length new * (sectors_per_cluster (bpb s1) * bytes_per_sector (bpb s1))"
      using length_file_content(1) [OF F(1,3)] length_file_content(1) [of s' d "cs @ new"] content_stepD(2) [OF st]
      by (simp add: extent_written_def file_ok_def m_def algebra_simps)
    show ?thesis using x res [folded len] by blast
  qed
qed

end

section \<open>The directory entry\<close>

text \<open>The short entry of the file lies in sector \<open>i\<close> of the data cluster \<open>dc\<close>.\<close>

definition entry_in :: "'d Fat32Inner \<Rightarrow> Fat32FileMetadata \<Rightarrow> nat \<Rightarrow> nat \<Rightarrow> bool" where
  "entry_in s m dc i \<longleftrightarrow> 2 \<le> dc \<and> dc < max_cluster s + 2 \<and> i < sectors_per_cluster (bpb s) \<and>
     fm_short_sector m = cluster_sector (bpb s) dc + i \<and>
     (fm_short_sector_offset m + 1) * DIRECTORY_ENTRY_SIZE \<le> bytes_per_sector (bpb s) \<and> short_arrays_ok (fm_short m)"

definition entry_bytes :: "('d \<Rightarrow> u8 list list) \<Rightarrow> 'd Fat32Inner \<Rightarrow> Fat32FileMetadata \<Rightarrow> nat \<Rightarrow> nat \<Rightarrow> u8 list" where
  "entry_bytes blocks s m dc i =
     slice (fm_short_sector_offset m * DIRECTORY_ENTRY_SIZE) DIRECTORY_ENTRY_SIZE (cluster_of blocks s dc ! i)"

context reliable_device
begin

lemma update_file_metadata_run:
  assumes wf: "wf s" and e: "entry_in s m dc i"
  shows "returns (update_file_metadata dev m s) (\<lambda>_ s'. entry_bytes blocks s' m dc i = short_encode (fm_short m)
    \<and> (\<exists>bl. data_step dev blocks dinv dc bl s s'))"
proof -
  let ?o = "fm_short_sector_offset m * DIRECTORY_ENTRY_SIZE" and ?b = "cluster_of blocks s dc ! i"
  have E: "2 \<le> dc" "dc < max_cluster s + 2" "i < sectors_per_cluster (bpb s)"
    "fm_short_sector m = cluster_sector (bpb s) dc + i" "length (short_encode (fm_short m)) = 32"
    using e short_encode_length by (auto simp: entry_in_def)
  have len: "length ?b = block_size dev (device s)" "bytes_per_sector (bpb s) \<le> block_size dev (device s)"
    "length (cluster_of blocks s dc) = sectors_per_cluster (bpb s)"
    using cluster_shape_of [OF wf E(1,2)] E(3) by (auto simp: cluster_shape_def)
  have o: "?o + 32 \<le> length ?b" using e len by (simp add: entry_in_def DIRECTORY_ENTRY_SIZE_def)
  have "blocks (device s) ! fm_short_sector m = ?b" and rng: "fm_short_sector m < length (blocks (device s))"
    using cluster_range [OF wf E(1,2)] E(3,4) by (simp_all add: cluster_get_def slice_nth)
  then have rd: "io (read_block dev (fm_short_sector m) (replicate (block_size dev (device s)) 0)) s = Some (Ok ?b, s)"
    using io_read [OF wf rng] by simp
  let ?p = "patch ?o (short_encode (fm_short m)) ?b"
  have "returns (io (write_block dev (fm_short_sector m) ?p) s)
      (\<lambda>_. data_step dev blocks dinv dc ((cluster_of blocks s dc)[i := ?p]) s)"
    unfolding E(4) using o E(5) len by (intro write_cluster_block_step [OF wf E(1-3)]) simp
  moreover have "entry_bytes blocks s' m dc i = short_encode (fm_short m)"
    if "data_step dev blocks dinv dc ((cluster_of blocks s dc)[i := ?p]) s s'" for s'
    using data_stepD(9) [OF that] o E len by (simp add: entry_bytes_def DIRECTORY_ENTRY_SIZE_def)
  ultimately have "returns (io (write_block dev (fm_short_sector m) ?p) s) (\<lambda>_ s'. entry_bytes blocks s' m dc i = short_encode (fm_short m)
    \<and> (\<exists>bl. data_step dev blocks dinv dc bl s s'))"
    by (blast intro: returns_mono)
  then show ?thesis
    using rd o len by (simp add: update_file_metadata_def new_buffer_def DIRECTORY_ENTRY_SIZE_def returns_def bind_def)
qed

end

section \<open>Writing through a handle\<close>

text \<open>A handle on the file with the clusters \<open>cs\<close> whose directory entry lies in the sector \<open>i\<close> of \<open>dc\<close>.\<close>

definition writable ::
  "'d block_device \<Rightarrow> ('d \<Rightarrow> u8 list list) \<Rightarrow> ('d \<Rightarrow> bool) \<Rightarrow> 'd Fat32Inner \<Rightarrow> Fat32FileHandle
    \<Rightarrow> nat list \<Rightarrow> nat \<Rightarrow> nat \<Rightarrow> bool" where
  "writable dev blocks dinv s h cs dc i \<longleftrightarrow>
     handle_on dev blocks dinv s h cs \<and> file_ok dev blocks dinv s (metadata_start_cluster (fh_metadata h)) cs \<and>
     entry_in s (fh_metadata h) dc i \<and> dc \<notin> set cs \<and> fat_of blocks s dc \<noteq> FAT_ENTRY_FREE"

text \<open>The handle after a write up to position \<open>q\<close>.\<close>

definition moved_to :: "nat \<Rightarrow> Fat32FileHandle \<Rightarrow> Fat32FileHandle" where
  "moved_to q h = (if handle_size h < q
     then h\<lparr>fh_pointer := q, fh_metadata := (fh_metadata h)
       \<lparr>fm_short := (fm_short (fh_metadata h))\<lparr>de_file_size := of_nat q\<rparr>\<rparr>\<rparr>
     else h\<lparr>fh_pointer := q\<rparr>)"

lemma moved_to_simps [simp]:
  "fh_pointer (moved_to q h) = q" "fh_inner (moved_to q h) = fh_inner h" "fh_closed (moved_to q h) = fh_closed h"
  "metadata_start_cluster (fh_metadata (moved_to q h)) = metadata_start_cluster (fh_metadata h)"
  "entry_in s (fh_metadata (moved_to q h)) dc i \<longleftrightarrow> entry_in s (fh_metadata h) dc i"
  "entry_bytes blocks s (fh_metadata (moved_to q h)) dc i = entry_bytes blocks s (fh_metadata h) dc i"
  by (auto simp: moved_to_def metadata_start_cluster_def short_start_cluster_def entry_in_def short_arrays_ok_def
      entry_bytes_def)

lemma moved_to_size: "q < 2 ^ 32 \<Longrightarrow> handle_size (moved_to q h) = max (handle_size h) q"
  by (simp add: moved_to_def unat_of_nat take_bit_nat_eq_self)

context reliable_device
begin

lemma extent_written_entry:
  assumes x: "extent_written dev blocks dinv d cs new {} p data q s s1" and st: "data_step dev blocks dinv dc bl s1 s'"
    and dc: "dc \<notin> set cs" "2 \<le> dc" "fat_of blocks s dc \<noteq> FAT_ENTRY_FREE"
  shows "extent_written dev blocks dinv d cs new {dc} p data q s s'"
proof -
  have f: "file_ok dev blocks dinv s1 d (cs @ new)" and X: "bpb s1 = bpb s" "set new \<subseteq> free_clusters blocks s"
    using x by (simp_all add: extent_written_def)
  note F = file_okD [OF f] and S = content_stepD [OF data_content_step [OF st]]
  have "dc \<notin> set (cs @ new)" using dc X(2) by (auto simp: free_clusters_def)
  then have "file_content blocks s' (cs @ new) = file_content blocks s1 (cs @ new)"
    using S(2,8) F(7) by (intro file_content_cong) (simp, metis singletonD)
  then show ?thesis
    using x file_ok_content_step(1) [OF f data_content_step [OF st]] S unfolding extent_written_def by auto
qed

lemma extent_written_weaken:
  "extent_written dev blocks dinv d cs new {} p data q s s' \<Longrightarrow> extent_written dev blocks dinv d cs new D p data q s s'"
  unfolding extent_written_def by blast

lemma writable_after:
  assumes w: "writable dev blocks dinv s h cs dc i"
    and x: "extent_written dev blocks dinv (metadata_start_cluster (fh_metadata h)) cs new {dc} (fh_pointer h) data q s s'"
    and q: "q < 2 ^ 32"
  shows "writable dev blocks dinv s' (moved_to q h) (cs @ new) dc i"
proof -
  have X: "file_ok dev blocks dinv s' (metadata_start_cluster (fh_metadata h)) (cs @ new)" "bpb s' = bpb s"
    "max_cluster s' = max_cluster s" "set new \<subseteq> free_clusters blocks s"
    "q \<le> length (file_content blocks s' (cs @ new))"
    "\<And>k. k < fat_capacity (bpb s) \<Longrightarrow> k \<notin> set (last cs # new) \<Longrightarrow> fat_of blocks s' k = fat_of blocks s k"
    using x by (auto simp: extent_written_def)
  have W: "handle_on dev blocks dinv s h cs" "entry_in s (fh_metadata h) dc i" "dc \<notin> set cs"
    "fat_of blocks s dc \<noteq> FAT_ENTRY_FREE" "wf s" "cs \<noteq> []" "data_chain blocks s (metadata_start_cluster (fh_metadata h)) cs"
    using w by (auto simp: writable_def file_ok_def)
  note F' = file_okD [OF X(1)]
  have "length (file_content blocks s cs) \<le> length (file_content blocks s' (cs @ new))"
    using length_file_content(1) [OF F'(1,3)] length_file_content(1) [OF W(5,7)] X(2) by simp
  then have "handle_on dev blocks dinv s' (moved_to q h) (cs @ new)"
    using W(1) F'(1,3) X(5) moved_to_size [OF q, of h] by (auto simp: handle_on_def)
  moreover have "dc \<notin> set (cs @ new)" "last cs \<noteq> dc" using W(3,4,6) X(4) by (auto simp: free_clusters_def)
  moreover have "dc < fat_capacity (bpb s)" using data_cluster_capacity [OF W(5)] W(2) by (simp add: entry_in_def)
  moreover have "entry_in s' (fh_metadata h) dc i" using W(2) X(2,3) by (simp add: entry_in_def)
  ultimately show ?thesis using X(1) X(6) [of dc] W(4) by (simp add: writable_def)
qed

end

lemma write_body_loops:
  "write_body dev data c = bind (bind (write_loop dev data (metadata_start_cluster (fh_metadata (fc_handle c))) 0
       (replicate (block_size dev (device (fc_inner c)) * sectors_per_cluster (bpb (fc_inner c))) 0)
       (0, 0, length data)) (\<lambda>(last_cluster, cb, offset, write_offset, remain).
       append_loop dev data last_cluster cb (offset, write_offset, remain)))
     (\<lambda>_. finish_write dev (handle_size (fc_handle c))) c"
  unfolding write_body_def Let_def
  by (auto simp: bind_def split: option.splits prod.splits res.splits)

context reliable_device
begin

lemma finish_write_run:
  assumes c: "c = ctx s q \<lparr>fc_inner = s0, fc_handle = h\<rparr>" and wf: "wf s" and e: "entry_in s (fh_metadata h) dc i"
  shows "returns (finish_write dev (handle_size h) c) (\<lambda>_ c'. fc_handle c' = moved_to q h \<and>
    (if handle_size h < q
     then entry_bytes blocks (fc_inner c') (fh_metadata h) dc i = short_encode (fm_short (fh_metadata (moved_to q h)))
       \<and> (\<exists>bl. data_step dev blocks dinv dc bl s (fc_inner c'))
     else fc_inner c' = s))"
proof (cases "handle_size h < q")
  case True
  let ?m = "fh_metadata (moved_to q h)"
  obtain s' bl where run: "update_file_metadata dev ?m s = Some (Ok (), s')"
    and s': "entry_bytes blocks s' ?m dc i = short_encode (fm_short ?m)" "data_step dev blocks dinv dc bl s s'"
    using update_file_metadata_run [OF wf, of ?m dc i] e by (auto elim!: returnsE)
  have h: "moved_to q h = h\<lparr>fh_pointer := q, fh_metadata := ?m\<rparr>" using True by (simp add: moved_to_def)
  then have "finish_write dev (handle_size h) c = Some (Ok (), \<lparr>fc_inner = s', fc_handle = moved_to q h\<rparr>)"
    using True run by (simp add: finish_write_def c on_inner_def zoom_def ctx_def moved_to_def)
  then show ?thesis using True s' by auto
next
  case False
  then show ?thesis by (simp add: finish_write_def c moved_to_def ctx_def)
qed

lemma write_file_run:
  assumes w: "writable dev blocks dinv s h cs dc i" and n: "fh_pointer h + length data \<le> 2 ^ 32 - 1"
  shows "\<exists>new s' q. extent_written dev blocks dinv (metadata_start_cluster (fh_metadata h)) cs new {dc} (fh_pointer h) data q s s' \<and>
    (write_file dev data (Some s, h) = Some (Ok (), (Some s', moved_to q h)) \<and> q = fh_pointer h + length data
       \<and> (handle_size h < q \<longrightarrow>
           entry_bytes blocks s' (fh_metadata h) dc i = short_encode (fm_short (fh_metadata (moved_to q h))))
     \<or> write_file dev data (Some s, h) = Some (Err DiskFull, (Some s', h\<lparr>fh_pointer := q\<rparr>))
       \<and> free_clusters blocks s' = {} \<and> q < fh_pointer h + length data
       \<and> q = length (file_content blocks s' (cs @ new)))"
proof -
  let ?p = "fh_pointer h" and ?c = "\<lparr>fc_inner = s, fc_handle = h\<rparr>" and ?d = "metadata_start_cluster (fh_metadata h)"
  let ?cb = "replicate (block_size dev (device s) * sectors_per_cluster (bpb s)) 0"
  let ?loops = "bind (write_loop dev data ?d 0 ?cb (0, 0, length data)) (\<lambda>(last_cluster, cb, offset, write_offset, remain).
      append_loop dev data last_cluster cb (offset, write_offset, remain))"
  have W: "file_ok dev blocks dinv s ?d cs" "entry_in s (fh_metadata h) dc i" "dc \<notin> set cs"
    "fat_of blocks s dc \<noteq> FAT_ENTRY_FREE" and H: "fh_inner h" "\<not> fh_closed h" "?p \<le> handle_size h"
    "handle_size h \<le> length (file_content blocks s cs)"
    using w by (auto simp: writable_def handle_on_def)
  have wr: "write_file dev data (Some s, h) = (case bind ?loops (\<lambda>_. finish_write dev (handle_size h)) ?c of
      None \<Rightarrow> None | Some (r, c) \<Rightarrow> Some (r, (Some (fc_inner c), fc_handle c)))"
    using H(1,2) n write_body_loops [of dev data ?c] by (simp add: write_file_def handle_of_def upgrade_def wadd64_small)
  have "\<exists>new s' q. extent_written dev blocks dinv ?d cs new {} ?p data q s s' \<and>
    (?loops ?c = Some (Ok (), ctx s' q ?c) \<and> q = ?p + length data
     \<or> ?loops ?c = Some (Err DiskFull, ctx s' q ?c) \<and> free_clusters blocks s' = {} \<and> q < ?p + length data
       \<and> q = length (file_content blocks s' (cs @ new)))"
  proof (cases "data = []")
    case True
    have "?loops ?c = Some (Ok (), ctx s ?p ?c)"
      using True by (simp add: write_loop.simps append_loop.simps ctx_def)
    moreover have "extent_written dev blocks dinv ?d cs [] {} ?p data ?p s s"
      using extent_written_within [OF W(1) content_step_refl [OF file_okD(1) [OF W(1)]], of ?p data] True H by simp
    ultimately show ?thesis using True by (intro exI [of _ "[]"] exI [of _ s] exI [of _ ?p]) simp
  next
    case False
    show ?thesis using write_loops_run [of ?c ?d cs ?p data ?cb] W(1) H n False by simp
  qed
  then obtain new s1 q where x: "extent_written dev blocks dinv ?d cs new {} ?p data q s s1"
    and res: "?loops ?c = Some (Ok (), ctx s1 q ?c) \<and> q = ?p + length data
     \<or> ?loops ?c = Some (Err DiskFull, ctx s1 q ?c) \<and> free_clusters blocks s1 = {} \<and> q < ?p + length data
       \<and> q = length (file_content blocks s1 (cs @ new))"
    by blast
  have X: "wf s1" "entry_in s1 (fh_metadata h) dc i"
    using x W(2) by (auto simp: extent_written_def file_ok_def entry_in_def)
  from res show ?thesis
  proof
    assume ok: "?loops ?c = Some (Ok (), ctx s1 q ?c) \<and> q = ?p + length data"
    obtain c' where fin: "finish_write dev (handle_size h) (ctx s1 q ?c) = Some (Ok (), c')"
      and h': "fc_handle c' = moved_to q h"
      and c': "if handle_size h < q
        then entry_bytes blocks (fc_inner c') (fh_metadata h) dc i = short_encode (fm_short (fh_metadata (moved_to q h)))
          \<and> (\<exists>bl. data_step dev blocks dinv dc bl s1 (fc_inner c'))
        else fc_inner c' = s1"
      using finish_write_run [OF refl X, of q s] by (auto elim!: returnsE)
    have "extent_written dev blocks dinv ?d cs new {dc} ?p data q s (fc_inner c')"
      using c' extent_written_entry [OF x _ W(3) _ W(4)] extent_written_weaken [OF x] W(2)
      by (auto simp: entry_in_def split: if_splits)
    moreover have "write_file dev data (Some s, h) = Some (Ok (), (Some (fc_inner c'), moved_to q h))"
      using wr ok fin h' by (simp add: bind_def)
    ultimately show ?thesis using c' ok by (intro exI [of _ new] exI [of _ "fc_inner c'"] exI [of _ q]) auto
  next
    assume full: "?loops ?c = Some (Err DiskFull, ctx s1 q ?c) \<and> free_clusters blocks s1 = {} \<and> q < ?p + length data
       \<and> q = length (file_content blocks s1 (cs @ new))"
    then have "write_file dev data (Some s, h) = Some (Err DiskFull, (Some s1, h\<lparr>fh_pointer := q\<rparr>))"
      using wr by (simp add: bind_def ctx_def)
    then show ?thesis using full extent_written_weaken [OF x] by blast
  qed
qed

end

section \<open>The properties\<close>

text \<open>The number of bytes the file can hold once it has all the free clusters.\<close>

definition room :: "('d \<Rightarrow> u8 list list) \<Rightarrow> 'd Fat32Inner \<Rightarrow> nat list \<Rightarrow> nat" where
  "room blocks s cs = (length cs + card (free_clusters blocks s)) * (sectors_per_cluster (bpb s) * bytes_per_sector (bpb s))"

context reliable_device
begin

lemma extent_written_room:
  assumes f: "file_ok dev blocks dinv s d cs" and x: "extent_written dev blocks dinv d cs new D p data q s s'"
  shows "length (file_content blocks s' (cs @ new)) \<le> room blocks s cs"
    and "free_clusters blocks s' = {} \<Longrightarrow> length (file_content blocks s' (cs @ new)) = room blocks s cs"
proof -
  have X: "file_ok dev blocks dinv s' d (cs @ new)" "bpb s' = bpb s" "max_cluster s' = max_cluster s"
    "set new \<subseteq> free_clusters blocks s"
    "\<And>k. k < fat_capacity (bpb s) \<Longrightarrow> k \<notin> set (last cs # new) \<Longrightarrow> fat_of blocks s' k = fat_of blocks s k"
    using x by (auto simp: extent_written_def)
  note F = file_okD [OF f] and F' = file_okD [OF X(1)]
  have len: "length (file_content blocks s' (cs @ new))
      = (length cs + length new) * (sectors_per_cluster (bpb s) * bytes_per_sector (bpb s))"
    using length_file_content(1) [OF F'(1,3)] X(2) by simp
  have "distinct new" using F'(3) is_chain_distinct by (fastforce simp: data_chain_def)
  then have card: "card (set new) = length new" by (rule distinct_card)
  then have "length new \<le> card (free_clusters blocks s)" using X(4) card_mono [OF finite_free_clusters] by metis
  then show "length (file_content blocks s' (cs @ new)) \<le> room blocks s cs" by (simp add: len room_def mult_le_mono1)
  assume full: "free_clusters blocks s' = {}"
  have "k \<in> set new" if k: "k \<in> free_clusters blocks s" for k
  proof (rule ccontr)
    assume "k \<notin> set new"
    moreover have "k \<noteq> last cs" using k F(6) [of k] F(4) by (auto simp: free_clusters_def)
    ultimately have "fat_of blocks s' k = fat_of blocks s k"
      using X(5) data_cluster_capacity [OF F(1)] k by (auto simp: free_clusters_def)
    then have "k \<in> free_clusters blocks s'" using k X(3) by (simp add: free_clusters_def)
    with full show False by simp
  qed
  then have "set new = free_clusters blocks s" using X(4) by blast
  with card show "length (file_content blocks s' (cs @ new)) = room blocks s cs" by (simp add: len room_def)
qed

lemma write_file_cases:
  assumes w: "writable dev blocks dinv s h cs dc i" and n: "fh_pointer h + length data \<le> 2 ^ 32 - 1"
  shows "\<exists>new s' q. extent_written dev blocks dinv (metadata_start_cluster (fh_metadata h)) cs new {dc} (fh_pointer h) data q s s' \<and>
    (if fh_pointer h + length data \<le> room blocks s cs
     then q = fh_pointer h + length data \<and> write_file dev data (Some s, h) = Some (Ok (), (Some s', moved_to q h))
       \<and> writable dev blocks dinv s' (moved_to q h) (cs @ new) dc i
       \<and> (handle_size h < q \<longrightarrow>
           entry_bytes blocks s' (fh_metadata h) dc i = short_encode (fm_short (fh_metadata (moved_to q h))))
     else q = room blocks s cs \<and> write_file dev data (Some s, h) = Some (Err DiskFull, (Some s', h\<lparr>fh_pointer := q\<rparr>)))"
proof -
  obtain new s' q where x: "extent_written dev blocks dinv (metadata_start_cluster (fh_metadata h)) cs new {dc} (fh_pointer h) data q s s'"
    and res: "write_file dev data (Some s, h) = Some (Ok (), (Some s', moved_to q h)) \<and> q = fh_pointer h + length data
       \<and> (handle_size h < q \<longrightarrow>
           entry_bytes blocks s' (fh_metadata h) dc i = short_encode (fm_short (fh_metadata (moved_to q h))))
     \<or> write_file dev data (Some s, h) = Some (Err DiskFull, (Some s', h\<lparr>fh_pointer := q\<rparr>))
       \<and> free_clusters blocks s' = {} \<and> q < fh_pointer h + length data
       \<and> q = length (file_content blocks s' (cs @ new))"
    using write_file_run [OF w n] by blast
  have f: "file_ok dev blocks dinv s (metadata_start_cluster (fh_metadata h)) cs" using w by (simp add: writable_def)
  note room = extent_written_room [OF f x]
  have q: "q \<le> room blocks s cs" using extent_writtenD(1) [OF x] room(1) by (rule le_trans)
  from res show ?thesis
  proof
    assume ok: "write_file dev data (Some s, h) = Some (Ok (), (Some s', moved_to q h)) \<and> q = fh_pointer h + length data
       \<and> (handle_size h < q \<longrightarrow>
           entry_bytes blocks s' (fh_metadata h) dc i = short_encode (fm_short (fh_metadata (moved_to q h))))"
    have "q < 2 ^ 32" using ok n by simp
    then have "writable dev blocks dinv s' (moved_to q h) (cs @ new) dc i" by (rule writable_after [OF w x])
    then show ?thesis using x ok q by (intro exI [of _ new] exI [of _ s'] exI [of _ q]) simp
  next
    assume "write_file dev data (Some s, h) = Some (Err DiskFull, (Some s', h\<lparr>fh_pointer := q\<rparr>))
       \<and> free_clusters blocks s' = {} \<and> q < fh_pointer h + length data
       \<and> q = length (file_content blocks s' (cs @ new))"
    then show ?thesis using x room(2) by (intro exI [of _ new] exI [of _ s'] exI [of _ q]) simp
  qed
qed

lemma written_content:
  assumes x: "extent_written dev blocks dinv d cs new D p data (p + length data) s s'"
  shows "slice p (length data) (file_content blocks s' (cs @ new)) = data"
proof -
  let ?C = "file_content blocks s cs
    @ replicate (length new * (sectors_per_cluster (bpb s) * bytes_per_sector (bpb s))) 0"
  have c: "file_content blocks s' (cs @ new) = patch p data ?C" 
    and len: "p + length data \<le> length (file_content blocks s' (cs @ new))"
    using extent_writtenD [OF x] by simp_all
  show ?thesis
  proof (cases "data = []")
    case False
    then have "p \<le> length ?C" using len unfolding c by (simp add: patch_def)
    then show ?thesis unfolding c by (simp add: slice_def patch_def)
  qed (simp add: slice_def)
qed

lemma write_read:
  assumes w: "writable dev blocks dinv s h cs dc i" and n: "fh_pointer h + length data \<le> 2 ^ 32 - 1"
    and room: "fh_pointer h + length data \<le> room blocks s cs" and buf: "length buf = length data"
  shows "returns (bind (write_file dev data) (\<lambda>_. bind (move_pointer (fh_pointer h)) (\<lambda>_. read_file dev buf)) (Some s, h))
    (\<lambda>r _. r = (length data, data))"
proof -
  let ?p = "fh_pointer h" and ?n = "length data"
  obtain new s' where x: "extent_written dev blocks dinv (metadata_start_cluster (fh_metadata h)) cs new {dc} ?p data (?p + ?n) s s'"
    and wr: "write_file dev data (Some s, h) = Some (Ok (), (Some s', moved_to (?p + ?n) h))"
    and w': "writable dev blocks dinv s' (moved_to (?p + ?n) h) (cs @ new) dc i"
    using write_file_cases [OF w n] room by auto
  let ?h = "(moved_to (?p + ?n) h)\<lparr>fh_pointer := ?p\<rparr>"
  have size: "handle_size (moved_to (?p + ?n) h) = max (handle_size h) (?p + ?n)" using n by (intro moved_to_size) simp
  have "\<not> fh_closed h" using w by (simp add: writable_def handle_on_def)
  then have mv: "move_pointer ?p (Some s', moved_to (?p + ?n) h) = Some (Ok (), (Some s', ?h))"
    using size by (simp add: move_pointer_def handle_of_def min_def)
  have "handle_on dev blocks dinv s' ?h (cs @ new)" using w' size by (simp add: writable_def handle_on_def)
  from read_file_run [OF this, of buf]
  have "\<exists>st. read_file dev buf (Some s', ?h) = Some (Ok (?n, patch 0 (slice ?p ?n (file_content blocks s' (cs @ new))) buf), st)"
    using size buf by (simp add: min_absorb1)
  moreover have "patch 0 data buf = data" using buf by (simp add: patch_def)
  ultimately show ?thesis using wr mv written_content [OF x] by (auto simp: bind_def)
qed

end


lemma example_file_max: "max_cluster example_file_fs = 3"
  by (simp add: example_file_fs_def)

lemma example_free_one: "free_clusters memory_blocks example_file_fs = {4}"
  using example_file_fat by (auto simp: free_clusters_def fat_entry_defs example_file_max split: if_splits)

lemma example_writable:
  assumes "p \<le> unat sz" and "unat sz \<le> 512"
  shows "writable memory_device memory_blocks memory_inv example_file_fs (example_handle p sz) [3] 2 0"
proof -
  let ?s = example_file_fs
  have "count_ok memory_blocks ?s"
    unfolding count_ok_def example_free_one by (simp add: example_file_fs_def example_info_def)
  moreover have "handle_on memory_device memory_blocks memory_inv ?s (example_handle p sz) [3]"
    by (rule example_handle_on [OF assms])
  moreover have "metadata_start_cluster (fh_metadata (example_handle p sz)) = 3" by (rule example_handle_start)
  moreover have "entry_in ?s (fh_metadata (example_handle p sz)) 2 0"
    by (simp add: entry_in_def example_file_fs_def example_handle_def metadata_new_def short_arrays_ok_def
        DIRECTORY_ENTRY_SIZE_def example_bpb_def cluster_sector_def)
  ultimately show ?thesis
    using example_file_fat [of 2] example_file_fat [of 3]
    by (simp add: writable_def file_ok_def chain_ends_def handle_on_def fat_entry_defs)
qed


text \<open>
  C3. What is written is read back: after a write of \<open>data\<close> that fits on the disk, moving the pointer
  back and reading as many bytes returns \<open>data\<close>.
\<close>

theorem write_read_roundtrip:
  assumes "reliable_device dev blocks dinv" and "writable dev blocks dinv s h cs dc i"
    and "fh_pointer h + length data \<le> 2 ^ 32 - 1" and "fh_pointer h + length data \<le> room blocks s cs"
    and "length buf = length data"
  shows "returns (bind (write_file dev data) (\<lambda>_. bind (move_pointer (fh_pointer h)) (\<lambda>_. read_file dev buf)) (Some s, h))
    (\<lambda>r _. r = (length data, data))"
  using reliable_device.write_read [OF assms] .

theorem write_read_roundtrip_witness:
  "returns (bind (write_file memory_device [1, 2, 3]) (\<lambda>_. bind (move_pointer 4) (\<lambda>_. read_file memory_device [0, 0, 0]))
     (Some example_file_fs, example_handle 4 5)) (\<lambda>r _. r = (3, [1, 2, 3]))"
proof -
  have room: "room memory_blocks example_file_fs [3] = 1024"
    by (simp add: room_def example_free_one) (simp add: example_file_fs_def example_bpb_def)
  show ?thesis
    using write_read_roundtrip [OF memory_reliable example_writable [of 4 5], of "[1, 2, 3]" "[0, 0, 0]"] room
    by (simp add: numeral_3_eq_3)
qed

section \<open>Open files\<close>

lemma sorted_file_fields [simp]:
  "metadata_start_cluster (sorted_file m) = metadata_start_cluster m"
  "is_directory_entry (sorted_file m) = is_directory_entry m"
  by (simp_all add: sorted_file_def metadata_start_cluster_def is_directory_entry_def)

lemma packed_directory_occupied:
  "packed_directory dev blocks dinv (s\<lparr>occupied_file := A\<rparr>) d cs F \<longleftrightarrow> packed_directory dev blocks dinv s d cs F"
  by (simp add: packed_directory_def fs_wf_def data_chain_def)

context reliable_device
begin

lemma get_root_file:
  assumes "packed_directory dev blocks dinv s (unat (bpb_root_cluster (bpb s))) cs F"
    and "find (is_named name) (files_of blocks s cs) = Some m"
  shows "get_file_metadata dev [name] (s\<lparr>occupied_file := A\<rparr>) = Some (Ok (Some (sorted_file m)), s\<lparr>occupied_file := A\<rparr>)"
  using lookup_packed [OF iffD2 [OF packed_directory_occupied assms(1)], of name A] assms(2)
  by (simp add: get_file_metadata_def bind_def files_of_def)

lemma open_file_run:
  assumes d: "packed_directory dev blocks dinv s (unat (bpb_root_cluster (bpb s))) cs F"
    and m: "find (is_named name) (files_of blocks s cs) = Some m" "\<not> is_directory_entry m"
    and free: "metadata_start_cluster m \<notin> occupied_file s"
  defines "s1 \<equiv> s\<lparr>occupied_file := insert (metadata_start_cluster m) (occupied_file s)\<rparr>"
    and "h \<equiv> \<lparr>fh_inner = True, fh_metadata = sorted_file m, fh_pointer = 0, fh_closed = False\<rparr>"
  shows "open_file dev [name] s = Some (Ok h, s1)"
    and "open_file dev [name] s1 = Some (Err FileOccupied, s1)"
    and "delete_file dev [name] s1 = Some (Err FileOccupied, s1)"
    and "close_handle (Some s1, h) = Some (Ok (), (Some s, h\<lparr>fh_inner := False, fh_closed := True\<rparr>))"
proof -
  have "get_file_metadata dev [name] s = Some (Ok (Some (sorted_file m)), s)"
    using get_root_file [OF d m(1), of "occupied_file s"] by simp
  then show "open_file dev [name] s = Some (Ok h, s1)"
    using m(2) free by (simp add: open_file_def bind_def s1_def h_def)
  have "get_file_metadata dev [name] s1 = Some (Ok (Some (sorted_file m)), s1)"
    unfolding s1_def by (rule get_root_file [OF d m(1)])
  then show "open_file dev [name] s1 = Some (Err FileOccupied, s1)" "delete_file dev [name] s1 = Some (Err FileOccupied, s1)"
    using m(2) by (simp_all add: open_file_def delete_file_def bind_def) (simp_all add: s1_def)
  have "insert (metadata_start_cluster m) (occupied_file s) - {metadata_start_cluster m} = occupied_file s" using free by blast
  then show "close_handle (Some s1, h) = Some (Ok (), (Some s, h\<lparr>fh_inner := False, fh_closed := True\<rparr>))"
    by (simp add: close_handle_def handle_of_def upgrade_def h_def s1_def)
qed

end

text \<open>
  C30. A file of the root directory is open at most once: while a handle from \<open>open_file\<close> is open, a
  second \<open>open_file\<close> and a \<open>delete_file\<close> of the file fail with \<open>FileOccupied\<close> and change nothing, and
  closing the handle gives back the state before the file was opened.
\<close>

theorem open_file_exclusive:
  assumes "reliable_device dev blocks dinv" and "packed_directory dev blocks dinv s (unat (bpb_root_cluster (bpb s))) cs F"
    and "find (is_named name) (files_of blocks s cs) = Some m" and "\<not> is_directory_entry m"
    and "metadata_start_cluster m \<notin> occupied_file s"
  shows "\<exists>h s1. open_file dev [name] s = Some (Ok h, s1)
    \<and> open_file dev [name] s1 = Some (Err FileOccupied, s1) \<and> delete_file dev [name] s1 = Some (Err FileOccupied, s1)
    \<and> close_handle (Some s1, h) = Some (Ok (), (Some s, h\<lparr>fh_inner := False, fh_closed := True\<rparr>))"
  using reliable_device.open_file_run [OF assms] by blast

lemma example_created:
  obtains s' cs F m where
    "create_file memory_device [[0x61]] (example_fs [0x0FFFFFF8, 0x0FFFFFF8, 0x0FFFFFF8] 2) = Some (Ok (), s')"
    "packed_directory memory_device memory_blocks memory_inv s' (unat (bpb_root_cluster (bpb s'))) cs F"
    "find (is_named [0x61]) (files_of memory_blocks s' cs) = Some m" "\<not> is_directory_entry m" "occupied_file s' = {}"
proof -
  let ?s = "example_fs [0x0FFFFFF8, 0x0FFFFFF8, 0x0FFFFFF8] 2"
  note root = example_root [of "[]" 2, simplified]
  have files: "files_of memory_blocks ?s [2] = []"
    using reliable_device.packed_directoryD(10) [OF memory_reliable root] by (simp add: packed_files_def)
  have "parent_cluster memory_device (path_parent [[0x61]]) ?s = Some (Ok 2, ?s)"
    by (simp add: parent_cluster_def path_parent_def is_root_def get_file_metadata_def)
  then have "returns (create_file memory_device [[0x61]] ?s) (\<lambda>_ s'. \<exists>c s1. c \<in> free_clusters memory_blocks ?s
      \<and> table_step memory_device memory_blocks memory_inv ((fat_of memory_blocks ?s)(c := FAT_ENTRY_EOC_START))
          (\<lambda>i. i\<lparr>fi_free_cluster_count := fi_free_cluster_count i - 1\<rparr>) ?s s1
      \<and> file_added memory_device memory_blocks memory_inv 2 [2] (metadata_new [0x61] c ATTR_ARCHIVE) s1 s')"
    using reliable_device.create_file_run [OF memory_reliable root example_count(2), of "[[0x61]]" "[0x61]"]
    by (simp add: files example_path_lookup create_refused_def example_count long_entries_def)
  then obtain s' c s1 where run: "create_file memory_device [[0x61]] ?s = Some (Ok (), s')"
    and c: "c \<in> free_clusters memory_blocks ?s"
    and st: "table_step memory_device memory_blocks memory_inv ((fat_of memory_blocks ?s)(c := FAT_ENTRY_EOC_START))
          (\<lambda>i. i\<lparr>fi_free_cluster_count := fi_free_cluster_count i - 1\<rparr>) ?s s1"
    and add: "file_added memory_device memory_blocks memory_inv 2 [2] (metadata_new [0x61] c ATTR_ARCHIVE) s1 s'"
    by (elim returnsE) auto
  have f1: "files_of memory_blocks s1 [2] = []" "bpb s1 = example_bpb" "occupied_file s1 = {}"
    using reliable_device.packed_table_step(2) [OF memory_reliable root c st] files table_stepD(2,4) [OF st]
    by simp_all (simp add: example_fs_def)
  obtain new F' p where "packed_directory memory_device memory_blocks memory_inv s' 2 ([2] @ new) F'"
    and "files_of memory_blocks s' ([2] @ new) = [p]" and p: "fm_short p = fm_short (metadata_new [0x61] c ATTR_ARCHIVE)"
    "fm_long p = fm_long (metadata_new [0x61] c ATTR_ARCHIVE)" and "bpb s' = example_bpb" "occupied_file s' = {}"
    using add f1 by (auto simp: file_added_def)
  moreover have "is_named [0x61] p" using is_named_new [OF example_path_lookup(2), of "[0x61]" p c ATTR_ARCHIVE] p
    by (simp add: example_path_lookup is_scalar_def)
  moreover have "\<not> is_directory_entry p" by (simp add: is_directory_entry_def p metadata_new_def attr_defs)
  ultimately show ?thesis using that [of s' "[2] @ new" F' p] run by simp
qed

theorem open_file_exclusive_witness:
  "\<exists>s h s1. create_file memory_device [[0x61]] (example_fs [0x0FFFFFF8, 0x0FFFFFF8, 0x0FFFFFF8] 2) = Some (Ok (), s)
    \<and> open_file memory_device [[0x61]] s = Some (Ok h, s1) \<and> open_file memory_device [[0x61]] s1 = Some (Err FileOccupied, s1)"
proof -
  obtain s cs F m where *: "create_file memory_device [[0x61]] (example_fs [0x0FFFFFF8, 0x0FFFFFF8, 0x0FFFFFF8] 2) = Some (Ok (), s)"
    "packed_directory memory_device memory_blocks memory_inv s (unat (bpb_root_cluster (bpb s))) cs F"
    "find (is_named [0x61]) (files_of memory_blocks s cs) = Some m" "\<not> is_directory_entry m" "occupied_file s = {}"
    by (rule example_created)
  then show ?thesis using open_file_exclusive [OF memory_reliable *(2-4)] by auto
qed



end
