(* ===== verification/Async_Semaphore.thy ===== *)
theory Async_Semaphore
  imports Prelude "HOL-Library.Multiset"
begin

text \<open>
  The asynchronous semaphore, \<open>library/async_locks/src/semaphore.rs\<close>: \<open>try_acquire\<close>, \<open>release\<close>, \<open>queue\<close>,
  and the futures and guards that use them.

  A \<open>SemaphoreWaker\<close> is shared by its future and the queue and is known by the number of its future.
  The step function \<open>sem_exec\<close> interleaves the calls of any number of tasks: its steps are the atomic
  operations on \<open>permits\<close> and on a waker's status, and the sections under the queue's lock.  In
  \<open>release\<close> the status of a waker is loaded and exchanged in two operations; between them the future
  can be dropped, and \<open>raced\<close> names the waker whose exchange fails for that reason.

  The lemmas show that no permit is lost or made, that permits are granted in the order of the queue
  and to nobody else while somebody waits, and that nobody is left waiting for permits that are there.
\<close>

section \<open>The semaphore\<close>

datatype WakerStatus = STATUS_WAITING | STATUS_ACQUIRED | STATUS_GIVEUP

record SemaphoreWaker =
  waker_status :: WakerStatus
  waker_permits :: nat

text \<open>\<open>sem_reserve\<close> and \<open>sem_queue\<close> are the pair under the lock; \<open>sem_woken\<close> records the calls of \<open>wake_by_ref\<close>.\<close>

record Semaphore =
  sem_permits :: nat
  sem_reserve :: nat
  sem_queue :: "nat list"
  sem_wakers :: "nat \<Rightarrow> SemaphoreWaker"
  sem_woken :: "nat list"

definition semaphore_new :: "nat \<Rightarrow> Semaphore" where
  "semaphore_new permits =
     \<lparr>sem_permits = permits, sem_reserve = 0, sem_queue = [],
      sem_wakers = (\<lambda>_. \<lparr>waker_status = STATUS_GIVEUP, waker_permits = 0\<rparr>), sem_woken = []\<rparr>"

text \<open>
  The loop of \<open>try_acquire\<close>, given what the load of each round returns and what the exchange of the
  round finds; it returns whether the permits were taken and the value stored.
\<close>

fun try_acquire_loop :: "nat \<Rightarrow> (nat \<times> nat) list \<Rightarrow> (bool \<times> nat) option" where
  "try_acquire_loop n [] = None"
| "try_acquire_loop n ((permits, current) # rounds) =
    (if permits < n then Some (False, current)
     else if current = permits then Some (True, wsub64 permits n)
     else try_acquire_loop n rounds)"

text \<open>A round with no other task in between.\<close>

definition try_acquire :: "nat \<Rightarrow> Semaphore \<Rightarrow> bool \<times> Semaphore" where
  "try_acquire n s =
    (if sem_permits s < n then (False, s)
     else (True, s\<lparr>sem_permits := wsub64 (sem_permits s) n\<rparr>))"

fun release_loop ::
  "nat option \<Rightarrow> nat \<Rightarrow> (nat \<Rightarrow> SemaphoreWaker) \<Rightarrow> nat list \<Rightarrow> nat list
    \<Rightarrow> nat \<times> (nat \<Rightarrow> SemaphoreWaker) \<times> nat list \<times> nat list" where
  "release_loop raced reserve wakers woken [] = (reserve, wakers, woken, [])"
| "release_loop raced reserve wakers woken (w # queue) =
    (if waker_status (wakers w) = STATUS_GIVEUP then release_loop raced reserve wakers woken queue
     else if reserve < waker_permits (wakers w) then (reserve, wakers, woken, w # queue)
     else if waker_status (wakers w) = STATUS_WAITING \<and> raced \<noteq> Some w then
       release_loop raced (wsub64 reserve (waker_permits (wakers w)))
         (wakers(w := (wakers w)\<lparr>waker_status := STATUS_ACQUIRED\<rparr>)) (woken @ [w]) queue
     else (reserve, wakers, woken, w # queue))"

definition release :: "nat option \<Rightarrow> nat \<Rightarrow> Semaphore \<Rightarrow> Semaphore" where
  "release raced n s =
    (case release_loop raced (wadd64 (sem_reserve s) n) (sem_wakers s) (sem_woken s) (sem_queue s) of
       (reserve, wakers, woken, queue) \<Rightarrow>
         let s = s\<lparr>sem_reserve := reserve, sem_wakers := wakers, sem_woken := woken, sem_queue := queue\<rparr>
         in if queue = [] then s\<lparr>sem_permits := wadd64 (sem_permits s) reserve, sem_reserve := 0\<rparr>
            else s)"

definition queue_waker :: "nat \<Rightarrow> SemaphoreWaker \<Rightarrow> Semaphore \<Rightarrow> Semaphore" where
  "queue_waker w waker s =
     s\<lparr>sem_wakers := (sem_wakers s)(w := waker),
       sem_reserve := wadd64 (sem_reserve s) (sem_permits s), sem_permits := 0,
       sem_queue := sem_queue s @ [w]\<rparr>"

text \<open>The exchange in the drop of a future.\<close>

definition give_up :: "nat \<Rightarrow> Semaphore \<Rightarrow> Semaphore" where
  "give_up w s =
     s\<lparr>sem_wakers := (sem_wakers s)(w := (sem_wakers s w)\<lparr>waker_status := STATUS_GIVEUP\<rparr>)\<rparr>"

section \<open>Tasks\<close>

text \<open>
  A future has not been queued (\<open>Fresh\<close>), is in the middle of its first poll, after \<open>try_acquire\<close> has
  failed (\<open>Failed\<close>), has a waker (\<open>Queued\<close>), or does not exist (\<open>Dropped\<close>).  \<open>fut_done\<close> records that a
  poll has returned \<open>Ready\<close>.
\<close>

datatype future_phase = Fresh | Failed | Queued | Dropped

record SemaphoreAcquireFuture =
  fut_permits :: nat
  fut_phase :: future_phase
  fut_done :: bool

text \<open>
  The permits of the guards, and the arguments of the calls of \<open>release\<close> that tasks are about to make.
  \<open>sw_total\<close> is no field of the program: it counts the permits there should be.
\<close>

record sem_world =
  sw_sem :: Semaphore
  sw_futures :: "nat \<Rightarrow> SemaphoreAcquireFuture"
  sw_next :: nat
  sw_guards :: "nat multiset"
  sw_pending :: "nat multiset"
  sw_total :: nat

definition sem_world_new :: "nat \<Rightarrow> sem_world" where
  "sem_world_new permits =
     \<lparr>sw_sem = semaphore_new permits,
      sw_futures = (\<lambda>_. \<lparr>fut_permits = 0, fut_phase = Dropped, fut_done = False\<rparr>),
      sw_next = 0, sw_guards = {#}, sw_pending = {#}, sw_total = permits\<rparr>"

abbreviation future_of :: "sem_world \<Rightarrow> nat \<Rightarrow> SemaphoreAcquireFuture" where
  "future_of x f \<equiv> sw_futures x f"

abbreviation status_of :: "sem_world \<Rightarrow> nat \<Rightarrow> WakerStatus" where
  "status_of x f \<equiv> waker_status (sem_wakers (sw_sem x) f)"

definition acquire :: "nat \<Rightarrow> sem_world \<Rightarrow> sem_world" where
  "acquire n x =
     x\<lparr>sw_futures := (sw_futures x)(sw_next x := \<lparr>fut_permits = n, fut_phase = Fresh, fut_done = False\<rparr>),
       sw_next := Suc (sw_next x)\<rparr>"

definition acquire_now :: "nat \<Rightarrow> sem_world \<Rightarrow> sem_world" where
  "acquire_now n x =
    (case try_acquire n (sw_sem x) of
       (True, s) \<Rightarrow> x\<lparr>sw_sem := s, sw_guards := add_mset n (sw_guards x)\<rparr>
     | (False, s) \<Rightarrow> x\<lparr>sw_sem := s\<rparr>)"

text \<open>A poll, up to the point where a first poll that fails takes the lock of the queue.\<close>

definition poll_future :: "nat \<Rightarrow> sem_world \<Rightarrow> sem_world" where
  "poll_future f x =
    (let t = future_of x f in
     case fut_phase t of
       Queued \<Rightarrow>
         if status_of x f = STATUS_ACQUIRED then
           x\<lparr>sw_guards := add_mset (fut_permits t) (sw_guards x),
             sw_futures := (sw_futures x)(f := t\<lparr>fut_permits := 0, fut_done := True\<rparr>)\<rparr>
         else x
     | Fresh \<Rightarrow>
         (case try_acquire (fut_permits t) (sw_sem x) of
            (True, s) \<Rightarrow>
              x\<lparr>sw_sem := s, sw_guards := add_mset (fut_permits t) (sw_guards x),
                sw_futures := (sw_futures x)(f := t\<lparr>fut_done := True\<rparr>)\<rparr>
          | (False, s) \<Rightarrow> x\<lparr>sw_sem := s, sw_futures := (sw_futures x)(f := t\<lparr>fut_phase := Failed\<rparr>)\<rparr>)
     | _ \<Rightarrow> x)"

text \<open>The rest of a first poll that fails: it queues the waker and is about to call \<open>release(0)\<close>.\<close>

definition poll_queue :: "nat \<Rightarrow> sem_world \<Rightarrow> sem_world" where
  "poll_queue f x =
    (let t = future_of x f in
     if fut_phase t = Failed then
       x\<lparr>sw_sem := queue_waker f \<lparr>waker_status = STATUS_WAITING, waker_permits = fut_permits t\<rparr> (sw_sem x),
         sw_futures := (sw_futures x)(f := t\<lparr>fut_phase := Queued\<rparr>),
         sw_pending := add_mset 0 (sw_pending x)\<rparr>
     else x)"

text \<open>The drop of a future, up to the call of \<open>release\<close>.\<close>

definition drop_future :: "nat \<Rightarrow> sem_world \<Rightarrow> sem_world" where
  "drop_future f x =
    (let t = future_of x f in
     case fut_phase t of
       Queued \<Rightarrow>
         x\<lparr>sw_sem := give_up f (sw_sem x),
           sw_futures := (sw_futures x)(f := t\<lparr>fut_phase := Dropped\<rparr>),
           sw_pending := add_mset (if status_of x f = STATUS_ACQUIRED then fut_permits t else 0) (sw_pending x)\<rparr>
     | Fresh \<Rightarrow> x\<lparr>sw_futures := (sw_futures x)(f := t\<lparr>fut_phase := Dropped\<rparr>)\<rparr>
     | _ \<Rightarrow> x)"

text \<open>A pending call of \<open>release\<close> takes the lock; during the call the future \<open>raced\<close> may be dropped.\<close>

definition run_release :: "nat option \<Rightarrow> nat \<Rightarrow> sem_world \<Rightarrow> sem_world" where
  "run_release raced n x =
    (if n \<in># sw_pending x then
       let x' = x\<lparr>sw_sem := release raced n (sw_sem x), sw_pending := sw_pending x - {#n#}\<rparr>
       in case raced of None \<Rightarrow> x' | Some f \<Rightarrow> drop_future f x'
     else x)"

definition drop_guard :: "nat \<Rightarrow> sem_world \<Rightarrow> sem_world" where
  "drop_guard n x =
    (if n \<in># sw_guards x
     then x\<lparr>sw_guards := sw_guards x - {#n#}, sw_pending := add_mset n (sw_pending x)\<rparr> else x)"

definition release_part :: "nat \<Rightarrow> nat \<Rightarrow> sem_world \<Rightarrow> sem_world" where
  "release_part k n x =
    (if n \<in># sw_guards x \<and> k \<le> n
     then x\<lparr>sw_guards := add_mset (n - k) (sw_guards x - {#n#}), sw_pending := add_mset k (sw_pending x)\<rparr> else x)"

text \<open>A direct call of \<open>release\<close>, which adds permits, and \<open>mem::forget\<close> of a guard, which removes them.\<close>

definition release_call :: "nat \<Rightarrow> sem_world \<Rightarrow> sem_world" where
  "release_call n x = x\<lparr>sw_pending := add_mset n (sw_pending x), sw_total := sw_total x + n\<rparr>"

definition forget_guard :: "nat \<Rightarrow> sem_world \<Rightarrow> sem_world" where
  "forget_guard n x =
    (if n \<in># sw_guards x
     then x\<lparr>sw_guards := sw_guards x - {#n#}, sw_total := sw_total x - n\<rparr> else x)"

datatype sem_action =
  Acquire nat | Try_Acquire nat | Poll nat | Poll_Queue nat | Drop_Future nat
  | Run_Release "nat option" nat | Drop_Guard nat | Release_Part nat nat
  | Release_Call nat | Forget_Guard nat

fun sem_exec :: "sem_action \<Rightarrow> sem_world \<Rightarrow> sem_world" where
  "sem_exec (Acquire n) = acquire n"
| "sem_exec (Try_Acquire n) = acquire_now n"
| "sem_exec (Poll f) = poll_future f"
| "sem_exec (Poll_Queue f) = poll_queue f"
| "sem_exec (Drop_Future f) = drop_future f"
| "sem_exec (Run_Release raced n) = run_release raced n"
| "sem_exec (Drop_Guard n) = drop_guard n"
| "sem_exec (Release_Part k n) = release_part k n"
| "sem_exec (Release_Call n) = release_call n"
| "sem_exec (Forget_Guard n) = forget_guard n"

section \<open>One release\<close>

definition mark_acquired :: "nat list \<Rightarrow> (nat \<Rightarrow> SemaphoreWaker) \<Rightarrow> nat \<Rightarrow> SemaphoreWaker" where
  "mark_acquired gs wakers w =
     (if w \<in> set gs then (wakers w)\<lparr>waker_status := STATUS_ACQUIRED\<rparr> else wakers w)"

text \<open>The permits the wakers \<open>ws\<close> ask for.\<close>

definition needs :: "(nat \<Rightarrow> SemaphoreWaker) \<Rightarrow> nat list \<Rightarrow> nat" where
  "needs wakers ws = sum_list (map (\<lambda>w. waker_permits (wakers w)) ws)"

definition is_waiting :: "(nat \<Rightarrow> SemaphoreWaker) \<Rightarrow> nat \<Rightarrow> bool" where
  "is_waiting wakers w \<longleftrightarrow> waker_status (wakers w) = STATUS_WAITING"

text \<open>
  What a release does: it takes a part of the queue from its front, grants the permits to those of it
  that wait, and stops at a waiting one that asks for more than is left or has just been dropped.
\<close>

definition granted ::
  "nat option \<Rightarrow> nat \<Rightarrow> (nat \<Rightarrow> SemaphoreWaker) \<Rightarrow> nat list \<Rightarrow> nat list \<Rightarrow> nat list \<Rightarrow> bool" where
  "granted raced r wakers queue gs rest \<longleftrightarrow>
    (\<exists>front. queue = front @ rest \<and> gs = filter (is_waiting wakers) front) \<and>
    needs wakers gs \<le> r \<and> (\<forall>w \<in> set gs. raced \<noteq> Some w) \<and>
    (rest = [] \<or> is_waiting wakers (hd rest) \<and>
       (r - needs wakers gs < waker_permits (wakers (hd rest)) \<or> raced = Some (hd rest)))"

lemma needs_Cons: "needs wakers (w # ws) = waker_permits (wakers w) + needs wakers ws"
  by (simp add: needs_def)

lemma mark_acquired_Cons:
  "mark_acquired gs (wakers(w := (wakers w)\<lparr>waker_status := STATUS_ACQUIRED\<rparr>)) = mark_acquired (w # gs) wakers"
  by (auto simp: mark_acquired_def fun_eq_iff)

lemma granted_cong:
  assumes "\<And>w. w \<in> set queue \<Longrightarrow> wakers' w = wakers w" and "granted raced r wakers' queue gs rest"
  shows "granted raced r wakers queue gs rest" and "needs wakers' gs = needs wakers gs"
proof -
  obtain front where q: "queue = front @ rest" "gs = filter (is_waiting wakers') front"
    using assms(2) by (auto simp: granted_def)
  have gs: "gs = filter (is_waiting wakers) front" "set gs \<subseteq> set queue"
    using q assms(1) by (auto simp: is_waiting_def intro!: filter_cong)
  show needs: "needs wakers' gs = needs wakers gs"
    using gs(2) assms(1) unfolding needs_def by (intro arg_cong [where f = sum_list] map_cong) auto
  have "rest \<noteq> [] \<Longrightarrow> wakers' (hd rest) = wakers (hd rest)" using assms(1) q(1) by simp
  then show "granted raced r wakers queue gs rest"
    using assms(2) q(1) gs(1) needs unfolding granted_def by (metis is_waiting_def)
qed

lemma release_loop_granted:
  assumes "distinct queue" and "\<forall>w \<in> set queue. waker_status (wakers w) \<noteq> STATUS_ACQUIRED"
  shows "\<exists>gs rest. granted raced r wakers queue gs rest
    \<and> release_loop raced r wakers woken queue
        = (r - needs wakers gs, mark_acquired gs wakers, woken @ gs, rest)"
  using assms
proof (induction queue arbitrary: r wakers woken)
  case Nil
  then show ?case by (intro exI [of _ "[]"]) (simp add: granted_def needs_def mark_acquired_def fun_eq_iff)
next
  case (Cons w queue)
  have tail: "distinct queue" "\<forall>w \<in> set queue. waker_status (wakers w) \<noteq> STATUS_ACQUIRED" "w \<notin> set queue"
    using Cons.prems by auto
  have w: "waker_status (wakers w) = STATUS_GIVEUP \<or> is_waiting wakers w"
    using Cons.prems(2) by (cases "waker_status (wakers w)") (auto simp: is_waiting_def)
  consider (gone) "waker_status (wakers w) = STATUS_GIVEUP"
    | (stop) "is_waiting wakers w" "r < waker_permits (wakers w) \<or> raced = Some w"
    | (grant) "is_waiting wakers w" "waker_permits (wakers w) \<le> r" "raced \<noteq> Some w"
    using w by fastforce
  then show ?case
  proof cases
    case gone
    obtain gs rest where g: "granted raced r wakers queue gs rest" and run: "release_loop raced r wakers woken queue
        = (r - needs wakers gs, mark_acquired gs wakers, woken @ gs, rest)"
      using Cons.IH [OF tail(1,2)] by blast
    from g obtain front where "queue = front @ rest" "gs = filter (is_waiting wakers) front" by (auto simp: granted_def)
    then have "\<exists>front. w # queue = front @ rest \<and> gs = filter (is_waiting wakers) front"
      using gone by (intro exI [of _ "w # front"]) (simp add: is_waiting_def)
    then have "granted raced r wakers (w # queue) gs rest" using g unfolding granted_def by blast
    then show ?thesis using gone run by auto
  next
    case stop
    then show ?thesis
      by (intro exI [of _ "[]"] exI [of _ "w # queue"])
         (auto simp: granted_def needs_def mark_acquired_def fun_eq_iff is_waiting_def)
  next
    case grant
    let ?wakers = "wakers(w := (wakers w)\<lparr>waker_status := STATUS_ACQUIRED\<rparr>)"
    obtain gs rest where g: "granted raced (r - waker_permits (wakers w)) ?wakers queue gs rest"
      and run: "release_loop raced (r - waker_permits (wakers w)) ?wakers (woken @ [w]) queue
        = (r - waker_permits (wakers w) - needs ?wakers gs, mark_acquired gs ?wakers, (woken @ [w]) @ gs, rest)"
    proof -
      have "\<forall>v \<in> set queue. waker_status (?wakers v) \<noteq> STATUS_ACQUIRED" using tail by auto
      then show ?thesis using Cons.IH [OF tail(1), of ?wakers "r - waker_permits (wakers w)" "woken @ [w]"] that by blast
    qed
    have g': "granted raced (r - waker_permits (wakers w)) wakers queue gs rest" "needs ?wakers gs = needs wakers gs"
      by (rule granted_cong [OF _ g]; use tail(3) in auto)+
    then obtain front where "queue = front @ rest" "gs = filter (is_waiting wakers) front" by (auto simp: granted_def)
    then have front: "\<exists>front. w # queue = front @ rest \<and> w # gs = filter (is_waiting wakers) front"
      using grant(1) by (intro exI [of _ "w # front"]) simp
    have "granted raced r wakers (w # queue) (w # gs) rest"
      unfolding granted_def needs_Cons
      using front g'(1) grant by (intro conjI) (auto simp: granted_def)
    then show ?thesis
      using grant run g'(2)
      by (intro exI [of _ "w # gs"] exI [of _ rest]) (simp add: is_waiting_def wsub64_le needs_Cons mark_acquired_Cons)
  qed
qed

lemma release_granted:
  assumes "distinct (sem_queue s)" and "\<forall>w \<in> set (sem_queue s). waker_status (sem_wakers s w) \<noteq> STATUS_ACQUIRED"
    and "sem_permits s + sem_reserve s + n < 2 ^ 64"
  obtains gs rest where "granted raced (sem_reserve s + n) (sem_wakers s) (sem_queue s) gs rest"
    and "release raced n s = s\<lparr>
        sem_permits := (if rest = [] then sem_permits s + (sem_reserve s + n - needs (sem_wakers s) gs) else sem_permits s),
        sem_reserve := (if rest = [] then 0 else sem_reserve s + n - needs (sem_wakers s) gs),
        sem_wakers := mark_acquired gs (sem_wakers s), sem_woken := sem_woken s @ gs, sem_queue := rest\<rparr>"
proof -
  have add: "wadd64 (sem_reserve s) n = sem_reserve s + n" using assms(3) by (simp add: wadd64_small)
  obtain gs rest where g: "granted raced (sem_reserve s + n) (sem_wakers s) (sem_queue s) gs rest"
    and run: "release_loop raced (sem_reserve s + n) (sem_wakers s) (sem_woken s) (sem_queue s)
        = (sem_reserve s + n - needs (sem_wakers s) gs, mark_acquired gs (sem_wakers s), sem_woken s @ gs, rest)"
    using release_loop_granted [OF assms(1,2)] by blast
  show ?thesis
    by (rule that [OF g]) (use assms(3) in \<open>simp add: release_def add run Let_def wadd64_small\<close>)
qed

section \<open>The invariant\<close>

text \<open>The permits granted to futures that have not been polled since.\<close>

definition claim_of :: "sem_world \<Rightarrow> nat \<Rightarrow> nat" where
  "claim_of x f =
    (if fut_phase (future_of x f) = Queued \<and> status_of x f = STATUS_ACQUIRED then fut_permits (future_of x f) else 0)"

definition unclaimed :: "sem_world \<Rightarrow> nat" where
  "unclaimed x = (\<Sum>f < sw_next x. claim_of x f)"

text \<open>Every permit is available, reserved, granted, held or about to be given back.\<close>

definition conserved :: "sem_world \<Rightarrow> bool" where
  "conserved x \<longleftrightarrow> sw_total x < 2 ^ 64 \<and>
     sem_permits (sw_sem x) + sem_reserve (sw_sem x) + unclaimed x + \<Sum>\<^sub># (sw_pending x) + \<Sum>\<^sub># (sw_guards x) = sw_total x"

text \<open>A future that is queued waits in the queue or has its permits; the rest of the queue has given up.\<close>

definition future_ok :: "sem_world \<Rightarrow> nat \<Rightarrow> bool" where
  "future_ok x f \<longleftrightarrow>
     (fut_phase (future_of x f) \<noteq> Dropped \<longrightarrow> f < sw_next x) \<and>
     (f \<in> set (sem_queue (sw_sem x)) \<longrightarrow> f < sw_next x \<and>
        (fut_phase (future_of x f) = Queued \<and> status_of x f = STATUS_WAITING
         \<or> fut_phase (future_of x f) = Dropped \<and> status_of x f = STATUS_GIVEUP)) \<and>
     (fut_phase (future_of x f) = Queued \<longrightarrow>
        (if f \<in> set (sem_queue (sw_sem x)) then waker_permits (sem_wakers (sw_sem x) f) = fut_permits (future_of x f)
         else status_of x f = STATUS_ACQUIRED))"

definition queue_ok :: "sem_world \<Rightarrow> bool" where
  "queue_ok x \<longleftrightarrow> distinct (sem_queue (sw_sem x)) \<and>
     (if sem_queue (sw_sem x) = [] then sem_reserve (sw_sem x) = 0 else sem_permits (sw_sem x) = 0)"

text \<open>If no release is under way, the first that waits asks for more than there is.\<close>

definition not_stalled :: "sem_world \<Rightarrow> bool" where
  "not_stalled x \<longleftrightarrow> sw_pending x = {#} \<longrightarrow>
    (\<forall>w ws. filter (is_waiting (sem_wakers (sw_sem x))) (sem_queue (sw_sem x)) = w # ws \<longrightarrow>
       sem_reserve (sw_sem x) < waker_permits (sem_wakers (sw_sem x) w))"

definition sem_inv :: "sem_world \<Rightarrow> bool" where
  "sem_inv x \<longleftrightarrow> conserved x \<and> (\<forall>f. future_ok x f) \<and> queue_ok x \<and> not_stalled x"

lemma sem_invD:
  assumes "sem_inv x"
  shows "conserved x" and "future_ok x f" and "queue_ok x" and "not_stalled x"
  using assms by (simp_all add: sem_inv_def)

lemma unclaimed_cong:
  "sw_next y = sw_next x \<Longrightarrow> (\<And>f. f < sw_next x \<Longrightarrow> claim_of y f = claim_of x f) \<Longrightarrow> unclaimed y = unclaimed x"
  by (simp add: unclaimed_def)

lemma unclaimed_at:
  assumes "f < sw_next x" and "sw_next y = sw_next x" and "\<And>g. g < sw_next x \<Longrightarrow> g \<noteq> f \<Longrightarrow> claim_of y g = claim_of x g"
  shows "unclaimed y + claim_of x f = unclaimed x + claim_of y f"
proof -
  have "unclaimed z = claim_of z f + (\<Sum>g \<in> {..<sw_next x} - {f}. claim_of z g)" if "sw_next z = sw_next x" for z
    unfolding unclaimed_def that using assms(1) by (intro sum.remove) auto
  moreover have "(\<Sum>g \<in> {..<sw_next x} - {f}. claim_of y g) = (\<Sum>g \<in> {..<sw_next x} - {f}. claim_of x g)"
    using assms(3) by (intro sum.cong) auto
  ultimately show ?thesis using assms(2) by simp
qed

lemma sem_inv_new:
  assumes "n < 2 ^ 64"
  shows "sem_inv (sem_world_new n)"
  using assms by (simp add: sem_inv_def conserved_def future_ok_def queue_ok_def not_stalled_def sem_world_new_def
      semaphore_new_def unclaimed_def)

lemma sem_inv_acquire:
  assumes "sem_inv x"
  shows "sem_inv (acquire n x)"
proof -
  note I = sem_invD [OF assms]
  have fresh: "fut_phase (future_of x (sw_next x)) = Dropped" "sw_next x \<notin> set (sem_queue (sw_sem x))"
    using I(2) [of "sw_next x"] by (auto simp: future_ok_def)
  have "claim_of (acquire n x) f = claim_of x f" if "f < sw_next x" for f
    using that by (simp add: claim_of_def acquire_def)
  then have "unclaimed (acquire n x) = unclaimed x"
    by (simp add: unclaimed_def acquire_def claim_of_def)
  then have "conserved (acquire n x)" using I(1) by (simp add: conserved_def acquire_def)
  moreover have "future_ok (acquire n x) f" for f
    using I(2) [of f] fresh by (auto simp: future_ok_def acquire_def)
  ultimately show ?thesis
    using I(3,4) by (simp add: sem_inv_def queue_ok_def not_stalled_def acquire_def)
qed

lemma sem_inv_acquire_now:
  assumes "sem_inv x"
  shows "sem_inv (acquire_now n x)"
proof (cases "sem_permits (sw_sem x) < n")
  case False
  note I = sem_invD [OF assms]
  let ?y = "acquire_now n x"
  have y: "?y = x\<lparr>sw_sem := (sw_sem x)\<lparr>sem_permits := sem_permits (sw_sem x) - n\<rparr>, sw_guards := add_mset n (sw_guards x)\<rparr>"
    using False by (simp add: acquire_now_def try_acquire_def wsub64_le)
  have "unclaimed ?y = unclaimed x" by (intro unclaimed_cong) (simp_all add: y claim_of_def)
  then have "conserved ?y" using I(1) False by (simp add: conserved_def y)
  moreover have "future_ok ?y f" for f using I(2) [of f] by (simp add: future_ok_def y)
  ultimately show ?thesis
    using I(3,4) by (auto simp: sem_inv_def queue_ok_def not_stalled_def y)
qed (use assms in \<open>simp add: acquire_now_def try_acquire_def\<close>)

lemma sem_inv_poll:
  assumes "sem_inv x"
  shows "sem_inv (poll_future f x)"
proof (cases "fut_phase (future_of x f)")
  case Queued
  note I = sem_invD [OF assms]
  let ?y = "poll_future f x" and ?t = "future_of x f"
  have f: "f < sw_next x" using I(2) [of f] Queued by (simp add: future_ok_def)
  show ?thesis
  proof (cases "status_of x f = STATUS_ACQUIRED")
    case True
    have y: "?y = x\<lparr>sw_guards := add_mset (fut_permits ?t) (sw_guards x),
        sw_futures := (sw_futures x)(f := ?t\<lparr>fut_permits := 0, fut_done := True\<rparr>)\<rparr>"
      using True Queued by (simp add: poll_future_def Let_def)
    have "unclaimed ?y + claim_of x f = unclaimed x + claim_of ?y f"
      using f by (intro unclaimed_at) (simp_all add: y claim_of_def)
    then have "unclaimed ?y + fut_permits ?t = unclaimed x" using True Queued by (simp add: claim_of_def y)
    then have "conserved ?y" using I(1) by (simp add: conserved_def y)
    moreover have "future_ok ?y g" for g using I(2) [of g] True Queued by (auto simp: future_ok_def y)
    ultimately show ?thesis using I(3,4) by (simp add: sem_inv_def queue_ok_def not_stalled_def y)
  qed (use Queued assms in \<open>simp add: poll_future_def Let_def\<close>)
next
  case Fresh
  note I = sem_invD [OF assms]
  let ?y = "poll_future f x" and ?t = "future_of x f"
  have f: "f < sw_next x" "f \<notin> set (sem_queue (sw_sem x))" using I(2) [of f] Fresh by (auto simp: future_ok_def)
  show ?thesis
  proof (cases "sem_permits (sw_sem x) < fut_permits ?t")
    case True
    have y: "?y = x\<lparr>sw_futures := (sw_futures x)(f := ?t\<lparr>fut_phase := Failed\<rparr>)\<rparr>"
      using True Fresh by (simp add: poll_future_def Let_def try_acquire_def)
    have "unclaimed ?y = unclaimed x" using Fresh by (intro unclaimed_cong) (simp_all add: y claim_of_def)
    then have "conserved ?y" using I(1) by (simp add: conserved_def y)
    moreover have "future_ok ?y g" for g using I(2) [of g] f by (auto simp: future_ok_def y)
    ultimately show ?thesis using I(3,4) by (simp add: sem_inv_def queue_ok_def not_stalled_def y)
  next
    case False
    have y: "?y = x\<lparr>sw_sem := (sw_sem x)\<lparr>sem_permits := sem_permits (sw_sem x) - fut_permits ?t\<rparr>,
        sw_guards := add_mset (fut_permits ?t) (sw_guards x), sw_futures := (sw_futures x)(f := ?t\<lparr>fut_done := True\<rparr>)\<rparr>"
      using False Fresh by (simp add: poll_future_def Let_def try_acquire_def wsub64_le)
    have "unclaimed ?y = unclaimed x" using Fresh by (intro unclaimed_cong) (simp_all add: y claim_of_def)
    then have "conserved ?y" using I(1) False by (simp add: conserved_def y)
    moreover have "future_ok ?y g" for g using I(2) [of g] Fresh by (auto simp: future_ok_def y)
    ultimately show ?thesis using I(3,4) by (auto simp: sem_inv_def queue_ok_def not_stalled_def y)
  qed
qed (use assms in \<open>simp_all add: poll_future_def Let_def\<close>)

lemma sem_inv_poll_queue:
  assumes "sem_inv x"
  shows "sem_inv (poll_queue f x)"
proof (cases "fut_phase (future_of x f) = Failed")
  case True
  note I = sem_invD [OF assms]
  let ?y = "poll_queue f x" and ?t = "future_of x f" and ?s = "sw_sem x"
  have f: "f < sw_next x" "f \<notin> set (sem_queue ?s)" using I(2) [of f] True by (auto simp: future_ok_def)
  have "sem_reserve ?s + sem_permits ?s < 2 ^ 64" using I(1) by (simp add: conserved_def)
  then have y: "?y = x\<lparr>sw_sem := ?s\<lparr>sem_wakers := (sem_wakers ?s)(f := \<lparr>waker_status = STATUS_WAITING, waker_permits = fut_permits ?t\<rparr>),
      sem_reserve := sem_reserve ?s + sem_permits ?s, sem_permits := 0, sem_queue := sem_queue ?s @ [f]\<rparr>,
      sw_futures := (sw_futures x)(f := ?t\<lparr>fut_phase := Queued\<rparr>), sw_pending := add_mset 0 (sw_pending x)\<rparr>"
    using True by (simp add: poll_queue_def Let_def queue_waker_def wadd64_small)
  have "unclaimed ?y = unclaimed x" using True by (intro unclaimed_cong) (auto simp: y claim_of_def)
  then have "conserved ?y" using I(1) by (simp add: conserved_def y)
  moreover have "future_ok ?y g" for g using I(2) [of g] f by (auto simp: future_ok_def y)
  ultimately show ?thesis using I(3) f by (simp add: sem_inv_def queue_ok_def not_stalled_def y)
qed (use assms in \<open>simp add: poll_queue_def Let_def\<close>)

lemma conserved_drop:
  assumes "conserved x" and "\<And>g. future_ok x g" and q: "fut_phase (future_of x f) = Queued"
  shows "conserved (drop_future f x)"
proof -
  let ?y = "drop_future f x"
  have f: "f < sw_next x" using assms(2) [of f] q by (simp add: future_ok_def)
  have "unclaimed ?y + claim_of x f = unclaimed x + claim_of ?y f"
    using f q by (intro unclaimed_at) (simp_all add: claim_of_def drop_future_def Let_def give_up_def)
  moreover have "claim_of ?y f = 0" "claim_of x f = (if status_of x f = STATUS_ACQUIRED then fut_permits (future_of x f) else 0)"
    using q by (simp_all add: claim_of_def drop_future_def Let_def give_up_def)
  ultimately show ?thesis using assms(1) q by (simp add: conserved_def drop_future_def Let_def give_up_def)
qed

lemma sem_inv_drop_queued:
  assumes "conserved x" and "\<And>g. future_ok x g" and "queue_ok x" and "fut_phase (future_of x f) = Queued"
  shows "sem_inv (drop_future f x)"
proof -
  have "future_ok (drop_future f x) g" for g
    using assms(2) [of g] assms(4) by (auto simp: future_ok_def drop_future_def Let_def give_up_def)
  then show ?thesis
    using conserved_drop [OF assms(1,2,4)] assms(3,4)
    by (simp add: sem_inv_def queue_ok_def not_stalled_def) (simp add: drop_future_def Let_def give_up_def)
qed

lemma sem_inv_drop_future:
  assumes "sem_inv x"
  shows "sem_inv (drop_future f x)"
proof (cases "fut_phase (future_of x f)")
  case Fresh
  note I = sem_invD [OF assms]
  have y: "drop_future f x = x\<lparr>sw_futures := (sw_futures x)(f := (future_of x f)\<lparr>fut_phase := Dropped\<rparr>)\<rparr>"
    using Fresh by (simp add: drop_future_def Let_def)
  have "unclaimed (drop_future f x) = unclaimed x" using Fresh by (intro unclaimed_cong) (simp_all add: y claim_of_def)
  then have "conserved (drop_future f x)" using I(1) by (simp add: conserved_def y)
  moreover have "future_ok (drop_future f x) g" for g using I(2) [of g] Fresh by (auto simp: future_ok_def y)
  ultimately show ?thesis using I(3,4) by (simp add: sem_inv_def queue_ok_def not_stalled_def y)
qed (use assms sem_inv_drop_queued [OF sem_invD(1-3) [OF assms]] in \<open>simp_all add: drop_future_def Let_def\<close>)

text \<open>A release of permits that are not accounted for in \<open>x\<close> but in \<open>sw_total\<close>.\<close>

lemma unclaimed_mark:
  assumes "distinct gs" and "\<And>g. g \<in> set gs \<Longrightarrow> g < sw_next x \<and> fut_phase (future_of x g) = Queued
      \<and> status_of x g = STATUS_WAITING \<and> waker_permits (sem_wakers (sw_sem x) g) = fut_permits (future_of x g)"
    and "sem_wakers (sw_sem y) = mark_acquired gs (sem_wakers (sw_sem x))" "sw_futures y = sw_futures x" "sw_next y = sw_next x"
  shows "unclaimed y = unclaimed x + needs (sem_wakers (sw_sem x)) gs"
proof -
  let ?p = "\<lambda>g. waker_permits (sem_wakers (sw_sem x) g)"
  have "claim_of y f = claim_of x f + (if f \<in> set gs then ?p f else 0)" for f
    using assms(2) [of f] assms(3,4) by (auto simp: claim_of_def mark_acquired_def)
  then have "unclaimed y = unclaimed x + (\<Sum>f \<in> {..<sw_next x}. if f \<in> set gs then ?p f else 0)"
    using assms(5) by (simp add: unclaimed_def sum.distrib)
  also have "(\<Sum>f \<in> {..<sw_next x}. if f \<in> set gs then ?p f else 0) = (\<Sum>f\<in>set gs. ?p f)"
    using assms(2) by (subst sum.inter_restrict [symmetric]) (auto intro: sum.cong)
  finally show ?thesis using assms(1) by (simp add: needs_def sum_list_distinct_conv_sum_set)
qed

lemma release_core:
  fixes raced :: "nat option"
  assumes fut: "\<And>f. future_ok x f" and q: "queue_ok x"
    and total: "sw_total x < 2 ^ 64" "sem_permits (sw_sem x) + sem_reserve (sw_sem x) + n + unclaimed x
      + \<Sum>\<^sub># (sw_pending x) + \<Sum>\<^sub># (sw_guards x) = sw_total x"
  defines "y \<equiv> x\<lparr>sw_sem := release raced n (sw_sem x)\<rparr>"
  shows "conserved y" and "future_ok y f" and "queue_ok y"
    and "filter (is_waiting (sem_wakers (sw_sem y))) (sem_queue (sw_sem y)) = w # ws \<Longrightarrow> raced \<noteq> Some w \<Longrightarrow>
      sem_reserve (sw_sem y) < waker_permits (sem_wakers (sw_sem y) w)"
proof -
  let ?s = "sw_sem x" and ?W = "sem_wakers (sw_sem x)" and ?r = "sem_reserve (sw_sem x) + n"
  have na: "\<forall>w \<in> set (sem_queue ?s). waker_status (?W w) \<noteq> STATUS_ACQUIRED"
    using fut by (fastforce simp: future_ok_def)
  have dist: "distinct (sem_queue ?s)" using q by (simp add: queue_ok_def)
  have "sem_permits ?s + sem_reserve ?s + n < 2 ^ 64" using total by linarith
  then obtain gs rest where g: "granted raced ?r ?W (sem_queue ?s) gs rest"
    and run: "release raced n ?s = ?s\<lparr>
        sem_permits := (if rest = [] then sem_permits ?s + (?r - needs ?W gs) else sem_permits ?s),
        sem_reserve := (if rest = [] then 0 else ?r - needs ?W gs),
        sem_wakers := mark_acquired gs ?W, sem_woken := sem_woken ?s @ gs, sem_queue := rest\<rparr>"
    using release_granted [OF dist na] by blast
  obtain front where front: "sem_queue ?s = front @ rest" "gs = filter (is_waiting ?W) front"
    using g by (auto simp: granted_def)
  have gs: "distinct gs" "set gs \<subseteq> set front" "set front \<inter> set rest = {}" "distinct rest"
    using dist front by auto
  have waiting: "g < sw_next x \<and> fut_phase (future_of x g) = Queued \<and> status_of x g = STATUS_WAITING
      \<and> waker_permits (?W g) = fut_permits (future_of x g)" if "g \<in> set gs" for g
    using that front fut [of g] by (auto simp: future_ok_def is_waiting_def)
  have "unclaimed y = unclaimed x + needs ?W gs"
    using gs(1) waiting by (intro unclaimed_mark) (simp_all add: y_def run)
  moreover have le: "needs ?W gs \<le> ?r" using g by (simp add: granted_def)
  ultimately show "conserved y" using total by (simp add: conserved_def y_def run)
  show "queue_ok y" using q gs(4) front by (auto simp: queue_ok_def y_def run)
  have rest: "mark_acquired gs ?W v = ?W v" if "v \<in> set rest" for v
    using that gs(2,3) by (auto simp: mark_acquired_def)
  have "status_of x v = STATUS_GIVEUP" if "v \<in> set front" "v \<notin> set gs" for v
    using that front fut [of v] by (auto simp: future_ok_def is_waiting_def)
  then show "future_ok y f"
    using fut [of f] front gs(2,3) rest [of f] waiting [of f]
    by (auto simp: future_ok_def y_def run mark_acquired_def split: if_splits)
  assume w: "filter (is_waiting (sem_wakers (sw_sem y))) (sem_queue (sw_sem y)) = w # ws" and raced: "raced \<noteq> Some w"
  have "filter (is_waiting (mark_acquired gs ?W)) rest = filter (is_waiting ?W) rest"
    using rest by (intro filter_cong) (auto simp: is_waiting_def)
  with w have "filter (is_waiting ?W) rest = w # ws" by (simp add: y_def run)
  moreover from this have "rest \<noteq> []" by auto
  moreover from this have "is_waiting ?W (hd rest)" using g by (simp add: granted_def)
  ultimately have "rest \<noteq> []" "w = hd rest" by (cases rest; simp)+
  then show "sem_reserve (sw_sem y) < waker_permits (sem_wakers (sw_sem y) w)"
    using g raced rest [of w] by (simp add: y_def run granted_def)
qed

lemma sum_mset_remove: "n \<in># M \<Longrightarrow> \<Sum>\<^sub># M = n + \<Sum>\<^sub># (M - {#n#})" for n :: nat
  by (drule multi_member_split) auto

lemma sem_inv_run_release:
  assumes "sem_inv x"
  shows "sem_inv (run_release raced n x)"
proof (cases "n \<in># sw_pending x")
  case True
  note I = sem_invD [OF assms]
  define z where "z = x\<lparr>sw_pending := sw_pending x - {#n#}\<rparr>"
  define y where "y = z\<lparr>sw_sem := release raced n (sw_sem z)\<rparr>"
  have "\<Sum>\<^sub># (sw_pending x) = n + \<Sum>\<^sub># (sw_pending z)"
    using sum_mset_remove [OF True] by (simp add: z_def)
  moreover have "unclaimed z = unclaimed x" by (intro unclaimed_cong) (simp_all add: z_def claim_of_def)
  ultimately have total: "sw_total z < 2 ^ 64" "sem_permits (sw_sem z) + sem_reserve (sw_sem z) + n + unclaimed z
      + \<Sum>\<^sub># (sw_pending z) + \<Sum>\<^sub># (sw_guards z) = sw_total z"
    using I(1) by (simp_all add: conserved_def z_def)
  have "future_ok z f" for f using I(2) [of f] by (simp add: future_ok_def z_def)
  moreover have "queue_ok z" using I(3) by (simp add: queue_ok_def z_def)
  ultimately have core: "conserved y" "future_ok y f" "queue_ok y"
    "filter (is_waiting (sem_wakers (sw_sem y))) (sem_queue (sw_sem y)) = w # ws \<Longrightarrow> raced \<noteq> Some w \<Longrightarrow>
      sem_reserve (sw_sem y) < waker_permits (sem_wakers (sw_sem y) w)" for f w ws
    using release_core [where x = z and n = n and raced = raced] total unfolding y_def by blast+
  have run: "run_release raced n x = (case raced of None \<Rightarrow> y | Some f \<Rightarrow> drop_future f y)"
  proof -
    have "y = x\<lparr>sw_sem := release raced n (sw_sem x), sw_pending := sw_pending x - {#n#}\<rparr>" by (simp add: y_def z_def)
    then show ?thesis using True by (simp add: run_release_def Let_def split: option.split)
  qed
  show ?thesis
  proof (cases "\<exists>f. raced = Some f \<and> fut_phase (future_of y f) = Queued")
    case True
    then obtain f where "raced = Some f" "fut_phase (future_of y f) = Queued" by blast
    then show ?thesis unfolding run using sem_inv_drop_queued [OF core(1-3)] by simp
  next
    case False
    have "raced \<noteq> Some w" if "filter (is_waiting (sem_wakers (sw_sem y))) (sem_queue (sw_sem y)) = w # ws" for w ws
    proof
      assume "raced = Some w"
      have "w \<in> set (sem_queue (sw_sem y))" "is_waiting (sem_wakers (sw_sem y)) w"
        using arg_cong [OF that, of set] by auto
      then have "fut_phase (future_of y w) = Queued" using core(2) [of w] by (auto simp: future_ok_def is_waiting_def)
      then show False using False \<open>raced = Some w\<close> by blast
    qed
    then have "sem_inv y" using core by (auto simp: sem_inv_def not_stalled_def)
    then show ?thesis unfolding run using sem_inv_drop_future by (simp split: option.split)
  qed
qed (use assms in \<open>simp add: run_release_def\<close>)

lemma sem_inv_change:
  assumes "sem_inv x" and "sw_sem y = sw_sem x" "sw_futures y = sw_futures x" "sw_next y = sw_next x"
    and "sw_pending y \<noteq> {#} \<or> sw_pending y = sw_pending x" and "sw_total y < 2 ^ 64"
    and "sw_total x + (\<Sum>\<^sub># (sw_pending y) + \<Sum>\<^sub># (sw_guards y)) = sw_total y + (\<Sum>\<^sub># (sw_pending x) + \<Sum>\<^sub># (sw_guards x))"
  shows "sem_inv y"
proof -
  note I = sem_invD [OF assms(1)]
  have "unclaimed y = unclaimed x" using assms(2-4) by (intro unclaimed_cong) (simp_all add: claim_of_def)
  then have "conserved y" using I(1) assms(2,6,7) by (simp add: conserved_def)
  moreover have "future_ok y f" for f using I(2) [of f] assms(2-4) by (simp add: future_ok_def)
  ultimately show ?thesis using I(3,4) assms(2,5) by (auto simp: sem_inv_def queue_ok_def not_stalled_def)
qed

lemma sem_inv_drop_guard: "sem_inv x \<Longrightarrow> sem_inv (drop_guard n x)"
  using sem_inv_change [of x "drop_guard n x"] sum_mset_remove [of n "sw_guards x"]
  by (auto simp: drop_guard_def conserved_def dest: sem_invD(1))

lemma sem_inv_release_part: "sem_inv x \<Longrightarrow> sem_inv (release_part k n x)"
  using sem_inv_change [of x "release_part k n x"] sum_mset_remove [of n "sw_guards x"]
  by (auto simp: release_part_def conserved_def dest: sem_invD(1))

lemma sem_inv_release_call: "sem_inv x \<Longrightarrow> sw_total x + n < 2 ^ 64 \<Longrightarrow> sem_inv (release_call n x)"
  using sem_inv_change [of x "release_call n x"] by (simp add: release_call_def)

lemma sem_inv_forget_guard:
  assumes "sem_inv x"
  shows "sem_inv (forget_guard n x)"
proof (cases "n \<in># sw_guards x")
  case True
  have "\<Sum>\<^sub># (sw_guards x) \<le> sw_total x" "sw_total x < 2 ^ 64" using sem_invD(1) [OF assms] by (simp_all add: conserved_def)
  then show ?thesis
    using assms True sem_inv_change [of x "forget_guard n x"] sum_mset_remove [OF True] by (simp add: forget_guard_def)
qed (use assms in \<open>simp add: forget_guard_def\<close>)

section \<open>Runs\<close>

text \<open>The only step that needs care is a direct \<open>release\<close>, which must not overflow the counter.\<close>

definition action_fits :: "sem_action \<Rightarrow> sem_world \<Rightarrow> bool" where
  "action_fits a x \<longleftrightarrow> (case a of Release_Call n \<Rightarrow> sw_total x + n < 2 ^ 64 | _ \<Rightarrow> True)"

lemma sem_inv_exec: "sem_inv x \<Longrightarrow> action_fits a x \<Longrightarrow> sem_inv (sem_exec a x)"
  by (cases a) (simp_all add: action_fits_def sem_inv_acquire sem_inv_acquire_now sem_inv_poll sem_inv_poll_queue
      sem_inv_drop_future sem_inv_run_release sem_inv_drop_guard sem_inv_release_part sem_inv_release_call sem_inv_forget_guard)

text \<open>The runs of a semaphore whose users take only the actions \<open>A\<close>.\<close>

inductive sem_reach :: "(sem_action \<Rightarrow> sem_world \<Rightarrow> bool) \<Rightarrow> nat \<Rightarrow> sem_world \<Rightarrow> bool" for A permits where
  start: "sem_reach A permits (sem_world_new permits)"
| step: "sem_reach A permits x \<Longrightarrow> A a x \<Longrightarrow> sem_reach A permits (sem_exec a x)"

lemma sem_reach_inv:
  assumes "sem_reach A permits x" and "permits < 2 ^ 64" and "\<And>a y. A a y \<Longrightarrow> action_fits a y"
  shows "sem_inv x"
  using assms by (induction rule: sem_reach.induct) (auto intro: sem_inv_new sem_inv_exec)

section \<open>The properties\<close>

text \<open>Whoever waits is in the queue, and then nothing is available outside it.\<close>

lemma waiting_in_queue:
  assumes "sem_inv x" and "fut_phase (future_of x f) = Queued" and "status_of x f \<noteq> STATUS_ACQUIRED"
  shows "f \<in> set (sem_queue (sw_sem x))" and "sem_permits (sw_sem x) = 0" and "is_waiting (sem_wakers (sw_sem x)) f"
  using sem_invD(2) [OF assms(1), of f] sem_invD(3) [OF assms(1)] assms(2,3)
  by (auto simp: future_ok_def queue_ok_def is_waiting_def split: if_splits)

text \<open>
  C8. No permit is lost and none is made: in every interleaving of tasks that acquire, poll, drop
  futures before or after their permits were granted, drop guards, give back a part, release or
  forget permits, the available, reserved, granted and held permits and those about to be released
  add up to the permits the semaphore started with, plus those released and less those forgotten.
\<close>

theorem semaphore_conserves:
  assumes "sem_reach action_fits permits x" and "permits < 2 ^ 64"
  shows "sem_permits (sw_sem x) + sem_reserve (sw_sem x) + unclaimed x + \<Sum>\<^sub># (sw_pending x) + \<Sum>\<^sub># (sw_guards x) = sw_total x"
  using sem_reach_inv [OF assms] by (simp add: sem_inv_def conserved_def)

text \<open>A run given by the list of its actions.\<close>

fun run_ok :: "(sem_action \<Rightarrow> sem_world \<Rightarrow> bool) \<Rightarrow> sem_action list \<Rightarrow> sem_world \<Rightarrow> bool" where
  "run_ok A [] x = True"
| "run_ok A (a # as) x = (A a x \<and> run_ok A as (sem_exec a x))"

lemma sem_reach_run: "run_ok A as x \<Longrightarrow> sem_reach A permits x \<Longrightarrow> sem_reach A permits (fold sem_exec as x)"
  by (induction as arbitrary: x) (auto intro: sem_reach.step)

lemmas sem_reach_start_run = sem_reach_run [OF _ sem_reach.start]

lemmas sem_op_defs = sem_world_new_def semaphore_new_def acquire_def acquire_now_def poll_future_def poll_queue_def
  drop_future_def run_release_def drop_guard_def release_part_def release_call_def forget_guard_def
  try_acquire_def release_def queue_waker_def give_up_def wadd64_def wsub64_def Let_def

text \<open>One task holds both permits of a semaphore, another waits for one of them and gets it.\<close>

definition example_run :: "sem_action list" where
  "example_run = [Acquire 2, Poll 0, Acquire 1, Poll 1, Poll_Queue 1, Run_Release None 0, Drop_Guard 2,
     Run_Release None 2, Poll 1]"

theorem semaphore_conserves_witness:
  "let x = fold sem_exec example_run (sem_world_new 2)
   in sem_reach action_fits 2 x \<and> sw_guards x = {#1#} \<and> sem_permits (sw_sem x) = 1 \<and> sw_total x = 2
     \<and> sem_permits (sw_sem x) + sem_reserve (sw_sem x) + unclaimed x + \<Sum>\<^sub># (sw_pending x) + \<Sum>\<^sub># (sw_guards x) = 2"
proof -
  let ?x = "fold sem_exec example_run (sem_world_new 2)"
  have "run_ok action_fits example_run (sem_world_new 2)" by (simp add: example_run_def action_fits_def)
  then have r: "sem_reach action_fits 2 ?x" by (rule sem_reach_start_run)
  have x: "sw_guards ?x = {#1#}" "sem_permits (sw_sem ?x) = 1" "sw_total ?x = 2"
    by (simp_all add: example_run_def sem_op_defs)
  show ?thesis using r x semaphore_conserves [OF r] unfolding Let_def by simp
qed

text \<open>
  Permits are granted in the order in which the futures were queued: a release takes the queue from
  its front, wakes those that still wait, in this order, as long as the permits suffice, and stops at
  the first that asks for more than is left or is being dropped at that moment.
\<close>

theorem release_fifo:
  assumes "sem_reach action_fits permits x" and "permits < 2 ^ 64" and "n \<in># sw_pending x"
  shows "\<exists>gs rest. granted raced (sem_reserve (sw_sem x) + n) (sem_wakers (sw_sem x)) (sem_queue (sw_sem x)) gs rest
    \<and> sem_woken (release raced n (sw_sem x)) = sem_woken (sw_sem x) @ gs
    \<and> sem_queue (release raced n (sw_sem x)) = rest
    \<and> sem_permits (release raced n (sw_sem x)) + sem_reserve (release raced n (sw_sem x)) + needs (sem_wakers (sw_sem x)) gs
        = sem_permits (sw_sem x) + sem_reserve (sw_sem x) + n"
proof -
  note I = sem_invD [OF sem_reach_inv [OF assms(1,2)], simplified]
  have "n \<le> \<Sum>\<^sub># (sw_pending x)" using sum_mset_remove [OF assms(3)] by linarith
  then have "sem_permits (sw_sem x) + sem_reserve (sw_sem x) + n < 2 ^ 64" using I(1) by (simp add: conserved_def)
  moreover have "distinct (sem_queue (sw_sem x))" using I(3) by (simp add: queue_ok_def)
  moreover have "\<forall>w \<in> set (sem_queue (sw_sem x)). waker_status (sem_wakers (sw_sem x) w) \<noteq> STATUS_ACQUIRED"
    using I(2) by (fastforce simp: future_ok_def)
  ultimately obtain gs rest where "granted raced (sem_reserve (sw_sem x) + n) (sem_wakers (sw_sem x)) (sem_queue (sw_sem x)) gs rest"
    and "release raced n (sw_sem x) = (sw_sem x)\<lparr>
        sem_permits := (if rest = [] then sem_permits (sw_sem x) + (sem_reserve (sw_sem x) + n - needs (sem_wakers (sw_sem x)) gs) else sem_permits (sw_sem x)),
        sem_reserve := (if rest = [] then 0 else sem_reserve (sw_sem x) + n - needs (sem_wakers (sw_sem x)) gs),
        sem_wakers := mark_acquired gs (sem_wakers (sw_sem x)), sem_woken := sem_woken (sw_sem x) @ gs, sem_queue := rest\<rparr>"
    by (elim release_granted)
  moreover from this(1) have "needs (sem_wakers (sw_sem x)) gs \<le> sem_reserve (sw_sem x) + n" by (simp add: granted_def)
  ultimately show ?thesis by (intro exI [of _ gs] exI [of _ rest]) simp
qed

theorem release_fifo_witness:
  "let x = fold sem_exec (take 7 example_run) (sem_world_new 2)
   in \<exists>gs rest. granted None (0 + 2) (sem_wakers (sw_sem x)) [1] gs rest \<and> sem_woken (release None 2 (sw_sem x)) = [] @ gs"
proof -
  let ?x = "fold sem_exec (take 7 example_run) (sem_world_new 2)"
  have "run_ok action_fits (take 7 example_run) (sem_world_new 2)" by (simp add: example_run_def action_fits_def)
  then have r: "sem_reach action_fits 2 ?x" by (rule sem_reach_start_run)
  have x: "2 \<in># sw_pending ?x" "sem_queue (sw_sem ?x) = [1]" "sem_woken (sw_sem ?x) = []" "sem_reserve (sw_sem ?x) = 0"
    by (simp_all add: example_run_def sem_op_defs)
  show ?thesis unfolding Let_def using release_fifo [OF r _ x(1), of None, unfolded x(2-4)] by auto
qed

text \<open>
  C16. No task overtakes those that wait: while a queued future has no permits, neither \<open>try_acquire\<close> of
  one or more permits nor the first poll of another future succeeds.
\<close>

theorem no_overtaking:
  assumes "sem_reach action_fits permits x" and "permits < 2 ^ 64"
    and "fut_phase (future_of x f) = Queued" and "status_of x f \<noteq> STATUS_ACQUIRED" and "0 < n"
  shows "\<not> fst (try_acquire n (sw_sem x)) \<and> sw_guards (acquire_now n x) = sw_guards x"
  using waiting_in_queue(2) [OF sem_reach_inv [OF assms(1,2)] assms(3,4)] assms(5)
  by (simp add: try_acquire_def acquire_now_def)

theorem no_overtaking_witness:
  "\<not> fst (try_acquire 1 (sw_sem (fold sem_exec (take 6 example_run) (sem_world_new 2))))"
proof -
  let ?x = "fold sem_exec (take 6 example_run) (sem_world_new 2)"
  have "run_ok action_fits (take 6 example_run) (sem_world_new 2)" by (simp add: example_run_def action_fits_def)
  then have r: "sem_reach action_fits 2 ?x" by (rule sem_reach_start_run)
  have "fut_phase (future_of ?x 1) = Queued" "status_of ?x 1 \<noteq> STATUS_ACQUIRED"
    by (simp_all add: example_run_def sem_op_defs)
  then show ?thesis using no_overtaking [OF r, of 1 1] by simp
qed



text \<open>
  C32. The loop of \<open>try_acquire\<close> behaves as one atomic step: if it returns, then in its last round the
  result and the stored value are those of \<open>try_acquire\<close> applied to the value the round found, for a
  success the value the exchange found, for a failure the value loaded.
\<close>

theorem try_acquire_atomic:
  assumes "try_acquire_loop n rounds = Some (taken, v)"
  shows "\<exists>permits current. (permits, current) \<in> set rounds \<and>
    (if taken then try_acquire n (s\<lparr>sem_permits := current\<rparr>) = (True, s\<lparr>sem_permits := v\<rparr>)
     else try_acquire n (s\<lparr>sem_permits := permits\<rparr>) = (False, s\<lparr>sem_permits := permits\<rparr>) \<and> v = current)"
  using assms
proof (induction rounds)
  case (Cons r rounds)
  obtain p c where r: "r = (p, c)" by fastforce
  show ?case
  proof (cases "p < n \<or> c = p")
    case True
    then show ?thesis using Cons.prems unfolding r
      by (intro exI [of _ p] exI [of _ c]) (auto simp: try_acquire_def split: if_splits)
  next
    case False
    then show ?thesis using Cons unfolding r by fastforce
  qed
qed simp

theorem try_acquire_atomic_witness:
  "try_acquire_loop 2 [(5, 4), (4, 4)] = Some (True, 2) \<and>
   (\<exists>permits current. (permits, current) \<in> set [(5::nat, 4), (4, 4)] \<and>
     try_acquire 2 ((semaphore_new 0)\<lparr>sem_permits := current\<rparr>) = (True, (semaphore_new 0)\<lparr>sem_permits := 2\<rparr>))"
proof -
  have run: "try_acquire_loop 2 [(5, 4), (4, 4)] = Some (True, 2)" by (simp add: wsub64_def)
  show ?thesis using run try_acquire_atomic [OF run, of "semaphore_new 0"] by simp
qed

end
