(* ===== verification/Async_Locks.thy ===== *)
theory Async_Locks
  imports Async_Semaphore
begin

text \<open>
  The locks of \<open>library/async_locks/src\<close> that are built on the semaphore, \<open>mutex.rs\<close> and \<open>rwlock.rs\<close>,
  and the spin lock of \<open>spin.rs\<close>.

  A lock is its data and a semaphore with its tasks; a guard of the lock is a guard of the semaphore.
  The locale \<open>permit_lock\<close> is what both locks use of the semaphore: every call asks for a number of
  permits from a fixed set and no future is polled after it has returned its guard.  Its lemmas are
  that the guards hold such numbers and that a guard with all permits is alone.  The mutex and the
  reader-writer lock interpret it.
\<close>

section \<open>What the locks use of the semaphore\<close>

locale permit_lock =
  fixes A :: "sem_action \<Rightarrow> sem_world \<Rightarrow> bool" and permits :: nat and N :: "nat set"
  assumes permits_bound: "permits < 2 ^ 64"
    and nonzero: "0 \<notin> N"
    and acquire_size: "A (Acquire n) x \<Longrightarrow> n \<in> N"
    and try_size: "A (Try_Acquire n) x \<Longrightarrow> n \<in> N"
    and poll_once: "A (Poll f) x \<Longrightarrow> \<not> fut_done (future_of x f)"
    and part_size: "A (Release_Part k n) x \<Longrightarrow> k \<le> n \<Longrightarrow> n - k \<in> N"
    and no_release: "\<not> A (Release_Call n) x"
begin

definition guards_ok :: "sem_world \<Rightarrow> bool" where
  "guards_ok x \<longleftrightarrow> (\<forall>n \<in># sw_guards x. n \<in> N) \<and>
     (\<forall>f. fut_phase (future_of x f) \<noteq> Dropped \<longrightarrow> fut_permits (future_of x f) \<in> N \<or> fut_done (future_of x f)) \<and>
     sw_total x \<le> permits"

lemma guards_ok_drop: "guards_ok x \<Longrightarrow> guards_ok (drop_future f x)"
  by (auto simp: guards_ok_def drop_future_def Let_def split: future_phase.splits)

lemma guards_ok_exec:
  assumes "guards_ok x" and "A a x"
  shows "guards_ok (sem_exec a x)"
proof (cases a)
  case (Acquire n)
  then show ?thesis using assms acquire_size [of n x] by (auto simp: guards_ok_def acquire_def)
next
  case (Try_Acquire n)
  then show ?thesis using assms try_size [of n x] by (auto simp: guards_ok_def acquire_now_def try_acquire_def)
next
  case (Poll f)
  then show ?thesis
    using assms poll_once [of f x] spec [OF assms(1) [unfolded guards_ok_def, THEN conjunct2, THEN conjunct1], of f]
    by (cases "fut_phase (future_of x f)") (auto simp: guards_ok_def poll_future_def try_acquire_def Let_def)
next
  case (Poll_Queue f)
  then show ?thesis using assms by (auto simp: guards_ok_def poll_queue_def Let_def)
next
  case (Drop_Future f)
  then show ?thesis using assms guards_ok_drop by simp
next
  case (Run_Release raced n)
  have "guards_ok (x\<lparr>sw_sem := s, sw_pending := p\<rparr>)" for s p using assms(1) by (simp add: guards_ok_def)
  then show ?thesis
    using Run_Release assms(1) by (auto simp: run_release_def Let_def intro: guards_ok_drop split: option.split)
next
  case (Drop_Guard n)
  then show ?thesis using assms by (auto simp: guards_ok_def drop_guard_def dest: in_diffD)
next
  case (Release_Part k n)
  then show ?thesis using assms part_size [of k n x] by (auto simp: guards_ok_def release_part_def dest: in_diffD)
next
  case (Release_Call n)
  then show ?thesis using assms no_release by simp
next
  case (Forget_Guard n)
  then show ?thesis using assms by (auto simp: guards_ok_def forget_guard_def dest: in_diffD)
qed

lemma reach_guards_ok: "sem_reach A permits x \<Longrightarrow> guards_ok x"
proof (induction rule: sem_reach.induct)
  case start
  then show ?case by (simp add: guards_ok_def sem_world_new_def)
qed (rule guards_ok_exec)

lemma reach_inv:
  assumes "sem_reach A permits x"
  shows "sem_inv x"
proof (rule sem_reach_inv [OF assms permits_bound])
  fix a y
  assume "A a y"
  then show "action_fits a y" using no_release by (cases a) (auto simp: action_fits_def)
qed

lemma guard_sizes: "sem_reach A permits x \<Longrightarrow> n \<in># sw_guards x \<Longrightarrow> n \<in> N"
  using reach_guards_ok by (auto simp: guards_ok_def)

lemma all_permits_alone:
  assumes "sem_reach A permits x" and "permits \<in># sw_guards x"
  shows "sw_guards x = {#permits#}"
proof (rule ccontr)
  assume ne: "sw_guards x \<noteq> {#permits#}"
  obtain M where M: "sw_guards x = add_mset permits M" using multi_member_split [OF assms(2)] by blast
  with ne have "M \<noteq> {#}" by auto
  then obtain m where m: "m \<in># M" by (meson multiset_nonemptyE)
  then have "m \<in> N" using guard_sizes [OF assms(1)] M by auto
  then have "0 < m" using nonzero by (cases m) auto
  then have "permits < \<Sum>\<^sub># (sw_guards x)" using sum_mset_remove [OF m] M by simp
  moreover have "\<Sum>\<^sub># (sw_guards x) \<le> sw_total x" "sw_total x \<le> permits"
    using sem_invD(1) [OF reach_inv [OF assms(1)]] reach_guards_ok [OF assms(1)]
    by (simp_all add: conserved_def guards_ok_def)
  ultimately show False by simp
qed

end

section \<open>Mutex\<close>

record 'a Mutex =
  mutex_data :: 'a
  mutex_sem :: sem_world

definition mutex_new :: "'a \<Rightarrow> 'a Mutex" where
  "mutex_new data = \<lparr>mutex_data = data, mutex_sem = sem_world_new 1\<rparr>"

definition mutex_try_lock :: "'a Mutex \<Rightarrow> 'a Mutex" where
  "mutex_try_lock m = m\<lparr>mutex_sem := acquire_now 1 (mutex_sem m)\<rparr>"

definition mutex_lock :: "'a Mutex \<Rightarrow> 'a Mutex" where
  "mutex_lock m = m\<lparr>mutex_sem := acquire 1 (mutex_sem m)\<rparr>"

definition mutex_poll :: "nat \<Rightarrow> 'a Mutex \<Rightarrow> 'a Mutex" where
  "mutex_poll f m = m\<lparr>mutex_sem := poll_future f (mutex_sem m)\<rparr>"

text \<open>The data through a guard; there is a guard to do it with.\<close>

definition mutex_deref :: "'a Mutex \<Rightarrow> 'a option" where
  "mutex_deref m = (if sw_guards (mutex_sem m) = {#} then None else Some (mutex_data m))"

definition mutex_deref_mut :: "'a \<Rightarrow> 'a Mutex \<Rightarrow> 'a Mutex" where
  "mutex_deref_mut v m = (if sw_guards (mutex_sem m) = {#} then m else m\<lparr>mutex_data := v\<rparr>)"

text \<open>What the semaphore does meanwhile, and the drops of futures and guards.\<close>

definition semaphore_step :: "sem_action \<Rightarrow> bool" where
  "semaphore_step a \<longleftrightarrow> (case a of Poll_Queue _ \<Rightarrow> True | Drop_Future _ \<Rightarrow> True | Run_Release _ _ \<Rightarrow> True
     | Drop_Guard _ \<Rightarrow> True | Forget_Guard _ \<Rightarrow> True | _ \<Rightarrow> False)"

text \<open>The runs of a mutex; \<open>proper\<close> ones do not poll a future that has returned its guard.\<close>

inductive mutex_reach :: "bool \<Rightarrow> 'a Mutex \<Rightarrow> bool" for proper where
  new: "mutex_reach proper (mutex_new data)"
| try_lock: "mutex_reach proper m \<Longrightarrow> mutex_reach proper (mutex_try_lock m)"
| lock: "mutex_reach proper m \<Longrightarrow> mutex_reach proper (mutex_lock m)"
| poll: "mutex_reach proper m \<Longrightarrow> \<not> proper \<or> \<not> fut_done (future_of (mutex_sem m) f) \<Longrightarrow> mutex_reach proper (mutex_poll f m)"
| deref_mut: "mutex_reach proper m \<Longrightarrow> mutex_reach proper (mutex_deref_mut v m)"
| semaphore: "mutex_reach proper m \<Longrightarrow> semaphore_step a \<Longrightarrow> mutex_reach proper (m\<lparr>mutex_sem := sem_exec a (mutex_sem m)\<rparr>)"

definition mutex_action :: "sem_action \<Rightarrow> sem_world \<Rightarrow> bool" where
  "mutex_action a x \<longleftrightarrow> a = Acquire 1 \<or> a = Try_Acquire 1 \<or> (\<exists>f. a = Poll f \<and> \<not> fut_done (future_of x f)) \<or> semaphore_step a"

interpretation mutex_permits: permit_lock mutex_action 1 "{1}"
  by unfold_locales (auto simp: mutex_action_def semaphore_step_def)

lemma mutex_actions:
  "mutex_action (Acquire 1) x" "mutex_action (Try_Acquire 1) x" "semaphore_step a \<Longrightarrow> mutex_action a x"
  "\<not> fut_done (future_of x f) \<Longrightarrow> mutex_action (Poll f) x"
  by (simp_all add: mutex_action_def)

lemma mutex_sem_reach: "mutex_reach True m \<Longrightarrow> sem_reach mutex_action 1 (mutex_sem m)"
proof (induction rule: mutex_reach.induct)
  case (try_lock m)
  then show ?case using sem_reach.step [of mutex_action 1 _ "Try_Acquire 1"] mutex_actions(2)
    by (simp add: mutex_try_lock_def)
next
  case (lock m)
  then show ?case using sem_reach.step [of mutex_action 1 _ "Acquire 1"] mutex_actions(1) by (simp add: mutex_lock_def)
next
  case (poll m f)
  then show ?case using sem_reach.step [of mutex_action 1 _ "Poll f"] mutex_actions(4) by (simp add: mutex_poll_def)
next
  case (semaphore m a)
  then show ?case using sem_reach.step [of mutex_action 1 _ a] mutex_actions(3) by simp
qed (simp_all add: mutex_new_def mutex_deref_mut_def sem_reach.start)

text \<open>
  C18. Mutual exclusion: whatever the tasks do with a mutex - try to lock it, wait for it, give up
  waiting before or after the lock was granted, drop or forget guards - there is never more than one
  guard, so the data is never accessed by two tasks at once, provided no future is polled again after
  it has returned its guard.
\<close>

theorem mutex_exclusive:
  assumes "mutex_reach True m"
  shows "size (sw_guards (mutex_sem m)) \<le> 1"
proof (cases "sw_guards (mutex_sem m) = {#}")
  case False
  note r = mutex_sem_reach [OF assms]
  obtain n where n: "n \<in># sw_guards (mutex_sem m)" using False by (meson multiset_nonemptyE)
  then have "n = 1" using mutex_permits.guard_sizes [OF r] by simp
  then show ?thesis using mutex_permits.all_permits_alone [OF r] n by simp
qed simp

lemma mutex_reach_example:
  "mutex_reach p (mutex_poll 1 (mutex_lock (mutex_poll 0 (mutex_lock (mutex_new ())))))"
proof -
  have "mutex_reach p (mutex_lock (mutex_new ()))" by (intro mutex_reach.intros)
  then have "mutex_reach p (mutex_poll 0 (mutex_lock (mutex_new ())))"
    by (rule mutex_reach.poll) (simp add: mutex_lock_def mutex_new_def acquire_def sem_world_new_def)
  then have "mutex_reach p (mutex_lock (mutex_poll 0 (mutex_lock (mutex_new ()))))" by (rule mutex_reach.lock)
  then show ?thesis
    by (rule mutex_reach.poll) (simp add: mutex_lock_def mutex_new_def mutex_poll_def sem_op_defs)
qed

theorem mutex_exclusive_witness:
  "let m = mutex_poll 1 (mutex_lock (mutex_poll 0 (mutex_lock (mutex_new ()))))
   in sw_guards (mutex_sem m) = {#1#} \<and> size (sw_guards (mutex_sem m)) \<le> 1"
  using mutex_exclusive [OF mutex_reach_example]
  by (simp add: Let_def) (simp add: mutex_lock_def mutex_new_def mutex_poll_def sem_op_defs)


section \<open>Reader-writer lock\<close>

definition USIZE_MAX :: nat where
  "USIZE_MAX = 2 ^ 64 - 1"

record 'a RwLock =
  rw_data :: 'a
  rw_sem :: sem_world

definition rw_new :: "'a \<Rightarrow> 'a RwLock" where
  "rw_new data = \<lparr>rw_data = data, rw_sem = sem_world_new USIZE_MAX\<rparr>"

definition try_read :: "'a RwLock \<Rightarrow> 'a RwLock" where
  "try_read l = l\<lparr>rw_sem := acquire_now 1 (rw_sem l)\<rparr>"

definition try_write :: "'a RwLock \<Rightarrow> 'a RwLock" where
  "try_write l = l\<lparr>rw_sem := acquire_now USIZE_MAX (rw_sem l)\<rparr>"

definition rw_read :: "'a RwLock \<Rightarrow> 'a RwLock" where
  "rw_read l = l\<lparr>rw_sem := acquire 1 (rw_sem l)\<rparr>"

definition rw_write :: "'a RwLock \<Rightarrow> 'a RwLock" where
  "rw_write l = l\<lparr>rw_sem := acquire USIZE_MAX (rw_sem l)\<rparr>"

text \<open>The polls of \<open>ReadLockFuture\<close> and \<open>WriteLockFuture\<close>.\<close>

definition rw_poll :: "nat \<Rightarrow> 'a RwLock \<Rightarrow> 'a RwLock" where
  "rw_poll f l = l\<lparr>rw_sem := poll_future f (rw_sem l)\<rparr>"

definition downgrade :: "'a RwLock \<Rightarrow> 'a RwLock" where
  "downgrade l = l\<lparr>rw_sem := release_part (USIZE_MAX - 1) USIZE_MAX (rw_sem l)\<rparr>"

text \<open>Read access through any guard, write access through that of a writer.\<close>

definition rw_deref :: "'a RwLock \<Rightarrow> 'a option" where
  "rw_deref l = (if sw_guards (rw_sem l) = {#} then None else Some (rw_data l))"

definition rw_deref_mut :: "'a \<Rightarrow> 'a RwLock \<Rightarrow> 'a RwLock" where
  "rw_deref_mut v l = (if USIZE_MAX \<in># sw_guards (rw_sem l) then l\<lparr>rw_data := v\<rparr> else l)"

inductive rw_reach :: "'a RwLock \<Rightarrow> bool" where
  new: "rw_reach (rw_new data)"
| try_read: "rw_reach l \<Longrightarrow> rw_reach (try_read l)"
| try_write: "rw_reach l \<Longrightarrow> rw_reach (try_write l)"
| read: "rw_reach l \<Longrightarrow> rw_reach (rw_read l)"
| wr: "rw_reach l \<Longrightarrow> rw_reach (rw_write l)"
| poll: "rw_reach l \<Longrightarrow> \<not> fut_done (future_of (rw_sem l) f) \<Longrightarrow> rw_reach (rw_poll f l)"
| downgrade: "rw_reach l \<Longrightarrow> rw_reach (downgrade l)"
| deref_mut: "rw_reach l \<Longrightarrow> rw_reach (rw_deref_mut v l)"
| semaphore: "rw_reach l \<Longrightarrow> semaphore_step a \<Longrightarrow> rw_reach (l\<lparr>rw_sem := sem_exec a (rw_sem l)\<rparr>)"

definition rw_action :: "sem_action \<Rightarrow> sem_world \<Rightarrow> bool" where
  "rw_action a x \<longleftrightarrow> a \<in> {Acquire 1, Acquire USIZE_MAX, Try_Acquire 1, Try_Acquire USIZE_MAX,
       Release_Part (USIZE_MAX - 1) USIZE_MAX}
     \<or> (\<exists>f. a = Poll f \<and> \<not> fut_done (future_of x f)) \<or> semaphore_step a"

lemma USIZE_MAX_bounds: "1 < USIZE_MAX" "USIZE_MAX < 2 ^ 64" "USIZE_MAX - (USIZE_MAX - 1) = 1"
  by (simp_all add: USIZE_MAX_def)

interpretation rw_permits: permit_lock rw_action USIZE_MAX "{1, USIZE_MAX}"
  using USIZE_MAX_bounds by unfold_locales (auto simp: rw_action_def semaphore_step_def)

lemma rw_actions:
  "rw_action (Acquire 1) x" "rw_action (Acquire USIZE_MAX) x" "rw_action (Try_Acquire 1) x"
  "rw_action (Try_Acquire USIZE_MAX) x" "rw_action (Release_Part (USIZE_MAX - 1) USIZE_MAX) x"
  "semaphore_step a \<Longrightarrow> rw_action a x" "\<not> fut_done (future_of x f) \<Longrightarrow> rw_action (Poll f) x"
  by (simp_all add: rw_action_def)

lemmas rw_step = sem_reach.step [of rw_action USIZE_MAX]

lemma rw_sem_reach: "rw_reach l \<Longrightarrow> sem_reach rw_action USIZE_MAX (rw_sem l)"
proof (induction rule: rw_reach.induct)
  case (try_read l)
  then show ?case using rw_step [OF _ rw_actions(3)] by (simp add: try_read_def)
next
  case (try_write l)
  then show ?case using rw_step [OF _ rw_actions(4)] by (simp add: try_write_def)
next
  case (read l)
  then show ?case using rw_step [OF _ rw_actions(1)] by (simp add: rw_read_def)
next
  case (wr l)
  then show ?case using rw_step [OF _ rw_actions(2)] by (simp add: rw_write_def)
next
  case (poll l f)
  then show ?case using rw_step [OF _ rw_actions(7)] by (simp add: rw_poll_def)
next
  case (downgrade l)
  then show ?case using rw_step [OF _ rw_actions(5)] by (simp add: downgrade_def)
next
  case (semaphore l a)
  then show ?case using rw_step [OF _ rw_actions(6)] by simp
qed (simp_all add: rw_new_def rw_deref_mut_def sem_reach.start)



text \<open>
  Downgrading a writer keeps its access without a gap: right after the call its guard is that of a
  reader and the only one, the data is unchanged, and all other permits are on their way to the
  semaphore.
\<close>

theorem downgrade_keeps_access:
  assumes "rw_reach l" and "USIZE_MAX \<in># sw_guards (rw_sem l)"
  shows "sw_guards (rw_sem (downgrade l)) = {#1#} \<and> rw_data (downgrade l) = rw_data l
    \<and> USIZE_MAX - 1 \<in># sw_pending (rw_sem (downgrade l))"
proof -
  have "sw_guards (rw_sem l) = {#USIZE_MAX#}" using rw_permits.all_permits_alone [OF rw_sem_reach [OF assms(1)]] assms(2) .
  then show ?thesis using USIZE_MAX_bounds(3) by (simp add: downgrade_def release_part_def)
qed

theorem downgrade_keeps_access_witness:
  "sw_guards (rw_sem (downgrade (try_write (rw_new ())))) = {#1#}"
proof -
  have "rw_reach (try_write (rw_new ()))" by (intro rw_reach.intros)
  moreover have "USIZE_MAX \<in># sw_guards (rw_sem (try_write (rw_new ())))"
    by (simp add: try_write_def rw_new_def acquire_now_def try_acquire_def sem_world_new_def semaphore_new_def)
  ultimately show ?thesis using downgrade_keeps_access by blast
qed

section \<open>Spin lock\<close>

record 'a SpinLock =
  spin_locked :: bool
  spin_data :: 'a

definition spin_new :: "'a \<Rightarrow> 'a SpinLock" where
  "spin_new data = \<lparr>spin_locked = False, spin_data = data\<rparr>"

definition spin_try_lock :: "'a SpinLock \<Rightarrow> bool \<times> 'a SpinLock" where
  "spin_try_lock l = (if spin_locked l then (False, l) else (True, l\<lparr>spin_locked := True\<rparr>))"

text \<open>The loop of \<open>lock\<close> when no other task runs.\<close>

partial_function (option) spin_lock :: "'a SpinLock \<Rightarrow> 'a SpinLock option" where
  "spin_lock l = (case spin_try_lock l of (locked, l) \<Rightarrow> if locked then Some l else spin_lock l)"

definition spin_drop :: "'a SpinLock \<Rightarrow> 'a SpinLock" where
  "spin_drop l = l\<lparr>spin_locked := False\<rparr>"

text \<open>Tasks that try to lock, write through their guard, and drop it; \<open>guards\<close> are the tasks with a guard.\<close>

inductive spin_reach :: "'a SpinLock \<Rightarrow> nat set \<Rightarrow> bool" where
  new: "spin_reach (spin_new data) {}"
| locks: "spin_reach l guards \<Longrightarrow> spin_try_lock l = (True, l') \<Longrightarrow> spin_reach l' (insert t guards)"
| fails: "spin_reach l guards \<Longrightarrow> spin_try_lock l = (False, l') \<Longrightarrow> spin_reach l' guards"
| writes: "spin_reach l guards \<Longrightarrow> t \<in> guards \<Longrightarrow> spin_reach (l\<lparr>spin_data := v\<rparr>) guards"
| drops: "spin_reach l guards \<Longrightarrow> t \<in> guards \<Longrightarrow> spin_reach (spin_drop l) (guards - {t})"

text \<open>
  A spin lock has at most one guard, and it is locked exactly while there is one.
\<close>

theorem spin_exclusive:
  assumes "spin_reach l guards"
  shows "card guards \<le> 1 \<and> finite guards \<and> (spin_locked l \<longleftrightarrow> guards \<noteq> {})"
  using assms
proof (induction rule: spin_reach.induct)
  case (locks l guards l' t)
  then have "guards = {}" "spin_locked l'" by (auto simp: spin_try_lock_def split: if_splits)
  then show ?case by simp
next
  case (drops l guards t)
  then have "guards = {t}" by (metis card_1_singletonE card_0_eq le_SucE One_nat_def insertE empty_iff less_one nat_less_le)
  then show ?case by (simp add: spin_drop_def)
qed (auto simp: spin_new_def spin_try_lock_def split: if_splits)

theorem spin_exclusive_witness:
  "card {3 :: nat} \<le> 1 \<and> spin_locked ((spin_new ())\<lparr>spin_locked := True\<rparr>)"
proof -
  have "spin_reach ((spin_new ())\<lparr>spin_locked := True\<rparr>) {3}"
    using spin_reach.locks [OF spin_reach.new [of "()"], of _ 3] by (simp add: spin_try_lock_def spin_new_def)
  from spin_exclusive [OF this] show ?thesis by simp
qed

lemma spin_lock_diverges: "spin_lock l = Some l' \<Longrightarrow> \<not> spin_locked l"
proof (induction rule: spin_lock.raw_induct [rotated, consumes 1, case_names step])
  case (step loop l l')
  then show ?case by (auto simp: spin_try_lock_def split: if_splits)
qed

text \<open>
  \<open>lock\<close> returns exactly if the lock is free: otherwise the loop never ends while no other task
  releases the lock.
\<close>

theorem spin_lock_returns: "spin_lock l = (if spin_locked l then None else Some (l\<lparr>spin_locked := True\<rparr>))"
proof (cases "spin_locked l")
  case True
  then show ?thesis using spin_lock_diverges [of l] by (cases "spin_lock l") auto
qed (subst spin_lock.simps, simp add: spin_try_lock_def)

end
