(* ===== verification/Async_Condvar.thy ===== *)
theory Async_Condvar
  imports Async_Locks
begin

text \<open>
  The condition variable of \<open>library/async_locks/src/condvar.rs\<close> together with the mutex it is used with.

  A \<open>CondvarWaker\<close> is known by the number of its wait.  Each call of \<open>wake\<close>, \<open>wake_all\<close>, \<open>poll\<close> and
  \<open>drop\<close> is one step; between them the tasks of the mutex take theirs.  The guard a wait is created with
  stays a guard of the mutex until the first poll drops it.
\<close>

section \<open>Waiting and waking\<close>

datatype CondvarWaitInner =
  Wait_Init | Wait_Wait | Wait_Relock nat | Wait_Done | Wait_Dropped

record cond_world =
  cw_queue :: "nat list"
  cw_status :: "nat \<Rightarrow> WakerStatus"
  cw_waits :: "nat \<Rightarrow> CondvarWaitInner"
  cw_next :: nat
  cw_woken :: "nat list"
  cw_mutex :: sem_world

definition condvar_new :: cond_world where
  "condvar_new = \<lparr>cw_queue = [], cw_status = (\<lambda>_. STATUS_GIVEUP), cw_waits = (\<lambda>_. Wait_Dropped), cw_next = 0,
     cw_woken = [], cw_mutex = sem_world_new 1\<rparr>"

text \<open>\<open>wait\<close> consumes a guard; without one it cannot be called.\<close>

definition cond_wait :: "cond_world \<Rightarrow> cond_world" where
  "cond_wait x =
    (if sw_guards (cw_mutex x) = {#} then x
     else x\<lparr>cw_waits := (cw_waits x)(cw_next x := Wait_Init), cw_next := Suc (cw_next x)\<rparr>)"

fun wake_loop :: "(nat \<Rightarrow> WakerStatus) \<Rightarrow> nat list \<Rightarrow> nat list \<Rightarrow> (nat \<Rightarrow> WakerStatus) \<times> nat list \<times> nat list" where
  "wake_loop status woken [] = (status, woken, [])"
| "wake_loop status woken (w # queue) =
    (if status w \<noteq> STATUS_WAITING then wake_loop status woken queue
     else (status(w := STATUS_ACQUIRED), woken @ [w], queue))"

definition wake :: "cond_world \<Rightarrow> cond_world" where
  "wake x =
    (case wake_loop (cw_status x) (cw_woken x) (cw_queue x) of
       (status, woken, queue) \<Rightarrow> x\<lparr>cw_status := status, cw_woken := woken, cw_queue := queue\<rparr>)"

fun wake_all_loop :: "(nat \<Rightarrow> WakerStatus) \<Rightarrow> nat list \<Rightarrow> nat list \<Rightarrow> (nat \<Rightarrow> WakerStatus) \<times> nat list \<times> nat list" where
  "wake_all_loop status woken [] = (status, woken, [])"
| "wake_all_loop status woken (w # queue) =
    (if status w \<noteq> STATUS_WAITING then wake_all_loop status woken queue
     else wake_all_loop (status(w := STATUS_ACQUIRED)) (woken @ [w]) queue)"

definition wake_all :: "cond_world \<Rightarrow> cond_world" where
  "wake_all x =
    (case wake_all_loop (cw_status x) (cw_woken x) (cw_queue x) of
       (status, woken, queue) \<Rightarrow> x\<lparr>cw_status := status, cw_woken := woken, cw_queue := queue\<rparr>)"

text \<open>\<open>Condvar::queue\<close>\<close>

definition cond_queue :: "nat \<Rightarrow> cond_world \<Rightarrow> cond_world" where
  "cond_queue w x = x\<lparr>cw_status := (cw_status x)(w := STATUS_WAITING), cw_queue := cw_queue x @ [w]\<rparr>"

text \<open>
  The rounds of the loop of \<open>poll\<close>.  In the last state the poll of the lock's future is that of the
  mutex; the wait is done once that future has returned the guard.
\<close>

definition poll_relock :: "nat \<Rightarrow> nat \<Rightarrow> cond_world \<Rightarrow> cond_world" where
  "poll_relock w f x =
    (let m = poll_future f (cw_mutex x)
     in x\<lparr>cw_mutex := m,
          cw_waits := (if fut_done (future_of m f) then (cw_waits x)(w := Wait_Done) else cw_waits x)\<rparr>)"

definition poll_wait :: "nat \<Rightarrow> cond_world \<Rightarrow> cond_world" where
  "poll_wait w x =
    (if cw_status x w \<noteq> STATUS_ACQUIRED then x
     else let f = sw_next (cw_mutex x)
          in poll_relock w f (x\<lparr>cw_mutex := acquire 1 (cw_mutex x), cw_waits := (cw_waits x)(w := Wait_Relock f)\<rparr>))"

definition poll_init :: "nat \<Rightarrow> cond_world \<Rightarrow> cond_world" where
  "poll_init w x =
    (let x = cond_queue w x
     in poll_wait w (x\<lparr>cw_waits := (cw_waits x)(w := Wait_Wait), cw_mutex := drop_guard 1 (cw_mutex x)\<rparr>))"

text \<open>A poll of a wait that is done panics.\<close>

definition cond_poll :: "nat \<Rightarrow> cond_world \<Rightarrow> cond_world option" where
  "cond_poll w x =
    (case cw_waits x w of
       Wait_Init \<Rightarrow> Some (poll_init w x)
     | Wait_Wait \<Rightarrow> Some (poll_wait w x)
     | Wait_Relock f \<Rightarrow> Some (poll_relock w f x)
     | Wait_Done \<Rightarrow> None
     | Wait_Dropped \<Rightarrow> Some x)"

definition cond_drop :: "nat \<Rightarrow> cond_world \<Rightarrow> cond_world" where
  "cond_drop w x =
    (let x' = x\<lparr>cw_waits := (cw_waits x)(w := Wait_Dropped)\<rparr> in
     case cw_waits x w of
       Wait_Init \<Rightarrow> x'\<lparr>cw_mutex := drop_guard 1 (cw_mutex x)\<rparr>
     | Wait_Wait \<Rightarrow>
         let x'' = x'\<lparr>cw_status := (cw_status x)(w := STATUS_GIVEUP)\<rparr>
         in if cw_status x w = STATUS_ACQUIRED then wake x'' else x''
     | Wait_Relock f \<Rightarrow> (let y = wake x' in y\<lparr>cw_mutex := drop_future f (cw_mutex y)\<rparr>)
     | Wait_Done \<Rightarrow> x'
     | Wait_Dropped \<Rightarrow> x)"

text \<open>
  The runs of tasks that use the mutex and the condition variable.  The future of a wait that locks
  again belongs to the wait.
\<close>

inductive cond_reach :: "cond_world \<Rightarrow> bool" where
  new: "cond_reach condvar_new"
| wait: "cond_reach x \<Longrightarrow> cond_reach (cond_wait x)"
| wakes: "cond_reach x \<Longrightarrow> cond_reach (wake x)"
| wakes_all: "cond_reach x \<Longrightarrow> cond_reach (wake_all x)"
| polls: "cond_reach x \<Longrightarrow> cond_poll w x = Some y \<Longrightarrow> cond_reach y"
| drops: "cond_reach x \<Longrightarrow> cond_reach (cond_drop w x)"
| mutex: "cond_reach x \<Longrightarrow> mutex_action a (cw_mutex x) \<Longrightarrow>
    (\<And>w f. cw_waits x w = Wait_Relock f \<Longrightarrow> a \<noteq> Poll f \<and> a \<noteq> Drop_Future f) \<Longrightarrow> cond_reach (x\<lparr>cw_mutex := sem_exec a (cw_mutex x)\<rparr>)"

section \<open>The invariant\<close>

text \<open>A wait that has been polled is in the queue or has been woken; the rest of the queue has given up.\<close>

definition wait_ok :: "cond_world \<Rightarrow> nat \<Rightarrow> bool" where
  "wait_ok x w \<longleftrightarrow>
     (cw_waits x w \<noteq> Wait_Dropped \<longrightarrow> w < cw_next x) \<and>
     (w \<in> set (cw_queue x) \<longrightarrow> w < cw_next x \<and>
        (cw_waits x w = Wait_Wait \<and> cw_status x w = STATUS_WAITING
         \<or> cw_waits x w = Wait_Dropped \<and> cw_status x w = STATUS_GIVEUP)) \<and>
     (cw_waits x w = Wait_Wait \<and> w \<notin> set (cw_queue x) \<longrightarrow> cw_status x w = STATUS_ACQUIRED)"

definition cond_inv :: "cond_world \<Rightarrow> bool" where
  "cond_inv x \<longleftrightarrow> distinct (cw_queue x) \<and> (\<forall>w. wait_ok x w)"

text \<open>The waits that nobody has woken yet, in the order of the queue.\<close>

definition sleepers :: "cond_world \<Rightarrow> nat list" where
  "sleepers x = filter (\<lambda>w. cw_status x w = STATUS_WAITING) (cw_queue x)"

lemma wake_loop_filter:
  "wake_loop status woken queue =
    (case filter (\<lambda>w. status w = STATUS_WAITING) queue of
       [] \<Rightarrow> (status, woken, [])
     | w # _ \<Rightarrow> (status(w := STATUS_ACQUIRED), woken @ [w], tl (dropWhile (\<lambda>w. status w \<noteq> STATUS_WAITING) queue)))"
  by (induction queue) (auto split: list.split)

lemma wake_sleepers:
  assumes "distinct (cw_queue x)"
  shows "sleepers x = [] \<Longrightarrow> wake x = x\<lparr>cw_queue := []\<rparr>"
    and "sleepers x = w # ws \<Longrightarrow> \<exists>front rest. cw_queue x = front @ w # rest \<and> (\<forall>v \<in> set front. cw_status x v \<noteq> STATUS_WAITING)
      \<and> wake x = x\<lparr>cw_status := (cw_status x)(w := STATUS_ACQUIRED), cw_woken := cw_woken x @ [w], cw_queue := rest\<rparr>
      \<and> sleepers (wake x) = ws"
proof -
  show "wake x = x\<lparr>cw_queue := []\<rparr>" if "sleepers x = []"
    using that by (simp add: wake_def wake_loop_filter sleepers_def)
  assume s: "sleepers x = w # ws"
  then obtain front rest where q: "cw_queue x = front @ w # rest" "\<forall>v \<in> set front. cw_status x v \<noteq> STATUS_WAITING"
    "cw_status x w = STATUS_WAITING" "ws = filter (\<lambda>w. cw_status x w = STATUS_WAITING) rest"
    using filter_eq_ConsD [OF s [unfolded sleepers_def]] by auto
  have "dropWhile (\<lambda>w. cw_status x w \<noteq> STATUS_WAITING) (cw_queue x) = w # rest"
    using q by (simp add: dropWhile_append3)
  then have run: "wake x = x\<lparr>cw_status := (cw_status x)(w := STATUS_ACQUIRED), cw_woken := cw_woken x @ [w], cw_queue := rest\<rparr>"
    using s by (simp add: wake_def wake_loop_filter sleepers_def)
  moreover have "sleepers (wake x) = ws"
    unfolding run sleepers_def using q assms by (auto intro!: filter_cong)
  ultimately show "\<exists>front rest. cw_queue x = front @ w # rest \<and> (\<forall>v \<in> set front. cw_status x v \<noteq> STATUS_WAITING)
      \<and> wake x = x\<lparr>cw_status := (cw_status x)(w := STATUS_ACQUIRED), cw_woken := cw_woken x @ [w], cw_queue := rest\<rparr>
      \<and> sleepers (wake x) = ws"
    using q by blast
qed

lemma wake_ok:
  assumes "cond_inv x"
  shows "cond_inv (wake x)"
proof -
  have d: "distinct (cw_queue x)" and ok: "\<And>w. wait_ok x w" using assms by (auto simp: cond_inv_def)
  show ?thesis
  proof (cases "sleepers x")
    case Nil
    then have "w \<in> set (cw_queue x) \<Longrightarrow> cw_waits x w = Wait_Dropped" for w
      using ok [of w] by (auto simp: sleepers_def wait_ok_def filter_empty_conv)
    then have "wait_ok (x\<lparr>cw_queue := []\<rparr>) w" for w using ok [of w] by (auto simp: wait_ok_def)
    then show ?thesis unfolding wake_sleepers(1) [OF d Nil] by (simp add: cond_inv_def)
  next
    case (Cons w ws)
    then obtain front rest where q: "cw_queue x = front @ w # rest" "\<forall>v \<in> set front. cw_status x v \<noteq> STATUS_WAITING"
      and run: "wake x = x\<lparr>cw_status := (cw_status x)(w := STATUS_ACQUIRED), cw_woken := cw_woken x @ [w], cw_queue := rest\<rparr>"
      using wake_sleepers(2) [OF d] by blast
    have "wait_ok (wake x) v" for v
      unfolding run using ok [of v] q d by (auto simp: wait_ok_def)
    then show ?thesis using d q by (simp add: cond_inv_def run)
  qed
qed

lemma wake_all_loop_eq:
  "distinct queue \<Longrightarrow> wake_all_loop status woken queue =
    ((\<lambda>w. if w \<in> set queue \<and> status w = STATUS_WAITING then STATUS_ACQUIRED else status w),
     woken @ filter (\<lambda>w. status w = STATUS_WAITING) queue, [])"
proof (induction queue arbitrary: status woken)
  case (Cons w queue)
  have "filter (\<lambda>v. (status(w := STATUS_ACQUIRED)) v = STATUS_WAITING) queue = filter (\<lambda>v. status v = STATUS_WAITING) queue"
    using Cons.prems by (intro filter_cong) auto
  then show ?case using Cons by (auto simp: fun_eq_iff)
qed simp

lemma wake_all_sleepers:
  assumes "distinct (cw_queue x)"
  shows "wake_all x = x\<lparr>cw_status := (\<lambda>w. if w \<in> set (sleepers x) then STATUS_ACQUIRED else cw_status x w),
    cw_woken := cw_woken x @ sleepers x, cw_queue := []\<rparr>"
  using assms by (auto simp: wake_all_def wake_all_loop_eq sleepers_def fun_eq_iff)

lemma wake_all_ok:
  assumes "cond_inv x"
  shows "cond_inv (wake_all x)"
proof -
  have d: "distinct (cw_queue x)" and ok: "\<And>w. wait_ok x w" using assms by (auto simp: cond_inv_def)
  have "wait_ok (wake_all x) w" for w
    unfolding wake_all_sleepers [OF d] using ok [of w] by (auto simp: wait_ok_def sleepers_def)
  then show ?thesis by (simp add: cond_inv_def wake_all_sleepers [OF d])
qed

text \<open>The waits that lock again own their futures, which have not returned yet.\<close>

definition relock_ok :: "cond_world \<Rightarrow> bool" where
  "relock_ok x \<longleftrightarrow>
     (\<forall>w f. cw_waits x w = Wait_Relock f \<longrightarrow> f < sw_next (cw_mutex x) \<and> \<not> fut_done (future_of (cw_mutex x) f)) \<and>
     (\<forall>w v f. cw_waits x w = Wait_Relock f \<longrightarrow> cw_waits x v = Wait_Relock f \<longrightarrow> w = v)"

lemma drop_future_done [simp]: "fut_done (future_of (drop_future g x) f) = fut_done (future_of x f)"
  "sw_next (drop_future g x) = sw_next x"
  by (auto simp: drop_future_def Let_def split: future_phase.split)

lemma sem_exec_done:
  assumes "f < sw_next x"
  shows "a \<noteq> Poll f \<Longrightarrow> fut_done (future_of (sem_exec a x) f) = fut_done (future_of x f)"
    and "f < sw_next (sem_exec a x)"
proof -
  have "a \<noteq> Poll f \<longrightarrow> fut_done (future_of (sem_exec a x) f) = fut_done (future_of x f)"
  proof (cases a)
    case (Poll g)
    then show ?thesis
      by (cases "fut_phase (future_of x g)") (auto simp: poll_future_def Let_def try_acquire_def)
  qed (use assms in \<open>auto simp: acquire_def acquire_now_def try_acquire_def poll_queue_def run_release_def Let_def
      drop_guard_def release_part_def release_call_def forget_guard_def split: option.split\<close>)
  then show "a \<noteq> Poll f \<Longrightarrow> fut_done (future_of (sem_exec a x) f) = fut_done (future_of x f)" by blast
  show "f < sw_next (sem_exec a x)"
  proof (cases a)
    case (Poll g)
    then show ?thesis using assms
      by (cases "fut_phase (future_of x g)") (auto simp: poll_future_def Let_def try_acquire_def)
  qed (use assms in \<open>auto simp: acquire_def acquire_now_def try_acquire_def poll_queue_def run_release_def Let_def
      drop_guard_def release_part_def release_call_def forget_guard_def split: option.split\<close>)
qed

lemma wake_fields [simp]: "cw_mutex (wake x) = cw_mutex x" "cw_waits (wake x) = cw_waits x" "cw_next (wake x) = cw_next x"
  by (simp_all add: wake_def split: prod.split)

lemma wake_all_fields [simp]:
  "cw_mutex (wake_all x) = cw_mutex x" "cw_waits (wake_all x) = cw_waits x" "cw_next (wake_all x) = cw_next x"
  by (simp_all add: wake_all_def split: prod.split)

text \<open>The invariant of the mutex and the condition variable together.\<close>

definition cond_all :: "cond_world \<Rightarrow> bool" where
  "cond_all x \<longleftrightarrow> cond_inv x \<and> relock_ok x \<and> sem_reach mutex_action 1 (cw_mutex x)"

lemmas mutex_step = sem_reach.step [of mutex_action 1]

lemma cond_all_mutex:
  assumes "cond_all x" and "mutex_action a (cw_mutex x)" and "\<And>w f. cw_waits x w = Wait_Relock f \<Longrightarrow> a \<noteq> Poll f"
  shows "cond_all (x\<lparr>cw_mutex := sem_exec a (cw_mutex x)\<rparr>)"
proof -
  have "cond_inv (x\<lparr>cw_mutex := sem_exec a (cw_mutex x)\<rparr>)" using assms(1) by (simp add: cond_all_def cond_inv_def wait_ok_def)
  moreover have "relock_ok (x\<lparr>cw_mutex := sem_exec a (cw_mutex x)\<rparr>)"
    using assms(1,3) sem_exec_done unfolding cond_all_def relock_ok_def by simp
  ultimately show ?thesis using assms(1,2) mutex_step by (simp add: cond_all_def)
qed

lemma cond_all_relock:
  assumes "cond_all x" and "cw_waits x w = Wait_Relock f"
  shows "cond_all (poll_relock w f x)"
proof -
  let ?m = "poll_future f (cw_mutex x)"
  have r: "relock_ok x" "cond_inv x" "sem_reach mutex_action 1 (cw_mutex x)" using assms(1) by (simp_all add: cond_all_def)
  have f: "f < sw_next (cw_mutex x)" "\<not> fut_done (future_of (cw_mutex x) f)" using r(1) assms(2) by (auto simp: relock_ok_def)
  have m: "sem_reach mutex_action 1 ?m" using mutex_step [OF r(3), of "Poll f"] mutex_actions(4) [OF f(2)] by simp
  have keep: "g < sw_next ?m" "g \<noteq> f \<Longrightarrow> fut_done (future_of ?m g) = fut_done (future_of (cw_mutex x) g)"
    if "g < sw_next (cw_mutex x)" for g
    using sem_exec_done [OF that, of "Poll f"] by auto
  have old: "cw_waits x v = Wait_Relock g" if "cw_waits (poll_relock w f x) v = Wait_Relock g" for v g
    using that assms(2) by (auto simp: poll_relock_def Let_def split: if_splits)
  have new: "g < sw_next ?m \<and> \<not> fut_done (future_of ?m g)" if v: "cw_waits (poll_relock w f x) v = Wait_Relock g" for v g
  proof (cases "g = f")
    case True
    then have "v = w" using r(1) old [OF v] assms(2) unfolding relock_ok_def by blast
    then show ?thesis using v True keep(1) [OF f(1)] by (auto simp: poll_relock_def Let_def split: if_splits)
  next
    case False
    then show ?thesis using r(1) old [OF v] keep [of g] by (auto simp: relock_ok_def)
  qed
  have "cw_mutex (poll_relock w f x) = ?m" by (simp add: poll_relock_def Let_def)
  then have "relock_ok (poll_relock w f x)"
    unfolding relock_ok_def using new old r(1) [unfolded relock_ok_def, THEN conjunct2] by metis
  moreover have "cond_inv (poll_relock w f x)"
    using r(2) assms(2) by (auto simp: cond_inv_def wait_ok_def poll_relock_def Let_def)
  ultimately show ?thesis using m by (simp add: cond_all_def poll_relock_def Let_def)
qed

lemma cond_all_wait:
  assumes "cond_all x" and "cw_waits x w = Wait_Wait"
  shows "cond_all (poll_wait w x)"
proof (cases "cw_status x w = STATUS_ACQUIRED")
  case True
  let ?f = "sw_next (cw_mutex x)"
  let ?y = "x\<lparr>cw_mutex := acquire 1 (cw_mutex x), cw_waits := (cw_waits x)(w := Wait_Relock ?f)\<rparr>"
  have r: "relock_ok x" "cond_inv x" "sem_reach mutex_action 1 (cw_mutex x)" using assms(1) by (simp_all add: cond_all_def)
  have "sem_reach mutex_action 1 (acquire 1 (cw_mutex x))"
    using mutex_step [OF r(3), of "Acquire 1"] mutex_actions(1) by simp
  moreover have "relock_ok ?y" using r(1) by (fastforce simp: relock_ok_def acquire_def)
  moreover have "cond_inv ?y" using r(2) assms(2) True by (auto simp: cond_inv_def wait_ok_def)
  ultimately have "cond_all ?y" by (simp add: cond_all_def)
  then show ?thesis using True cond_all_relock [of ?y w ?f] by (simp add: poll_wait_def Let_def)
qed (use assms in \<open>simp add: poll_wait_def\<close>)

lemma cond_all_init:
  assumes "cond_all x" and "cw_waits x w = Wait_Init"
  shows "cond_all (poll_init w x)"
proof -
  let ?x = "cond_queue w x"
  let ?y = "?x\<lparr>cw_waits := (cw_waits ?x)(w := Wait_Wait), cw_mutex := drop_guard 1 (cw_mutex ?x)\<rparr>"
  have r: "relock_ok x" "cond_inv x" "sem_reach mutex_action 1 (cw_mutex x)" using assms(1) by (simp_all add: cond_all_def)
  have "sem_reach mutex_action 1 (drop_guard 1 (cw_mutex x))"
    using mutex_step [OF r(3), of "Drop_Guard 1"] mutex_actions(3) by (simp add: semaphore_step_def)
  moreover have "relock_ok ?y" using r(1) by (auto simp: relock_ok_def cond_queue_def drop_guard_def)
  moreover have "cond_inv ?y" using r(2) assms(2) by (auto simp: cond_inv_def wait_ok_def cond_queue_def)
  ultimately have "cond_all ?y" by (simp add: cond_all_def cond_queue_def)
  then show ?thesis using cond_all_wait [of ?y w] by (simp add: poll_init_def Let_def)
qed

lemma relock_ok_cong:
  assumes "relock_ok x" and "cw_waits y = cw_waits x" and "sw_next (cw_mutex y) = sw_next (cw_mutex x)"
    and "\<And>f. fut_done (future_of (cw_mutex y) f) = fut_done (future_of (cw_mutex x) f)"
  shows "relock_ok y"
  using assms(1) unfolding relock_ok_def assms(2-4) .

lemma cond_inv_mutex [simp]: "cond_inv (x\<lparr>cw_mutex := m\<rparr>) = cond_inv x"
  by (simp add: cond_inv_def wait_ok_def)

lemma cond_inv_end:
  assumes "cond_inv x" and "cw_waits x w \<noteq> Wait_Wait"
  shows "cond_inv (x\<lparr>cw_waits := (cw_waits x)(w := Wait_Dropped)\<rparr>)"
proof -
  have "wait_ok (x\<lparr>cw_waits := (cw_waits x)(w := Wait_Dropped)\<rparr>) v" for v
    using spec [OF assms(1) [unfolded cond_inv_def, THEN conjunct2], of v] assms(2)
    by (cases "v = w") (simp_all add: wait_ok_def)
  then show ?thesis using assms(1) by (simp add: cond_inv_def)
qed

lemma cond_all_wake: "cond_all x \<Longrightarrow> cond_all (wake x)"
  using wake_ok [of x] relock_ok_cong [of x "wake x"] by (simp add: cond_all_def)

lemma cond_all_drop:
  assumes "cond_all x"
  shows "cond_all (cond_drop w x)"
proof -
  have r: "relock_ok x" "cond_inv x" "sem_reach mutex_action 1 (cw_mutex x)" using assms(1) by (simp_all add: cond_all_def)
  have step: "sem_reach mutex_action 1 (drop_guard 1 (cw_mutex x))" "sem_reach mutex_action 1 (drop_future f (cw_mutex x))" for f
    using mutex_step [OF r(3), of "Drop_Guard 1"] mutex_step [OF r(3), of "Drop_Future f"] mutex_actions(3)
    by (simp_all add: semaphore_step_def)
  let ?x = "x\<lparr>cw_waits := (cw_waits x)(w := Wait_Dropped)\<rparr>"
  have relock: "relock_ok ?x" using r(1) by (auto simp: relock_ok_def)
  show ?thesis
  proof (cases "cw_waits x w")
    case Wait_Init
    have "relock_ok (?x\<lparr>cw_mutex := drop_guard 1 (cw_mutex x)\<rparr>)" by (rule relock_ok_cong [OF relock]) (simp_all add: drop_guard_def)
    moreover have "cond_inv (?x\<lparr>cw_mutex := drop_guard 1 (cw_mutex x)\<rparr>)"
      using cond_inv_end [OF r(2), of w] Wait_Init by simp
    ultimately show ?thesis using Wait_Init step by (simp add: cond_all_def cond_drop_def Let_def)
  next
    case Wait_Wait
    let ?y = "?x\<lparr>cw_status := (cw_status x)(w := STATUS_GIVEUP)\<rparr>"
    have "wait_ok ?y v" for v
      using spec [OF r(2) [unfolded cond_inv_def, THEN conjunct2], of v] Wait_Wait by (cases "v = w") (auto simp: wait_ok_def)
    then have "cond_inv ?y" using r(2) by (simp add: cond_inv_def)
    moreover have "relock_ok ?y" by (rule relock_ok_cong [OF relock]) simp_all
    ultimately have "cond_all ?y" using r(3) by (simp add: cond_all_def)
    moreover have "cond_drop w x = (if cw_status x w = STATUS_ACQUIRED then wake ?y else ?y)"
      using Wait_Wait by (simp add: cond_drop_def Let_def)
    ultimately show ?thesis using cond_all_wake [of ?y] by simp
  next
    case (Wait_Relock f)
    have "cond_inv ?x" using cond_inv_end [OF r(2), of w] Wait_Relock by simp
    from wake_ok [OF this] have "cond_inv ((wake ?x)\<lparr>cw_mutex := drop_future f (cw_mutex (wake ?x))\<rparr>)" by simp
    moreover have "relock_ok ((wake ?x)\<lparr>cw_mutex := drop_future f (cw_mutex (wake ?x))\<rparr>)"
      by (rule relock_ok_cong [OF relock]) simp_all
    ultimately show ?thesis using Wait_Relock step by (simp add: cond_all_def cond_drop_def Let_def)
  next
    case Wait_Done
    then show ?thesis using r relock cond_inv_end [OF r(2), of w] by (simp add: cond_all_def cond_drop_def Let_def)
  qed (use assms in \<open>simp add: cond_drop_def Let_def\<close>)
qed

lemma cond_reach_all: "cond_reach x \<Longrightarrow> cond_all x"
proof (induction rule: cond_reach.induct)
  case new
  then show ?case by (simp add: cond_all_def cond_inv_def wait_ok_def relock_ok_def condvar_new_def sem_reach.start)
next
  case (wait x)
  show ?case
  proof (cases "sw_guards (cw_mutex x) = {#}")
    case False
    let ?y = "x\<lparr>cw_waits := (cw_waits x)(cw_next x := Wait_Init), cw_next := Suc (cw_next x)\<rparr>"
    have x: "cond_inv x" "relock_ok x" "sem_reach mutex_action 1 (cw_mutex x)" using wait.IH by (simp_all add: cond_all_def)
    have "wait_ok ?y v" for v
      using spec [OF x(1) [unfolded cond_inv_def, THEN conjunct2], of v] by (cases "v = cw_next x") (auto simp: wait_ok_def)
    then have "cond_inv ?y" using x(1) by (simp add: cond_inv_def)
    moreover have "relock_ok ?y" using x(2) by (auto simp: relock_ok_def)
    ultimately show ?thesis using False x(3) by (simp add: cond_wait_def cond_all_def)
  qed (use wait.IH in \<open>simp add: cond_wait_def\<close>)
next
  case (wakes x)
  then show ?case by (simp add: cond_all_wake)
next
  case (wakes_all x)
  then show ?case using wake_all_ok [of x] relock_ok_cong [of x "wake_all x"] by (simp add: cond_all_def)
next
  case (polls x w y)
  then show ?case
    by (auto simp: cond_poll_def cond_all_init cond_all_wait cond_all_relock split: CondvarWaitInner.splits)
next
  case (drops x w)
  then show ?case by (simp add: cond_all_drop)
next
  case (mutex x a)
  then show ?case by (intro cond_all_mutex) auto
qed

section \<open>The properties\<close>

lemma sleeping_in_queue:
  assumes "cond_inv x" and "cw_waits x w = Wait_Wait" and "cw_status x w \<noteq> STATUS_ACQUIRED"
  shows "w \<in> set (sleepers x)"
  using spec [OF assms(1) [unfolded cond_inv_def, THEN conjunct2], of w] assms(2,3)
  by (auto simp: wait_ok_def sleepers_def)


text \<open>A task locks the mutex and waits.\<close>

definition example_wait :: cond_world where
  "example_wait = poll_init 0 (cond_wait (condvar_new\<lparr>cw_mutex := acquire_now 1 (cw_mutex condvar_new)\<rparr>))"

lemma example_wait_reach: "cond_reach example_wait"
proof -
  let ?x = "condvar_new\<lparr>cw_mutex := acquire_now 1 (cw_mutex condvar_new)\<rparr>"
  have "cond_reach (condvar_new\<lparr>cw_mutex := sem_exec (Try_Acquire 1) (cw_mutex condvar_new)\<rparr>)"
    by (rule cond_reach.mutex [OF cond_reach.new mutex_actions(2)]) (simp add: condvar_new_def)
  then have r: "cond_reach (cond_wait ?x)" by (intro cond_reach.wait) simp
  have "cond_poll 0 (cond_wait ?x) = Some example_wait"
    by (simp add: cond_poll_def example_wait_def cond_wait_def condvar_new_def sem_op_defs)
  then show ?thesis using cond_reach.polls [OF r] by blast
qed

lemma example_wait_state:
  "cw_waits example_wait 0 = Wait_Wait" "cw_status example_wait 0 = STATUS_WAITING" "cw_queue example_wait = [0]"
  by (simp_all add: example_wait_def poll_init_def poll_wait_def cond_queue_def cond_wait_def condvar_new_def sem_op_defs)


text \<open>
  A wake-up is not lost with its receiver: if a wait that has been woken is dropped, whether it was
  already locking the mutex again or not, the first one that still waits is woken instead.
\<close>

theorem condvar_cancel_passes_on:
  assumes "cond_reach x" and "cw_waits x w = Wait_Wait \<and> cw_status x w = STATUS_ACQUIRED \<or> cw_waits x w = Wait_Relock f"
    and "sleepers x = v # vs"
  shows "cw_status (cond_drop w x) v = STATUS_ACQUIRED \<and> sleepers (cond_drop w x) = vs \<and> cw_woken (cond_drop w x) = cw_woken x @ [v]"
proof -
  have inv: "cond_inv x" using cond_reach_all [OF assms(1)] by (simp add: cond_all_def)
  then have d: "distinct (cw_queue x)" and ok: "wait_ok x w" by (simp_all add: cond_inv_def)
  let ?x = "x\<lparr>cw_waits := (cw_waits x)(w := Wait_Dropped)\<rparr>"
  from assms(2) show ?thesis
  proof
    assume w: "cw_waits x w = Wait_Wait \<and> cw_status x w = STATUS_ACQUIRED"
    let ?y = "?x\<lparr>cw_status := (cw_status x)(w := STATUS_GIVEUP)\<rparr>"
    have "w \<notin> set (cw_queue x)" using ok w by (auto simp: wait_ok_def)
    then have "sleepers ?y = v # vs" using assms(3) w by (simp add: sleepers_def) (metis (mono_tags, lifting) filter_cong)
    moreover have "cond_drop w x = wake ?y" using w by (simp add: cond_drop_def Let_def)
    ultimately show ?thesis using wake_sleepers(2) [of ?y v vs] d by auto
  next
    assume w: "cw_waits x w = Wait_Relock f"
    have "sleepers ?x = v # vs" using assms(3) by (simp add: sleepers_def)
    moreover have "cond_drop w x = (wake ?x)\<lparr>cw_mutex := drop_future f (cw_mutex (wake ?x))\<rparr>"
      using w by (simp add: cond_drop_def Let_def)
    moreover have "sleepers ((wake ?x)\<lparr>cw_mutex := m\<rparr>) = sleepers (wake ?x)" for m by (simp add: sleepers_def)
    ultimately show ?thesis using wake_sleepers(2) [of ?x v vs] d by auto
  qed
qed

text \<open>Two tasks wait, and the first is woken.\<close>

definition example_two_waits :: cond_world where
  "example_two_waits = wake (poll_init 1 (cond_wait (example_wait\<lparr>cw_mutex :=
     acquire_now 1 (run_release None 1 (cw_mutex example_wait))\<rparr>)))"

lemma example_two_reach: "cond_reach example_two_waits"
proof -
  let ?m = "cw_mutex example_wait"
  let ?x = "example_wait\<lparr>cw_mutex := acquire_now 1 (run_release None 1 ?m)\<rparr>"
  have none: "cw_waits example_wait w \<noteq> Wait_Relock f" for w f
    by (simp add: example_wait_def poll_init_def poll_wait_def cond_queue_def cond_wait_def condvar_new_def sem_op_defs)
  have "cond_reach (example_wait\<lparr>cw_mutex := sem_exec (Run_Release None 1) ?m\<rparr>)"
    by (rule cond_reach.mutex [OF example_wait_reach mutex_actions(3)]) (use none in \<open>auto simp: semaphore_step_def\<close>)
  from cond_reach.mutex [OF this mutex_actions(2)] have "cond_reach ?x" using none by simp
  then have r: "cond_reach (cond_wait ?x)" by (rule cond_reach.wait)
  have "cond_poll 1 (cond_wait ?x) = Some (poll_init 1 (cond_wait ?x))"
    by (simp add: cond_poll_def example_wait_def poll_init_def poll_wait_def cond_queue_def cond_wait_def condvar_new_def sem_op_defs)
  from cond_reach.wakes [OF cond_reach.polls [OF r this]] show ?thesis by (simp add: example_two_waits_def)
qed

lemma example_two_state:
  "cw_waits example_two_waits 0 = Wait_Wait" "cw_status example_two_waits 0 = STATUS_ACQUIRED" "sleepers example_two_waits = [1]"
  by (simp_all add: example_two_waits_def wake_def example_wait_def poll_init_def poll_wait_def cond_queue_def cond_wait_def
      condvar_new_def sleepers_def sem_op_defs)

theorem condvar_cancel_passes_on_witness:
  "cw_status example_two_waits 1 = STATUS_WAITING \<and> cw_status (cond_drop 0 example_two_waits) 1 = STATUS_ACQUIRED"
proof -
  have "1 \<in> set (sleepers example_two_waits)" by (simp add: example_two_state)
  then show ?thesis
    using condvar_cancel_passes_on [OF example_two_reach _ example_two_state(3), of 0] example_two_state(1,2)
    by (simp add: sleepers_def)
qed

text \<open>
  A condition variable keeps its mutex exclusive: in every run of tasks that lock, unlock and wait,
  give up waiting and wake each other, the mutex has at most one guard.
\<close>

theorem condvar_mutex_exclusive:
  assumes "cond_reach x"
  shows "size (sw_guards (cw_mutex x)) \<le> 1"
proof (cases "sw_guards (cw_mutex x) = {#}")
  case False
  have r: "sem_reach mutex_action 1 (cw_mutex x)" using cond_reach_all [OF assms] by (simp add: cond_all_def)
  obtain n where n: "n \<in># sw_guards (cw_mutex x)" using False by (meson multiset_nonemptyE)
  then have "n = 1" using mutex_permits.guard_sizes [OF r] by simp
  then show ?thesis using mutex_permits.all_permits_alone [OF r] n by simp
qed simp

theorem condvar_mutex_exclusive_witness: "size (sw_guards (cw_mutex example_two_waits)) \<le> 1"
  using condvar_mutex_exclusive [OF example_two_reach] .

end
