(* ===== verification/Async_Watch.thy ===== *)
theory Async_Watch
  imports Prelude
begin

text \<open>
  The publisher and subscribers of \<open>library/async_locks/src/watch.rs\<close>.

  The steps are the sections under the spin locks and the atomic operations: \<open>send\<close> stores the value,
  advances the version and wakes the subscribers; \<open>sync\<close> loads the version and then copies the value.
  The steps of the publisher and of the subscribers interleave.  A waker slot is known by the number of
  its subscriber; a stored waker is the number of a task, or none for the one that does nothing.
\<close>

section \<open>State\<close>

datatype publisher_phase = Pub_Idle | Pub_Stored | Pub_Advanced | Pub_Dropping | Pub_Dropped

record 'a Subscriber =
  sub_version :: nat
  sub_value :: 'a
  sub_loaded :: bool
  sub_waker :: "nat option"
  sub_init_waker :: bool

text \<open>\<open>wi_log\<close> is no field of the program: it lists the values stored so far.\<close>

record 'a watch_world =
  wi_lost :: bool
  wi_value :: 'a
  wi_version :: nat
  wi_slots :: "nat list"
  wi_subs :: "nat \<Rightarrow> 'a Subscriber option"
  wi_next :: nat
  wi_phase :: publisher_phase
  wi_woken :: "nat list"
  wi_log :: "'a list"

definition subscriber_new :: "nat \<Rightarrow> 'a \<Rightarrow> 'a Subscriber" where
  "subscriber_new version v =
     \<lparr>sub_version = version, sub_value = v, sub_loaded = False, sub_waker = None, sub_init_waker = False\<rparr>"

definition watch_pair :: "'a \<Rightarrow> 'a watch_world" where
  "watch_pair v =
     \<lparr>wi_lost = False, wi_value = v, wi_version = 0, wi_slots = [0], wi_subs = [0 \<mapsto> subscriber_new 0 v],
      wi_next = 1, wi_phase = Pub_Idle, wi_woken = [], wi_log = [v]\<rparr>"

section \<open>The publisher\<close>

text \<open>The wakers that the slots hold, in the order of the slots.\<close>

definition wakers_of :: "'a watch_world \<Rightarrow> nat list" where
  "wakers_of x = List.map_filter (\<lambda>i. Option.bind (wi_subs x i) sub_waker) (wi_slots x)"

definition send_store :: "'a \<Rightarrow> 'a watch_world \<Rightarrow> 'a watch_world" where
  "send_store v x =
    (if wi_phase x = Pub_Idle
     then x\<lparr>wi_value := v, wi_log := wi_log x @ [v], wi_phase := Pub_Stored\<rparr> else x)"

definition send_advance :: "'a watch_world \<Rightarrow> 'a watch_world" where
  "send_advance x =
    (if wi_phase x = Pub_Stored
     then x\<lparr>wi_version := wadd64 (wi_version x) 1, wi_phase := Pub_Advanced\<rparr> else x)"

definition send_wake :: "'a watch_world \<Rightarrow> 'a watch_world" where
  "send_wake x =
    (if wi_phase x = Pub_Advanced
     then x\<lparr>wi_woken := wi_woken x @ wakers_of x, wi_phase := Pub_Idle\<rparr> else x)"

definition drop_publisher :: "'a watch_world \<Rightarrow> 'a watch_world" where
  "drop_publisher x = (if wi_phase x = Pub_Idle then x\<lparr>wi_lost := True, wi_phase := Pub_Dropping\<rparr> else x)"

definition drop_publisher_wake :: "'a watch_world \<Rightarrow> 'a watch_world" where
  "drop_publisher_wake x =
    (if wi_phase x = Pub_Dropping
     then x\<lparr>wi_woken := wi_woken x @ wakers_of x, wi_phase := Pub_Dropped\<rparr> else x)"

section \<open>Subscribers\<close>

text \<open>The two halves of \<open>sync\<close>; the first returns whether the version has changed.\<close>

definition sync_load :: "nat \<Rightarrow> 'a watch_world \<Rightarrow> bool \<times> 'a watch_world" where
  "sync_load i x =
    (case wi_subs x i of
       Some u \<Rightarrow>
         if wi_version x \<noteq> sub_version u
         then (True, x\<lparr>wi_subs := (wi_subs x)(i \<mapsto> u\<lparr>sub_version := wi_version x, sub_loaded := True\<rparr>)\<rparr>)
         else (False, x)
     | None \<Rightarrow> (False, x))"

definition sync_copy :: "nat \<Rightarrow> 'a watch_world \<Rightarrow> 'a watch_world" where
  "sync_copy i x =
    (case wi_subs x i of
       Some u \<Rightarrow>
         if sub_loaded u
         then x\<lparr>wi_subs := (wi_subs x)(i \<mapsto> u\<lparr>sub_value := wi_value x, sub_loaded := False\<rparr>)\<rparr> else x
     | None \<Rightarrow> x)"

definition clone_subscriber :: "nat \<Rightarrow> 'a watch_world \<Rightarrow> 'a watch_world" where
  "clone_subscriber i x =
    (case wi_subs x i of
       Some u \<Rightarrow>
         if sub_loaded u then x
         else x\<lparr>wi_slots := (if wi_lost x then wi_slots x else wi_slots x @ [wi_next x]),
                wi_subs := (wi_subs x)(wi_next x \<mapsto> subscriber_new (sub_version u) (sub_value u)),
                wi_next := Suc (wi_next x)\<rparr>
     | None \<Rightarrow> x)"

text \<open>A subscriber cannot be dropped while it is borrowed by a call that is under way.\<close>

definition drop_subscriber :: "nat \<Rightarrow> 'a watch_world \<Rightarrow> 'a watch_world" where
  "drop_subscriber i x =
    (case wi_subs x i of
       Some u \<Rightarrow>
         if sub_loaded u then x
         else x\<lparr>wi_slots := filter (\<lambda>k. k \<noteq> i) (wi_slots x), wi_subs := (wi_subs x)(i := None)\<rparr>
     | None \<Rightarrow> x)"

text \<open>
  \<open>SubscriberChanged::poll\<close> by the task \<open>t\<close>, up to the copy of the value; the outcome is that the
  publisher is lost, that there is a new value, or that the task has to wait.
\<close>

datatype poll_outcome = Publisher_Lost | Changed | Pending

definition set_waker :: "nat \<Rightarrow> nat option \<Rightarrow> bool \<Rightarrow> 'a watch_world \<Rightarrow> 'a watch_world" where
  "set_waker i w init x =
    (case wi_subs x i of
       Some u \<Rightarrow> x\<lparr>wi_subs := (wi_subs x)(i \<mapsto> u\<lparr>sub_waker := w, sub_init_waker := init\<rparr>)\<rparr>
     | None \<Rightarrow> x)"

definition poll_changed :: "nat \<Rightarrow> nat \<Rightarrow> 'a watch_world \<Rightarrow> poll_outcome \<times> 'a watch_world" where
  "poll_changed i t x =
    (let x1 = (if map_option sub_init_waker (wi_subs x i) = Some False then set_waker i (Some t) True x else x)
     in if wi_lost x1 then (Publisher_Lost, set_waker i (Some t) False x1)
        else case sync_load i x1 of
          (True, x2) \<Rightarrow> (Changed, set_waker i (Some t) False x2)
        | (False, x2) \<Rightarrow> (Pending, x2))"

definition drop_changed :: "nat \<Rightarrow> 'a watch_world \<Rightarrow> 'a watch_world" where
  "drop_changed i x =
    (case wi_subs x i of
       Some u \<Rightarrow> if sub_init_waker u then x\<lparr>wi_subs := (wi_subs x)(i \<mapsto> u\<lparr>sub_waker := None, sub_init_waker := False\<rparr>)\<rparr> else x
     | None \<Rightarrow> x)"

inductive watch_reach :: "'a watch_world \<Rightarrow> bool" where
  pair: "watch_reach (watch_pair v)"
| store: "watch_reach x \<Longrightarrow> length (wi_log x) < 2 ^ 64 \<Longrightarrow> watch_reach (send_store v x)"
| advance: "watch_reach x \<Longrightarrow> watch_reach (send_advance x)"
| wakes: "watch_reach x \<Longrightarrow> watch_reach (send_wake x)"
| drop_pub: "watch_reach x \<Longrightarrow> watch_reach (drop_publisher x)"
| drop_pub_wake: "watch_reach x \<Longrightarrow> watch_reach (drop_publisher_wake x)"
| load: "watch_reach x \<Longrightarrow> watch_reach (snd (sync_load i x))"
| copy: "watch_reach x \<Longrightarrow> watch_reach (sync_copy i x)"
| clone: "watch_reach x \<Longrightarrow> watch_reach (clone_subscriber i x)"
| drop_sub: "watch_reach x \<Longrightarrow> watch_reach (drop_subscriber i x)"
| poll: "watch_reach x \<Longrightarrow> watch_reach (snd (poll_changed i t x))"
| drop_poll: "watch_reach x \<Longrightarrow> watch_reach (drop_changed i x)"

section \<open>The invariant\<close>

text \<open>
  The version counts the values whose storing is finished.  A subscriber's value is at least as recent
  as its version.  Every subscriber has its slot while the publisher is there.
\<close>

definition pub_ok :: "'a watch_world \<Rightarrow> bool" where
  "pub_ok x \<longleftrightarrow> wi_log x \<noteq> [] \<and> last (wi_log x) = wi_value x \<and> length (wi_log x) \<le> 2 ^ 64 \<and>
     length (wi_log x) = wi_version x + (if wi_phase x = Pub_Stored then 2 else 1) \<and>
     (wi_lost x \<longrightarrow> wi_phase x = Pub_Dropping \<or> wi_phase x = Pub_Dropped)"

definition sub_ok :: "'a watch_world \<Rightarrow> nat \<Rightarrow> 'a Subscriber \<Rightarrow> bool" where
  "sub_ok x i u \<longleftrightarrow> i < wi_next x \<and> sub_version u \<le> wi_version x \<and>
     (\<not> sub_loaded u \<longrightarrow> (\<exists>k < length (wi_log x). sub_version u \<le> k \<and> sub_value u = wi_log x ! k)) \<and>
     (\<not> wi_lost x \<longrightarrow> i \<in> set (wi_slots x)) \<and> (sub_init_waker u \<longrightarrow> sub_waker u \<noteq> None)"

definition watch_inv :: "'a watch_world \<Rightarrow> bool" where
  "watch_inv x \<longleftrightarrow> pub_ok x \<and> (\<forall>i u. wi_subs x i = Some u \<longrightarrow> sub_ok x i u)"

lemma watch_inv_sub:
  assumes "watch_inv x" and "pub_ok y" and "\<And>i u. wi_subs y i = Some u \<Longrightarrow> wi_subs x i = Some u \<Longrightarrow> sub_ok x i u \<Longrightarrow> sub_ok y i u"
    and "\<And>i u. wi_subs y i = Some u \<Longrightarrow> wi_subs x i \<noteq> Some u \<Longrightarrow> sub_ok y i u"
  shows "watch_inv y"
  using assms unfolding watch_inv_def by metis

lemma sub_value_recent: "pub_ok x \<Longrightarrow> sub_version u \<le> wi_version x \<Longrightarrow>
    \<exists>k < length (wi_log x). sub_version u \<le> k \<and> wi_value x = wi_log x ! k"
  by (rule exI [of _ "length (wi_log x) - 1"]) (auto simp: pub_ok_def last_conv_nth)

lemma watch_inv_publisher:
  assumes "watch_inv x"
  shows "length (wi_log x) < 2 ^ 64 \<Longrightarrow> watch_inv (send_store v x)" and "watch_inv (send_advance x)"
    and "watch_inv (send_wake x)" and "watch_inv (drop_publisher x)" and "watch_inv (drop_publisher_wake x)"
proof -
  have p: "pub_ok x" and s: "\<And>i u. wi_subs x i = Some u \<Longrightarrow> sub_ok x i u" using assms by (auto simp: watch_inv_def)
  show "watch_inv (send_store v x)" if "length (wi_log x) < 2 ^ 64"
  proof (rule watch_inv_sub [OF assms])
    show "pub_ok (send_store v x)" using p that by (auto simp: pub_ok_def send_store_def)
    show "sub_ok (send_store v x) i u" if "sub_ok x i u" for i u
      using that by (auto simp: sub_ok_def send_store_def nth_append)
    show "sub_ok (send_store v x) i u" if "wi_subs (send_store v x) i = Some u" "wi_subs x i \<noteq> Some u" for i u
      using that by (auto simp: send_store_def split: if_splits)
  qed
  show "watch_inv (send_advance x)"
  proof (rule watch_inv_sub [OF assms])
    show "pub_ok (send_advance x)" using p by (auto simp: pub_ok_def send_advance_def wadd64_def)
    show "sub_ok (send_advance x) i u" if "sub_ok x i u" for i u
      using that p by (auto simp: sub_ok_def send_advance_def wadd64_def pub_ok_def)
    show "sub_ok (send_advance x) i u" if "wi_subs (send_advance x) i = Some u" "wi_subs x i \<noteq> Some u" for i u
      using that by (auto simp: send_advance_def split: if_splits)
  qed
  show "watch_inv (send_wake x)" "watch_inv (drop_publisher x)" "watch_inv (drop_publisher_wake x)"
    using p s by (auto simp: watch_inv_def pub_ok_def sub_ok_def send_wake_def drop_publisher_def drop_publisher_wake_def)
qed

text \<open>A change of one subscriber that keeps its version and value.\<close>

lemma watch_inv_update:
  assumes "watch_inv x" and "wi_subs x i = Some u" and "sub_version u' = sub_version u" and "sub_value u' = sub_value u"
    and "sub_loaded u' = sub_loaded u" and "sub_init_waker u' \<Longrightarrow> sub_waker u' \<noteq> None"
  shows "watch_inv (x\<lparr>wi_subs := (wi_subs x)(i \<mapsto> u')\<rparr>)"
  using assms by (auto simp: watch_inv_def pub_ok_def sub_ok_def split: if_splits)

lemma watch_inv_set_waker:
  "watch_inv x \<Longrightarrow> init \<longrightarrow> w \<noteq> None \<Longrightarrow> watch_inv (set_waker i w init x)"
  unfolding set_waker_def by (auto split: option.split intro!: watch_inv_update)

lemma watch_inv_load:
  assumes "watch_inv x"
  shows "watch_inv (snd (sync_load i x))"
proof -
  have "watch_inv (x\<lparr>wi_subs := (wi_subs x)(i \<mapsto> u\<lparr>sub_version := wi_version x, sub_loaded := True\<rparr>)\<rparr>)"
    if "wi_subs x i = Some u" for u
    using assms that by (auto simp: watch_inv_def pub_ok_def sub_ok_def split: if_splits)
  then show ?thesis using assms by (auto simp: sync_load_def split: option.split)
qed

lemma watch_inv_copy:
  assumes "watch_inv x"
  shows "watch_inv (sync_copy i x)"
proof -
  have "watch_inv (x\<lparr>wi_subs := (wi_subs x)(i \<mapsto> u\<lparr>sub_value := wi_value x, sub_loaded := False\<rparr>)\<rparr>)"
    if u: "wi_subs x i = Some u" for u
  proof (rule watch_inv_sub [OF assms])
    have p: "pub_ok x" and s: "sub_ok x i u" using assms u by (auto simp: watch_inv_def)
    then show "pub_ok (x\<lparr>wi_subs := (wi_subs x)(i \<mapsto> u\<lparr>sub_value := wi_value x, sub_loaded := False\<rparr>)\<rparr>)"
      by (simp add: pub_ok_def)
    have "sub_version u \<le> wi_version x" using s by (simp add: sub_ok_def)
    from sub_value_recent [OF p this]
    have new: "sub_ok x i (u\<lparr>sub_value := wi_value x, sub_loaded := False\<rparr>)" using s by (auto simp: sub_ok_def)
    show "sub_ok (x\<lparr>wi_subs := (wi_subs x)(i \<mapsto> u\<lparr>sub_value := wi_value x, sub_loaded := False\<rparr>)\<rparr>) j v"
      if "wi_subs (x\<lparr>wi_subs := (wi_subs x)(i \<mapsto> u\<lparr>sub_value := wi_value x, sub_loaded := False\<rparr>)\<rparr>) j = Some v"
        "wi_subs x j \<noteq> Some v" for j v
      using that new by (auto simp: sub_ok_def split: if_splits)
  qed (simp add: sub_ok_def)
  then show ?thesis using assms by (auto simp: sync_copy_def split: option.split)
qed

lemma watch_inv_clone: "watch_inv x \<Longrightarrow> watch_inv (clone_subscriber i x)"
  by (auto simp: clone_subscriber_def watch_inv_def pub_ok_def sub_ok_def subscriber_new_def split: option.split if_splits)
     (metis less_Suc_eq)+

lemma watch_inv_drop: "watch_inv x \<Longrightarrow> watch_inv (drop_subscriber i x)"
  by (auto simp: drop_subscriber_def watch_inv_def pub_ok_def sub_ok_def split: option.split if_splits)

lemma watch_inv_drop_changed: "watch_inv x \<Longrightarrow> watch_inv (drop_changed i x)"
  unfolding drop_changed_def by (auto split: option.split intro!: watch_inv_update)

lemma watch_inv_poll:
  assumes "watch_inv x"
  shows "watch_inv (snd (poll_changed i t x))"
proof -
  define z where "z = (if map_option sub_init_waker (wi_subs x i) = Some False then set_waker i (Some t) True x else x)"
  have z: "watch_inv z" using watch_inv_set_waker [OF assms] assms by (simp add: z_def)
  obtain b y where y: "sync_load i z = (b, y)" by fastforce
  then have "watch_inv y" using watch_inv_load [OF z, of i] by simp
  then have "watch_inv (set_waker i (Some t) False z)" "watch_inv (set_waker i (Some t) False y)" "watch_inv y"
    using watch_inv_set_waker [of y False "Some t" i] watch_inv_set_waker [OF z, of False "Some t" i] by simp_all
  then show ?thesis
    unfolding poll_changed_def Let_def z_def [symmetric] y by (simp split: bool.split)
qed

lemma watch_reach_inv: "watch_reach x \<Longrightarrow> watch_inv x"
proof (induction rule: watch_reach.induct)
  case (pair v)
  show ?case by (auto simp: watch_pair_def watch_inv_def pub_ok_def sub_ok_def subscriber_new_def split: if_splits)
qed (simp_all add: watch_inv_publisher watch_inv_load watch_inv_copy watch_inv_clone watch_inv_drop watch_inv_poll
    watch_inv_drop_changed)

section \<open>The properties\<close>

text \<open>
  C35. A subscriber never takes an old value for the latest: in every interleaving with a publisher,
  whenever its version is the current one - so that a poll would wait - and no value is being stored,
  its value is the one sent last.
\<close>

theorem watch_consistent:
  assumes "watch_reach x" and "wi_subs x i = Some u" and "\<not> sub_loaded u" and "sub_version u = wi_version x"
    and "wi_phase x \<noteq> Pub_Stored"
  shows "sub_value u = wi_value x"
proof -
  have p: "pub_ok x" and s: "sub_ok x i u" using watch_reach_inv [OF assms(1)] assms(2) by (auto simp: watch_inv_def)
  obtain k where k: "k < length (wi_log x)" "sub_version u \<le> k" "sub_value u = wi_log x ! k"
    using s assms(3) by (auto simp: sub_ok_def)
  then have "k = length (wi_log x) - 1" using p assms(4,5) by (simp add: pub_ok_def)
  moreover have "last (wi_log x) = wi_value x" "wi_log x \<noteq> []" using p by (simp_all add: pub_ok_def)
  ultimately show ?thesis using k(3) by (simp add: last_conv_nth)
qed

text \<open>A subscriber that has seen the first of two values.\<close>

definition example_watch :: "nat watch_world" where
  "example_watch = send_wake (send_advance (send_store 8
     (sync_copy 0 (snd (poll_changed 0 5 (send_wake (send_advance (send_store 7 (watch_pair 6)))))))))"

lemma example_watch_reach: "watch_reach example_watch"
proof -
  have "watch_reach (send_store 7 (watch_pair 6))"
    by (intro watch_reach.store watch_reach.pair) (simp add: watch_pair_def)
  then have "watch_reach (sync_copy 0 (snd (poll_changed 0 5 (send_wake (send_advance (send_store 7 (watch_pair 6)))))))"
    by (intro watch_reach.copy watch_reach.poll watch_reach.wakes watch_reach.advance)
  then show ?thesis unfolding example_watch_def
    by (intro watch_reach.wakes watch_reach.advance watch_reach.store)
       (simp_all add: watch_pair_def subscriber_new_def send_store_def send_advance_def send_wake_def poll_changed_def
         set_waker_def sync_load_def sync_copy_def wadd64_def)
qed

lemmas watch_op_defs = example_watch_def watch_pair_def subscriber_new_def send_store_def send_advance_def send_wake_def
  poll_changed_def set_waker_def sync_load_def sync_copy_def wadd64_def wakers_of_def map_filter_def Let_def

theorem watch_consistent_witness:
  "map_option sub_value (wi_subs (sync_copy 0 (snd (sync_load 0 example_watch))) 0) = Some 8"
proof -
  let ?x = "sync_copy 0 (snd (sync_load 0 example_watch))"
  have r: "watch_reach ?x" by (intro watch_reach.copy watch_reach.load example_watch_reach)
  obtain u where u: "wi_subs ?x 0 = Some u" "\<not> sub_loaded u" "sub_version u = wi_version ?x" "wi_phase ?x \<noteq> Pub_Stored"
    "wi_value ?x = 8"
    by (simp add: watch_op_defs)
  then show ?thesis using watch_consistent [OF r u(1-4)] by simp
qed



text \<open>
  A value sent just before the publisher is dropped does not reach a subscriber that waits: the poll
  reports that the publisher is lost although there is a value the subscriber has not seen.
\<close>

theorem watch_last_value_unseen:
  assumes "watch_reach x" and "wi_lost x" and "wi_subs x i = Some u"
  shows "fst (poll_changed i t x) = Publisher_Lost"
  using assms(2,3) by (simp add: poll_changed_def set_waker_def)

theorem watch_last_value_unseen_witness:
  "let x = drop_publisher example_watch
   in fst (poll_changed 0 5 x) = Publisher_Lost \<and> map_option sub_value (wi_subs x 0) = Some 7 \<and> wi_value x = 8"
proof -
  let ?x = "drop_publisher example_watch"
  have r: "watch_reach ?x" by (intro watch_reach.drop_pub example_watch_reach)
  obtain u where u: "wi_lost ?x" "wi_subs ?x 0 = Some u" "sub_value u = 7" "wi_value ?x = 8"
    by (simp add: watch_op_defs drop_publisher_def)
  then show ?thesis unfolding Let_def using watch_last_value_unseen [OF r u(1,2)] by simp
qed

end
