(* ===== verification/Memory_Map.thy ===== *)
theory Memory_Map
  imports Prelude "HOL-Library.Multiset"
begin

text \<open>
  The memory map the boot loader hands to the kernel (\<open>bootloader/src/memory.rs\<close>).

  \<^item> \<open>MemoryRegion\<close> and \<open>normalize_memory_region\<close>: sorting the BIOS regions, resolving overlaps in
    favour of reserved memory, dropping empty regions and merging neighbours.  The array is
    updated by index as in the source; \<open>sort_unstable_by_key\<close> is a parameter, of which the locale
    \<open>region_sort\<close> states what the standard library promises.
  \<^item> The structural versions \<open>resolve\<close> and \<open>merge\<close> of the two in-place loops, with the proofs that
    the loops compute them.
  \<^item> The loop over steps 3 and 4 ends; its result is sorted, free of overlaps, keeps every
    reserved byte reserved and makes no byte usable that was not.
\<close>

section \<open>Model\<close>

record MemoryRegion =
  base_addr :: nat
  region_length :: nat
  region_type :: nat

definition TYPE_USABLE :: nat where
  "TYPE_USABLE = 1"

definition TYPE_RESERVED :: nat where
  "TYPE_RESERVED = 2"

definition restrict_type :: "MemoryRegion \<Rightarrow> MemoryRegion" where
  "restrict_type r = (if region_type r \<noteq> TYPE_USABLE then r\<lparr>region_type := TYPE_RESERVED\<rparr> else r)"

text \<open>The body of the loop over neighbours (step 3).\<close>

definition overlap_step ::
  "nat \<Rightarrow> MemoryRegion list \<times> bool \<Rightarrow> MemoryRegion list \<times> bool" where
  "overlap_step i = (\<lambda>(rs, change_base_addr).
     (let prev_end_addr = wadd64 (base_addr (rs ! (i - 1))) (region_length (rs ! (i - 1)));
          cur_base_addr = base_addr (rs ! i)
      in if prev_end_addr \<le> cur_base_addr then (rs, change_base_addr)
         else let overlap = prev_end_addr - cur_base_addr
              in if region_type (rs ! (i - 1)) = TYPE_RESERVED
                 then (rs[i := (rs ! i)\<lparr>base_addr := wadd64 (base_addr (rs ! i)) overlap,
                                        region_length := region_length (rs ! i) - overlap\<rparr>], True)
                 else (rs[i - 1 := (rs ! (i - 1))\<lparr>region_length := region_length (rs ! (i - 1)) - overlap\<rparr>],
                       change_base_addr)))"

definition resolve_overlaps :: "MemoryRegion list \<Rightarrow> MemoryRegion list \<times> bool" where
  "resolve_overlaps rs = fold overlap_step [1..<length rs] (rs, False)"

text \<open>Step 4: the regions that are not empty move to the front.\<close>

definition remove_step :: "nat \<Rightarrow> MemoryRegion list \<times> nat \<Rightarrow> MemoryRegion list \<times> nat" where
  "remove_step i = (\<lambda>(rs, len).
     if region_length (rs ! i) > 0 then (rs[len := rs ! i], len + 1) else (rs, len))"

definition remove_empty :: "MemoryRegion list \<Rightarrow> MemoryRegion list \<times> nat" where
  "remove_empty rs = fold remove_step [0..<length rs] (rs, 0)"

partial_function (option) normalize_loop ::
  "(MemoryRegion list \<Rightarrow> MemoryRegion list) \<Rightarrow> MemoryRegion list \<Rightarrow> MemoryRegion list option" where
  "normalize_loop sort_by_base rs =
     (let (rs1, change_base_addr) = resolve_overlaps rs
      in if change_base_addr then normalize_loop sort_by_base (sort_by_base rs1)
         else let (rs2, len) = remove_empty rs1
              in if len = length rs2 then Some rs2
                 else normalize_loop sort_by_base (take len rs2))"

text \<open>Step 5: neighbours of one type that touch are merged in place.\<close>

definition shift_down :: "nat \<Rightarrow> nat \<Rightarrow> MemoryRegion list \<Rightarrow> MemoryRegion list" where
  "shift_down i len rs = fold (\<lambda>j rs. rs[j - 1 := rs ! j]) [i + 1..<len] rs"

function merge_loop :: "nat \<Rightarrow> nat \<Rightarrow> MemoryRegion list \<Rightarrow> MemoryRegion list \<times> nat" where
  "merge_loop i len rs =
     (if i < len
      then if region_type (rs ! (i - 1)) \<noteq> region_type (rs ! i) then merge_loop (i + 1) len rs
           else if wadd64 (base_addr (rs ! (i - 1))) (region_length (rs ! (i - 1))) \<noteq> base_addr (rs ! i)
           then merge_loop (i + 1) len rs
           else let rs1 = rs[i - 1 := (rs ! (i - 1))\<lparr>region_length :=
                       wadd64 (region_length (rs ! (i - 1))) (region_length (rs ! i))\<rparr>]
                in merge_loop i (len - 1) (shift_down i len rs1)
      else (rs, len))"
  by pat_completeness auto
termination
  by (relation "measure (\<lambda>(i, len, rs). len - i)") auto

declare merge_loop.simps [simp del]

definition normalize_memory_region ::
  "(MemoryRegion list \<Rightarrow> MemoryRegion list) \<Rightarrow> MemoryRegion list \<Rightarrow> MemoryRegion list option" where
  "normalize_memory_region sort_by_base memory_region =
     (case normalize_loop sort_by_base (map restrict_type (sort_by_base memory_region)) of
        None \<Rightarrow> None
      | Some rs \<Rightarrow> (let (rs', len) = merge_loop 1 (length rs) rs in Some (take len rs')))"

section \<open>What the regions say of an address\<close>

definition inside :: "MemoryRegion \<Rightarrow> nat \<Rightarrow> bool" where
  "inside r x \<longleftrightarrow> base_addr r \<le> x \<and> x < base_addr r + region_length r"

definition usable_at :: "MemoryRegion list \<Rightarrow> nat \<Rightarrow> bool" where
  "usable_at rs x \<longleftrightarrow> (\<exists>r \<in> set rs. region_type r = TYPE_USABLE \<and> inside r x)"

definition reserved_at :: "MemoryRegion list \<Rightarrow> nat \<Rightarrow> bool" where
  "reserved_at rs x \<longleftrightarrow> (\<exists>r \<in> set rs. region_type r \<noteq> TYPE_USABLE \<and> inside r x)"

definition separated :: "MemoryRegion list \<Rightarrow> bool" where
  "separated = sorted_wrt (\<lambda>a b. base_addr a + region_length a \<le> base_addr b)"

text \<open>No region reaches beyond \<open>M\<close>, and the types are the two of the source.\<close>

definition fits :: "nat \<Rightarrow> MemoryRegion list \<Rightarrow> bool" where
  "fits M rs \<longleftrightarrow> M < 2 ^ 64 \<and> (\<forall>r \<in> set rs. base_addr r + region_length r \<le> M)"

definition two_types :: "MemoryRegion list \<Rightarrow> bool" where
  "two_types rs \<longleftrightarrow> (\<forall>r \<in> set rs. region_type r = TYPE_USABLE \<or> region_type r = TYPE_RESERVED)"

fun resolve :: "MemoryRegion \<Rightarrow> MemoryRegion list \<Rightarrow> MemoryRegion list \<times> bool" where
  "resolve p [] = ([p], False)"
| "resolve p (c # cs) =
     (let e = base_addr p + region_length p; overlap = e - base_addr c
      in if e \<le> base_addr c then (p # fst (resolve c cs), snd (resolve c cs))
         else if region_type p = TYPE_RESERVED
         then (p # fst (resolve (c\<lparr>base_addr := e, region_length := region_length c - overlap\<rparr>) cs), True)
         else (p\<lparr>region_length := region_length p - overlap\<rparr> # fst (resolve c cs), snd (resolve c cs)))"

fun merge :: "MemoryRegion \<Rightarrow> MemoryRegion list \<Rightarrow> MemoryRegion list" where
  "merge p [] = [p]"
| "merge p (c # cs) =
     (if region_type p = region_type c \<and> base_addr p + region_length p = base_addr c
      then merge (p\<lparr>region_length := region_length p + region_length c\<rparr>) cs
      else p # merge c cs)"

section \<open>Resolving overlaps\<close>

lemma usable_Cons: "usable_at (r # rs) x \<longleftrightarrow> region_type r = TYPE_USABLE \<and> inside r x \<or> usable_at rs x"
  by (auto simp: usable_at_def)

lemma reserved_Cons:
  "reserved_at (r # rs) x \<longleftrightarrow> region_type r \<noteq> TYPE_USABLE \<and> inside r x \<or> reserved_at rs x"
  by (auto simp: reserved_at_def)

lemma fits_Cons: "fits M (r # rs) \<longleftrightarrow> base_addr r + region_length r \<le> M \<and> fits M rs"
  by (auto simp: fits_def)

lemma two_types_Cons:
  "two_types (r # rs) \<longleftrightarrow>
     (region_type r = TYPE_USABLE \<or> region_type r = TYPE_RESERVED) \<and> two_types rs"
  by (auto simp: two_types_def)

lemmas region_Cons = usable_Cons reserved_Cons fits_Cons two_types_Cons

lemma fits_moved:
  assumes "fits M (p # c # cs)" and "base_addr c < base_addr p + region_length p"
  shows "fits M (c\<lparr>base_addr := base_addr p + region_length p,
                  region_length := region_length c - (base_addr p + region_length p - base_addr c)\<rparr> # cs)"
  using assms by (auto simp: fits_Cons)

lemma overlap_steps:
  assumes "fits M (p # cs)"
  shows "fold overlap_step [Suc (length xs)..<Suc (length xs) + length cs] (xs @ p # cs, b) =
     (xs @ fst (resolve p cs), b \<or> snd (resolve p cs))"
  using assms
proof (induction cs arbitrary: xs p b)
  case Nil
  then show ?case by simp
next
  case (Cons c cs)
  let ?e = "base_addr p + region_length p"
  have idx: "[Suc (length xs)..<Suc (length xs) + length (c # cs)] =
      Suc (length xs) # [Suc (length (xs @ [p]))..<Suc (length (xs @ [p])) + length cs]" for p
    by (simp add: upt_conv_Cons del: upt_Suc)
  have e: "wadd64 (base_addr p) (region_length p) = ?e"
    using Cons.prems by (intro wadd64_small) (auto simp: fits_def)
  have m: "base_addr c < ?e \<Longrightarrow> wadd64 (base_addr c) (?e - base_addr c) = ?e"
    using Cons.prems by (subst wadd64_small) (auto simp: fits_def)
  have fc: "fits M (c # cs)" using Cons.prems by (simp add: fits_Cons)
  note step = overlap_step_def Let_def e nth_append list_update_append
  consider "?e \<le> base_addr c" | "base_addr c < ?e" "region_type p = TYPE_RESERVED"
    | "base_addr c < ?e" "region_type p \<noteq> TYPE_RESERVED" by linarith
  then show ?case
  proof cases
    case 1
    then show ?thesis
      unfolding idx [of p] using Cons.IH [OF fc, of "xs @ [p]"] by (simp add: step)
  next
    case 2
    then show ?thesis
      unfolding idx [of p] using Cons.IH [OF fits_moved [OF Cons.prems], of "xs @ [p]"]
      by (simp add: step m)
  next
    case 3
    then show ?thesis
      unfolding idx [of "p\<lparr>region_length := region_length p - (?e - base_addr c)\<rparr>"]
      using Cons.IH [OF fc, of "xs @ [p\<lparr>region_length := region_length p - (?e - base_addr c)\<rparr>]"]
      by (simp add: step)
  qed
qed

lemma resolve_overlaps_Cons: "fits M (p # cs) \<Longrightarrow> resolve_overlaps (p # cs) = resolve p cs"
  using overlap_steps [of M p cs "[]" False] by (simp add: resolve_overlaps_def)

lemma resolve_overlaps_Nil [simp]: "resolve_overlaps [] = ([], False)"
  by (simp add: resolve_overlaps_def)

lemma resolve_length [simp]: "length (fst (resolve p cs)) = Suc (length cs)"
  by (induction p cs rule: resolve.induct) (auto simp: Let_def)

lemma resolve_fits: "fits M (p # cs) \<Longrightarrow> fits M (fst (resolve p cs))"
proof (induction p cs rule: resolve.induct)
  case (2 p c cs)
  then show ?case
    using fits_moved [of M p c cs] by (auto simp: Let_def fits_Cons)
qed simp

lemma resolve_two_types: "two_types (p # cs) \<Longrightarrow> two_types (fst (resolve p cs))"
  by (induction p cs rule: resolve.induct) (auto simp: Let_def two_types_Cons)

lemma resolve_usable: "usable_at (fst (resolve p cs)) x \<Longrightarrow> usable_at (p # cs) x"
proof (induction cs arbitrary: p)
  case (Cons c cs)
  let ?e = "base_addr p + region_length p"
  let ?c = "c\<lparr>base_addr := ?e, region_length := region_length c - (?e - base_addr c)\<rparr>"
  have "inside ?c x \<Longrightarrow> inside c x" if "\<not> ?e \<le> base_addr c"
    using that by (auto simp: inside_def)
  moreover have "inside (p\<lparr>region_length := region_length p - (?e - base_addr c)\<rparr>) x \<Longrightarrow> inside p x"
    by (auto simp: inside_def)
  ultimately show ?case
    using Cons.IH [of c] Cons.IH [of ?c] Cons.prems
    by (auto simp: Let_def usable_Cons split: if_splits)
qed simp

text \<open>
  A region moves only past a reserved one, so no reserved byte is lost.  While the pass runs the
  current region may have moved beyond its successor; the bytes in between are covered by the
  regions already passed (\<open>Q\<close>).
\<close>

lemma resolve_reserved:
  assumes "two_types (p # cs)" and "sorted (map base_addr cs)"
    and "\<forall>c \<in> set cs. b0 \<le> base_addr c" and "\<forall>x. b0 \<le> x \<and> x < base_addr p \<longrightarrow> Q x"
  shows "(Q x \<or> reserved_at (fst (resolve p cs)) x) = (Q x \<or> reserved_at (p # cs) x)"
  using assms
proof (induction cs arbitrary: p b0 Q)
  case (Cons c cs)
  let ?e = "base_addr p + region_length p"
  let ?c = "c\<lparr>base_addr := ?e, region_length := region_length c - (?e - base_addr c)\<rparr>"
  let ?Q = "\<lambda>x. Q x \<or> inside p x"
  have sc: "sorted (map base_addr cs)" "\<forall>d \<in> set cs. base_addr c \<le> base_addr d"
    and tc: "two_types (c # cs)" "two_types (?c # cs)"
    using Cons.prems by (auto simp: two_types_Cons)
  have keep: "(Q x \<or> reserved_at (fst (resolve c cs)) x) = (Q x \<or> reserved_at (c # cs) x)"
    by (rule Cons.IH [OF tc(1) sc]) auto
  show ?case
  proof (cases "?e \<le> base_addr c \<or> region_type p \<noteq> TYPE_RESERVED")
    case True
    show ?thesis
    proof (cases "?e \<le> base_addr c")
      case True
      then show ?thesis using keep by (simp add: Let_def reserved_Cons) blast
    next
      case False
      then have "region_type p = TYPE_USABLE" using True Cons.prems(1) by (auto simp: two_types_Cons)
      then show ?thesis using keep False True by (simp add: Let_def reserved_Cons)
    qed
  next
    case False
    have "\<forall>y. base_addr c \<le> y \<and> y < base_addr ?c \<longrightarrow> ?Q y"
    proof (intro allI impI)
      fix y assume "base_addr c \<le> y \<and> y < base_addr ?c"
      then have "b0 \<le> y" "y < ?e" using Cons.prems(3) by auto
      then show "?Q y" using Cons.prems(4) by (cases "y < base_addr p") (auto simp: inside_def)
    qed
    then have "(?Q x \<or> reserved_at (fst (resolve ?c cs)) x) = (?Q x \<or> reserved_at (?c # cs) x)"
      by (rule Cons.IH [OF tc(2) sc])
    moreover have "(?Q x \<or> inside ?c x) = (?Q x \<or> inside c x)"
      using False \<open>\<forall>y. base_addr c \<le> y \<and> y < base_addr ?c \<longrightarrow> ?Q y\<close>
      by (auto simp: inside_def not_le)
    moreover have "region_type p \<noteq> TYPE_USABLE"
      using False by (simp add: TYPE_USABLE_def TYPE_RESERVED_def)
    ultimately show ?thesis using False by (simp add: Let_def reserved_Cons) blast
  qed
qed simp

lemma resolve_unchanged:
  assumes "\<not> snd (resolve p cs)" and "sorted (map base_addr (p # cs))"
  shows "map base_addr (fst (resolve p cs)) = map base_addr (p # cs) \<and> separated (fst (resolve p cs))"
  using assms
proof (induction cs arbitrary: p)
  case Nil
  then show ?case by (simp add: separated_def)
next
  case (Cons c cs)
  let ?e = "base_addr p + region_length p"
  let ?p = "if ?e \<le> base_addr c then p else p\<lparr>region_length := region_length p - (?e - base_addr c)\<rparr>"
  have split: "fst (resolve p (c # cs)) = ?p # fst (resolve c cs)" "\<not> snd (resolve c cs)"
    using Cons.prems(1) by (auto simp: Let_def split: if_splits)
  have ih: "map base_addr (fst (resolve c cs)) = map base_addr (c # cs)" "separated (fst (resolve c cs))"
    using Cons.IH [OF split(2)] Cons.prems(2) by auto
  have "base_addr ?p + region_length ?p \<le> base_addr c"
    using Cons.prems(2) by auto
  moreover have "base_addr c \<le> base_addr r" if "r \<in> set (fst (resolve c cs))" for r
  proof -
    have "base_addr r \<in> set (map base_addr (c # cs))" using that unfolding ih(1) [symmetric] by simp
    then show ?thesis using Cons.prems(2) by auto
  qed
  ultimately show ?case
    using ih unfolding split(1) separated_def by (fastforce intro: le_trans)
qed

lemma resolve_bases:
  assumes "fits M (p # cs)"
  shows "(\<Sum>r \<leftarrow> fst (resolve p cs). M - base_addr r) \<le> (\<Sum>r \<leftarrow> p # cs. M - base_addr r)"
    and "snd (resolve p cs) \<Longrightarrow>
      (\<Sum>r \<leftarrow> fst (resolve p cs). M - base_addr r) < (\<Sum>r \<leftarrow> p # cs. M - base_addr r)"
proof -
  have "(\<Sum>r \<leftarrow> fst (resolve p cs). M - base_addr r) + (if snd (resolve p cs) then 1 else 0)
      \<le> (\<Sum>r \<leftarrow> p # cs. M - base_addr r)"
    using assms
  proof (induction cs arbitrary: p)
    case (Cons c cs)
    let ?e = "base_addr p + region_length p"
    let ?c = "c\<lparr>base_addr := ?e, region_length := region_length c - (?e - base_addr c)\<rparr>"
    have f: "fits M (c # cs)" using Cons.prems by (simp add: fits_Cons)
    have m: "\<not> ?e \<le> base_addr c \<Longrightarrow> fits M (?c # cs)"
      using fits_moved [OF Cons.prems] by simp
    have "M - base_addr ?c + 1 \<le> M - base_addr c" if "\<not> ?e \<le> base_addr c"
      using that Cons.prems by (auto simp: fits_Cons)
    then show ?case
      using Cons.IH [OF f] Cons.IH [OF m] by (auto simp: Let_def split: if_splits)
  qed simp
  then show "(\<Sum>r \<leftarrow> fst (resolve p cs). M - base_addr r) \<le> (\<Sum>r \<leftarrow> p # cs. M - base_addr r)"
    and "snd (resolve p cs) \<Longrightarrow>
      (\<Sum>r \<leftarrow> fst (resolve p cs). M - base_addr r) < (\<Sum>r \<leftarrow> p # cs. M - base_addr r)"
    by (auto split: if_splits)
qed

section \<open>Dropping empty regions\<close>

lemma remove_steps:
  assumes "len \<le> i" and "i \<le> length rs"
  shows "let (rs', len') = fold remove_step [i..<length rs] (rs, len)
    in length rs' = length rs \<and> len' \<le> length rs \<and>
       take len' rs' = take len rs @ filter (\<lambda>r. 0 < region_length r) (drop i rs)"
  using assms
proof (induction "length rs - i" arbitrary: i len rs)
  case 0
  then show ?case by simp
next
  case (Suc n)
  then have i: "i < length rs" by simp
  have idx: "[i..<length rs] = i # [Suc i..<length rs]" using i by (simp add: upt_conv_Cons)
  have d: "drop i rs = rs ! i # drop (Suc i) rs" using i by (simp add: Cons_nth_drop_Suc)
  show ?case
  proof (cases "0 < region_length (rs ! i)")
    case True
    have t: "take (Suc len) (rs[len := rs ! i]) = take len rs @ [rs ! i]"
      using Suc.prems i by (simp add: take_Suc_conv_app_nth)
    show ?thesis
      using Suc.hyps(1) [of "rs[len := rs ! i]" "Suc i" "Suc len"] Suc.hyps(2) Suc.prems i True t
      by (simp add: idx d remove_step_def)
  next
    case False
    then show ?thesis
      using Suc.hyps(1) [of rs "Suc i" len] Suc.hyps(2) Suc.prems i
      by (simp add: idx d remove_step_def)
  qed
qed

lemma remove_empty_run:
  obtains rs' len where "remove_empty rs = (rs', len)" and "length rs' = length rs" and "len \<le> length rs"
    and "take len rs' = filter (\<lambda>r. 0 < region_length r) rs"
  using remove_steps [of 0 0 rs] by (auto simp: remove_empty_def Let_def split: prod.splits)

lemma not_inside_empty: "inside r x \<Longrightarrow> 0 < region_length r"
  by (auto simp: inside_def)

lemma filter_reserved [simp]: "reserved_at (filter (\<lambda>r. 0 < region_length r) rs) x = reserved_at rs x"
  by (auto simp: reserved_at_def dest: not_inside_empty)

lemma filter_usable [simp]: "usable_at (filter (\<lambda>r. 0 < region_length r) rs) x = usable_at rs x"
  by (auto simp: usable_at_def dest: not_inside_empty)

lemma filter_separated: "separated rs \<Longrightarrow> separated (filter P rs)"
  by (simp add: separated_def sorted_wrt_filter)

lemma filter_sorted: "sorted (map base_addr rs) \<Longrightarrow> sorted (map base_addr (filter P rs))"
  by (rule sorted_filter)

section \<open>Merging neighbours\<close>

lemma shift_down_run:
  "\<exists>d. shift_down (length ys) (length ys + Suc (length cs)) (ys @ c # cs @ zs) = ys @ cs @ d # zs"
proof (induction cs arbitrary: ys c)
  case Nil
  show ?case by (auto simp: shift_down_def)
next
  case (Cons d cs)
  have "[length ys + 1..<length ys + Suc (length (d # cs))] =
      (length ys + 1) # [length (ys @ [d]) + 1..<length (ys @ [d]) + Suc (length cs)]"
    by (simp add: upt_conv_Cons del: upt_Suc)
  then have "shift_down (length ys) (length ys + Suc (length (d # cs))) (ys @ c # (d # cs) @ zs) =
      shift_down (length (ys @ [d])) (length (ys @ [d]) + Suc (length cs)) ((ys @ [d]) @ d # cs @ zs)"
    by (simp add: shift_down_def nth_append list_update_append del: upt_Suc)
  then show ?case using Cons.IH [of "ys @ [d]" d] by simp
qed

lemma merge_loop_run:
  assumes "fits M (p # cs)" and "separated (p # cs)"
  shows "let (rs', len') = merge_loop (Suc (length xs)) (Suc (length xs + length cs)) (xs @ p # cs @ zs)
    in take len' rs' = xs @ merge p cs"
  using assms
proof (induction cs arbitrary: xs p zs)
  case Nil
  then show ?case by (simp add: merge_loop.simps)
next
  case (Cons c cs)
  let ?e = "base_addr p + region_length p"
  let ?p = "p\<lparr>region_length := region_length p + region_length c\<rparr>"
  let ?rs = "xs @ p # (c # cs) @ zs"
  have at: "?rs ! (Suc (length xs) - 1) = p" "?rs ! Suc (length xs) = c"
    by (simp_all add: nth_append)
  have e: "wadd64 (base_addr p) (region_length p) = ?e"
    using Cons.prems(1) by (intro wadd64_small) (auto simp: fits_def)
  show ?case
  proof (cases "region_type p = region_type c \<and> ?e = base_addr c")
    case True
    have l: "wadd64 (region_length p) (region_length c) = region_length p + region_length c"
      using Cons.prems(1) True by (intro wadd64_small) (auto simp: fits_def)
    obtain d where d: "shift_down (Suc (length xs)) (Suc (length xs + length (c # cs)))
        (xs @ ?p # (c # cs) @ zs) = xs @ ?p # cs @ d # zs"
      using shift_down_run [of "xs @ [?p]" cs c zs] by auto
    have "merge_loop (Suc (length xs)) (Suc (length xs + length (c # cs))) ?rs =
        merge_loop (Suc (length xs)) (Suc (length xs + length cs)) (xs @ ?p # cs @ d # zs)"
      using True d by (subst merge_loop.simps) (simp add: nth_append e l list_update_append)
    moreover have "fits M (?p # cs)" "separated (?p # cs)"
      using Cons.prems True by (auto simp: fits_Cons separated_def)
    ultimately show ?thesis
      using Cons.IH [of ?p xs "d # zs"] True by simp
  next
    case False
    have "merge_loop (Suc (length xs)) (Suc (length xs + length (c # cs))) ?rs =
        merge_loop (Suc (length (xs @ [p]))) (Suc (length (xs @ [p]) + length cs)) ((xs @ [p]) @ c # cs @ zs)"
      using False by (subst merge_loop.simps) (auto simp: nth_append e)
    moreover have "fits M (c # cs)" "separated (c # cs)"
      using Cons.prems by (simp_all add: fits_Cons separated_def)
    ultimately show ?thesis
      using Cons.IH [of c "xs @ [p]" zs] False by auto
  qed
qed

lemma inside_joined:
  "base_addr p + region_length p = base_addr c \<Longrightarrow>
   inside (p\<lparr>region_length := region_length p + region_length c\<rparr>) x = (inside p x \<or> inside c x)"
  unfolding inside_def by auto

lemma merge_reserved: "reserved_at (merge p cs) x = reserved_at (p # cs) x"
  by (induction cs arbitrary: p) (auto simp: reserved_Cons inside_joined)

lemma merge_usable: "usable_at (merge p cs) x = usable_at (p # cs) x"
  by (induction cs arbitrary: p) (auto simp: usable_Cons inside_joined)

lemma merge_bases: "r \<in> set (merge p cs) \<Longrightarrow> base_addr r \<in> base_addr ` set (p # cs)"
  by (induction cs arbitrary: p) (auto split: if_splits)

lemma merge_fits: "fits M (p # cs) \<Longrightarrow> fits M (merge p cs)"
proof (induction cs arbitrary: p)
  case (Cons c cs)
  then show ?case
    using Cons.IH [of c] Cons.IH [of "p\<lparr>region_length := region_length p + region_length c\<rparr>"]
    by (auto simp: fits_Cons)
qed simp

lemma merge_separated: "separated (p # cs) \<Longrightarrow> separated (merge p cs)"
proof (induction cs arbitrary: p)
  case (Cons c cs)
  let ?p = "p\<lparr>region_length := region_length p + region_length c\<rparr>"
  show ?case
  proof (cases "region_type p = region_type c \<and> base_addr p + region_length p = base_addr c")
    case True
    then have "separated (?p # cs)" using Cons.prems by (auto simp: separated_def)
    then show ?thesis using Cons.IH True by simp
  next
    case False
    have "separated (merge c cs)" using Cons by (simp add: separated_def)
    moreover have "base_addr p + region_length p \<le> base_addr r" if "r \<in> set (merge c cs)" for r
      using merge_bases [OF that] Cons.prems by (auto simp: separated_def)
    ultimately show ?thesis using False by (auto simp: separated_def)
  qed
qed (simp add: separated_def)

lemma merge_nonempty:
  assumes "\<forall>r \<in> set (p # cs). 0 < region_length r" and "r \<in> set (merge p cs)"
  shows "0 < region_length r"
  using assms
proof (induction cs arbitrary: p)
  case (Cons c cs)
  let ?p = "p\<lparr>region_length := region_length p + region_length c\<rparr>"
  have "r = p \<or> r \<in> set (merge ?p cs) \<or> r \<in> set (merge c cs)"
    using Cons.prems(2) by (auto split: if_splits)
  moreover have "\<forall>r \<in> set (?p # cs). 0 < region_length r" "\<forall>r \<in> set (c # cs). 0 < region_length r"
    using Cons.prems(1) by auto
  ultimately show ?case using Cons.IH [of ?p] Cons.IH [of c] Cons.prems(1) by auto
qed simp

text \<open>After merging, no two neighbours could be merged.\<close>

definition maximal :: "MemoryRegion list \<Rightarrow> bool" where
  "maximal rs \<longleftrightarrow> (\<forall>i. Suc i < length rs \<longrightarrow>
     \<not> (region_type (rs ! i) = region_type (rs ! Suc i) \<and>
        base_addr (rs ! i) + region_length (rs ! i) = base_addr (rs ! Suc i)))"

lemma merge_head: "\<exists>q qs. merge p cs = q # qs \<and> base_addr q = base_addr p \<and> region_type q = region_type p"
proof (induction cs arbitrary: p)
  case (Cons c cs)
  then show ?case
    using Cons.IH [of "p\<lparr>region_length := region_length p + region_length c\<rparr>"] by auto
qed simp

lemma maximal_Cons:
  "maximal (p # q # qs) \<longleftrightarrow>
     \<not> (region_type p = region_type q \<and> base_addr p + region_length p = base_addr q) \<and> maximal (q # qs)"
  (is "?l \<longleftrightarrow> ?h \<and> ?r")
proof -
  let ?P = "\<lambda>i. \<not> (region_type ((p # q # qs) ! i) = region_type ((p # q # qs) ! Suc i) \<and>
      base_addr ((p # q # qs) ! i) + region_length ((p # q # qs) ! i) = base_addr ((p # q # qs) ! Suc i))"
  have "?l \<longleftrightarrow> (\<forall>i < Suc (length qs). ?P i)" by (simp add: maximal_def)
  also have "\<dots> \<longleftrightarrow> ?P 0 \<and> (\<forall>i < length qs. ?P (Suc i))" by (rule All_less_Suc2)
  also have "\<dots> \<longleftrightarrow> ?h \<and> ?r" by (simp add: maximal_def)
  finally show ?thesis .
qed

lemma merge_maximal: "maximal (merge p cs)"
proof (induction cs arbitrary: p)
  case Nil
  show ?case by (simp add: maximal_def)
next
  case (Cons c cs)
  let ?p = "p\<lparr>region_length := region_length p + region_length c\<rparr>"
  obtain q qs where q: "merge c cs = q # qs" "base_addr q = base_addr c" "region_type q = region_type c"
    using merge_head by blast
  have "maximal (q # qs)" using Cons.IH [of c] q(1) by simp
  moreover have "maximal (merge ?p cs)" by (rule Cons.IH)
  ultimately show ?case using q by (simp add: maximal_Cons)
qed

section \<open>The whole normalisation\<close>

text \<open>One pass over the neighbours.\<close>

lemma resolve_overlaps_pass:
  assumes "resolve_overlaps rs = (rs1, b)" and "sorted (map base_addr rs)" and "fits M rs" and "two_types rs"
  shows "fits M rs1" and "two_types rs1" and "length rs1 = length rs"
    and "\<And>x. reserved_at rs1 x = reserved_at rs x" and "\<And>x. usable_at rs1 x \<Longrightarrow> usable_at rs x"
    and "b \<Longrightarrow> (\<Sum>r \<leftarrow> rs1. M - base_addr r) < (\<Sum>r \<leftarrow> rs. M - base_addr r)"
    and "\<not> b \<Longrightarrow> map base_addr rs1 = map base_addr rs" and "\<not> b \<Longrightarrow> separated rs1"
proof -
  have "fits M rs1 \<and> two_types rs1 \<and> length rs1 = length rs \<and>
      (\<forall>x. reserved_at rs1 x = reserved_at rs x) \<and> (\<forall>x. usable_at rs1 x \<longrightarrow> usable_at rs x) \<and>
      (b \<longrightarrow> (\<Sum>r \<leftarrow> rs1. M - base_addr r) < (\<Sum>r \<leftarrow> rs. M - base_addr r)) \<and>
      (\<not> b \<longrightarrow> map base_addr rs1 = map base_addr rs \<and> separated rs1)"
  proof (cases rs)
    case Nil
    then show ?thesis using assms by (simp add: separated_def)
  next
    case (Cons p cs)
    then have r: "rs1 = fst (resolve p cs)" "b = snd (resolve p cs)"
      using assms(1,3) resolve_overlaps_Cons [of M p cs] by (metis fst_conv, metis snd_conv)
    have "reserved_at rs1 x = reserved_at rs x" for x
      using resolve_reserved [of p cs "base_addr p" "\<lambda>_. False" x] assms(2,4) unfolding r Cons by auto
    moreover have "usable_at rs1 x \<longrightarrow> usable_at rs x" for x
      using resolve_usable [of p cs x] unfolding r Cons by blast
    moreover have "\<not> b \<longrightarrow> map base_addr rs1 = map base_addr rs \<and> separated rs1"
      using resolve_unchanged [of p cs] assms(2) unfolding r Cons by blast
    moreover have "b \<longrightarrow> (\<Sum>r \<leftarrow> rs1. M - base_addr r) < (\<Sum>r \<leftarrow> rs. M - base_addr r)"
      using resolve_bases(2) [of M p cs] assms(3) unfolding r Cons by blast
    ultimately show ?thesis
      using resolve_fits [of M p cs] resolve_two_types [of p cs] assms(3,4) unfolding r Cons by simp
  qed
  then show "fits M rs1" and "two_types rs1" and "length rs1 = length rs"
    and "\<And>x. reserved_at rs1 x = reserved_at rs x" and "\<And>x. usable_at rs1 x \<Longrightarrow> usable_at rs x"
    and "b \<Longrightarrow> (\<Sum>r \<leftarrow> rs1. M - base_addr r) < (\<Sum>r \<leftarrow> rs. M - base_addr r)"
    and "\<not> b \<Longrightarrow> map base_addr rs1 = map base_addr rs" and "\<not> b \<Longrightarrow> separated rs1"
    by blast+
qed

text \<open>What every further pass keeps of the regions it started from.\<close>

definition normal_form :: "nat \<Rightarrow> MemoryRegion list \<Rightarrow> MemoryRegion list \<Rightarrow> bool" where
  "normal_form M rs out \<longleftrightarrow> separated out \<and> fits M out \<and> (\<forall>r \<in> set out. 0 < region_length r) \<and>
     (\<forall>x. reserved_at out x = reserved_at rs x) \<and> (\<forall>x. usable_at out x \<longrightarrow> usable_at rs x)"

lemma normal_form_trans:
  "normal_form M rs1 out \<Longrightarrow> (\<And>x. reserved_at rs1 x = reserved_at rs x) \<Longrightarrow>
   (\<And>x. usable_at rs1 x \<Longrightarrow> usable_at rs x) \<Longrightarrow> normal_form M rs out"
  by (simp add: normal_form_def)

lemma restrict_type_is [simp]:
  "inside (restrict_type r) x = inside r x"
  "region_type (restrict_type r) = TYPE_USABLE \<longleftrightarrow> region_type r = TYPE_USABLE"
  by (simp_all add: restrict_type_def inside_def TYPE_USABLE_def TYPE_RESERVED_def)

lemma restrict_type_at:
  "usable_at (map restrict_type rs) x = usable_at rs x"
  "reserved_at (map restrict_type rs) x = reserved_at rs x"
  by (simp_all add: usable_at_def reserved_at_def)

text \<open>
  What the documentation of the standard library promises of \<open>sort_unstable_by_key\<close>: the same
  elements, in the order of their keys.  Elements of one key may come in any order.
\<close>

locale region_sort =
  fixes sort_by_base :: "MemoryRegion list \<Rightarrow> MemoryRegion list"
  assumes sort_mset: "mset (sort_by_base rs) = mset rs"
    and sort_sorted: "sorted (map base_addr (sort_by_base rs))"
begin

lemma sort_set [simp]: "set (sort_by_base rs) = set rs"
  by (metis sort_mset set_mset_mset)

lemma sort_length [simp]: "length (sort_by_base rs) = length rs"
  by (metis sort_mset size_mset)

lemma sort_sum: "(\<Sum>r \<leftarrow> sort_by_base rs. f r) = (\<Sum>r \<leftarrow> rs. f r :: nat)"
  by (metis mset_map sort_mset sum_mset_sum_list)

lemma sort_at [simp]:
  "usable_at (sort_by_base rs) x = usable_at rs x"
  "reserved_at (sort_by_base rs) x = reserved_at rs x"
  "fits M (sort_by_base rs) = fits M rs"
  "two_types (sort_by_base rs) = two_types rs"
  by (simp_all add: usable_at_def reserved_at_def fits_def two_types_def)

lemma normalize_loop_run:
  assumes "sorted (map base_addr rs)" and "fits M rs" and "two_types rs"
  shows "\<exists>out. normalize_loop sort_by_base rs = Some out \<and> normal_form M rs out"
  using assms
proof (induction "(\<Sum>r \<leftarrow> rs. M - base_addr r) + length rs" arbitrary: rs rule: less_induct)
  case less
  obtain rs1 b where r1: "resolve_overlaps rs = (rs1, b)" by fastforce
  note pass = resolve_overlaps_pass [OF r1 less.prems]
  show ?case
  proof (cases b)
    case True
    then have "normalize_loop sort_by_base rs = normalize_loop sort_by_base (sort_by_base rs1)"
      by (subst normalize_loop.simps) (simp add: r1)
    moreover have "\<exists>out. normalize_loop sort_by_base (sort_by_base rs1) = Some out \<and>
        normal_form M (sort_by_base rs1) out"
      using pass True by (intro less.hyps) (simp_all add: sort_sum sort_sorted)
    then obtain out where "normalize_loop sort_by_base (sort_by_base rs1) = Some out"
      and "normal_form M (sort_by_base rs1) out" by blast
    moreover from this(2) have "normal_form M rs out"
      by (rule normal_form_trans) (simp_all add: pass(4,5))
    ultimately show ?thesis by simp
  next
    case False
    let ?f = "filter (\<lambda>r. 0 < region_length r) rs1"
    obtain rs2 len where r2: "remove_empty rs1 = (rs2, len)" "length rs2 = length rs1" "len \<le> length rs1"
        "take len rs2 = ?f" by (rule remove_empty_run)
    have keep: "separated ?f" "fits M ?f" "two_types ?f" "sorted (map base_addr ?f)"
      using pass False less.prems(1) by (auto simp: filter_separated filter_sorted fits_def two_types_def)
    show ?thesis
    proof (cases "len = length rs2")
      case True
      then have "normalize_loop sort_by_base rs = Some ?f"
        using False r2 by (subst normalize_loop.simps) (simp add: r1)
      then show ?thesis using keep pass(4,5) by (simp add: normal_form_def)
    next
      case n: False
      then have "normalize_loop sort_by_base rs = normalize_loop sort_by_base ?f"
        using False r2 by (subst normalize_loop.simps) (simp add: r1)
      moreover have "(\<Sum>r \<leftarrow> ?f. M - base_addr r) + length ?f < (\<Sum>r \<leftarrow> rs. M - base_addr r) + length rs"
      proof -
        have "(\<Sum>r \<leftarrow> ?f. M - base_addr r) \<le> (\<Sum>r \<leftarrow> rs1. M - base_addr r)"
          by (rule sum_list_filter_le_nat)
        also have "\<dots> = (\<Sum>b \<leftarrow> map base_addr rs1. M - b)" by (simp add: comp_def)
        also have "\<dots> = (\<Sum>r \<leftarrow> rs. M - base_addr r)" unfolding pass(7) [OF False] by (simp add: comp_def)
        finally show ?thesis using r2 n pass(3) by (metis add_le_less_mono le_neq_implies_less length_take min.absorb2)
      qed
      then obtain out where "normalize_loop sort_by_base ?f = Some out" and "normal_form M ?f out"
        using less.hyps [of ?f] keep by blast
      moreover from this(2) have "normal_form M rs out"
        by (rule normal_form_trans) (simp_all add: pass(4,5))
      ultimately show ?thesis by simp
    qed
  qed
qed

lemma normalize_run:
  assumes "fits M rs"
  shows "\<exists>out. normalize_memory_region sort_by_base rs = Some out \<and> normal_form M rs out \<and> maximal out"
proof -
  let ?rs = "map restrict_type (sort_by_base rs)"
  have "base_addr \<circ> restrict_type = base_addr" by (auto simp: restrict_type_def)
  then have "sorted (map base_addr ?rs)" by (simp add: sort_sorted)
  moreover have "fits M ?rs" using assms by (auto simp: fits_def restrict_type_def)
  moreover have "two_types ?rs" by (auto simp: two_types_def restrict_type_def)
  ultimately obtain mid where mid: "normalize_loop sort_by_base ?rs = Some mid" "normal_form M ?rs mid"
    using normalize_loop_run by blast
  show ?thesis
  proof (cases mid)
    case Nil
    have "normalize_memory_region sort_by_base rs = Some []"
      by (simp add: normalize_memory_region_def mid(1) Nil merge_loop.simps)
    then show ?thesis
      using mid(2) by (simp add: Nil normal_form_def restrict_type_at maximal_def)
  next
    case (Cons p cs)
    have nf: "separated (p # cs)" "fits M (p # cs)" using mid(2) unfolding Cons normal_form_def by auto
    obtain rs' len where m: "merge_loop 1 (length (p # cs)) (p # cs) = (rs', len)" by fastforce
    then have "take len rs' = merge p cs"
      using merge_loop_run [OF nf(2,1), of "[]" "[]"] by simp
    then have "normalize_memory_region sort_by_base rs = Some (merge p cs)"
      unfolding normalize_memory_region_def mid(1) Cons by (simp only: option.case Let_def m prod.case)
    moreover have "normal_form M rs (merge p cs)"
      unfolding normal_form_def
    proof (intro conjI allI ballI impI)
      show "separated (merge p cs)" by (rule merge_separated [OF nf(1)])
      show "fits M (merge p cs)" by (rule merge_fits [OF nf(2)])
      show "0 < region_length r" if "r \<in> set (merge p cs)" for r
        using mid(2) that unfolding Cons normal_form_def by (blast intro: merge_nonempty)
      show "reserved_at (merge p cs) x = reserved_at rs x" for x
        using mid(2) unfolding Cons normal_form_def by (simp add: merge_reserved restrict_type_at)
      show "usable_at rs x" if "usable_at (merge p cs) x" for x
        using mid(2) that unfolding Cons normal_form_def by (simp add: merge_usable restrict_type_at)
    qed
    ultimately show ?thesis using merge_maximal by blast
  qed
qed

end

interpretation stable: region_sort "sort_key base_addr"
  by unfold_locales simp_all

section \<open>Properties\<close>

lemma separated_exclusive:
  assumes "separated rs" and "r \<in> set rs" and "inside r x" and "q \<in> set rs" and "inside q x"
  shows "q = r"
  using assms
proof (induction rs)
  case (Cons p ps)
  then show ?case by (fastforce simp: separated_def inside_def)
qed simp

text \<open>
  C14. The boot loader's memory map is normalised in finitely many passes, whatever the order in which
  the sort leaves regions of one base address.  In the result the regions are sorted, not empty,
  disjoint, and no two neighbours could be merged; exactly the addresses that some BIOS region
  reserved are reserved, and an address is usable only if a BIOS region offered it and none
  reserved it.
\<close>

theorem normalize_correct:
  assumes "region_sort sort_by_base" and "fits M rs"
  shows "\<exists>out. normalize_memory_region sort_by_base rs = Some out \<and>
    separated out \<and> maximal out \<and> (\<forall>r \<in> set out. 0 < region_length r) \<and>
    (\<forall>x. reserved_at out x = reserved_at rs x) \<and>
    (\<forall>x. usable_at out x \<longrightarrow> usable_at rs x \<and> \<not> reserved_at rs x)"
proof -
  obtain out where run: "normalize_memory_region sort_by_base rs = Some out"
    and nf: "normal_form M rs out" and "maximal out"
    using region_sort.normalize_run [OF assms] by blast
  moreover have sep: "separated out" using nf by (simp add: normal_form_def)
  have "\<not> reserved_at out x" if "usable_at out x" for x
    using that separated_exclusive [OF sep] by (auto simp: usable_at_def reserved_at_def)
  ultimately show ?thesis using nf by (auto simp: normal_form_def)
qed

definition example_map :: "MemoryRegion list" where
  "example_map =
     [\<lparr>base_addr = 0x100000, region_length = 0x7EE0000, region_type = 1\<rparr>,
      \<lparr>base_addr = 0, region_length = 0x9FC00, region_type = 1\<rparr>,
      \<lparr>base_addr = 0x9F000, region_length = 0x1000, region_type = 3\<rparr>,
      \<lparr>base_addr = 0x7FE0000, region_length = 0x20000, region_type = 2\<rparr>]"

theorem normalize_correct_witness:
  "\<exists>out. normalize_memory_region (sort_key base_addr) example_map = Some out \<and>
    separated out \<and> maximal out \<and> (\<forall>r \<in> set out. 0 < region_length r) \<and>
    (\<forall>x. reserved_at out x = reserved_at example_map x) \<and>
    (\<forall>x. usable_at out x \<longrightarrow> usable_at example_map x \<and> \<not> reserved_at example_map x)"
  by (rule normalize_correct [OF stable.region_sort_axioms, of "0x8000000"])
    (simp add: example_map_def fits_def)

text \<open>
  The converse fails: a usable region that contains a reserved one loses everything from the
  start of the reserved region, also the part behind it.
\<close>

theorem normalize_loses_usable:
  "normalize_memory_region (sort_key base_addr)
     [\<lparr>base_addr = 0, region_length = 100, region_type = 1\<rparr>,
      \<lparr>base_addr = 10, region_length = 5, region_type = 2\<rparr>] =
   Some [\<lparr>base_addr = 0, region_length = 10, region_type = 1\<rparr>,
         \<lparr>base_addr = 10, region_length = 5, region_type = 2\<rparr>]"
  by (simp add: normalize_memory_region_def normalize_loop.simps resolve_overlaps_def overlap_step_def
      remove_empty_def remove_step_def merge_loop.simps restrict_type_def wadd64_def Let_def
      TYPE_USABLE_def TYPE_RESERVED_def upt_rec)

end
