(* ===== verification/Phys_Memory.thy ===== *)
theory Phys_Memory
  imports Memory_Map
begin

text \<open>
  Physical memory and the frame allocator of the kernel (\<open>kernel/src/memory/physics.rs\<close>).

  \<^item> \<open>machine\<close>: the bytes of physical memory, the frame that the window page at \<open>0x3000\<close> shows
    (the entry \<open>LOADER_PT[3]\<close>, which only \<open>insert_temp_page_table\<close> writes and only the processor
    reads), the statics of \<open>physics.rs\<close> and those of \<open>page.rs\<close> that \<open>page::init\<close> sets.
  \<^item> \<open>read_memory\<close>, \<open>write_memory\<close> and \<open>zero_memory\<close>, which go through the window page by page, with
    the lemmas that they copy exactly the bytes asked for.
  \<^item> \<open>FrameAllocator\<close>: the list of returned frames is stored in the frames themselves.
    \<open>frames s fs U\<close> says that \<open>fs\<close> is this list and that the frames of \<open>U\<close> are handed out; the
    two operations keep it.

  Addresses are natural numbers; sums that the program computes in 64 bits wrap (\<open>wadd64\<close>).
\<close>

section \<open>Model\<close>

record machine =
  phys :: "nat \<Rightarrow> u8"
  temp_page :: nat
  MEMORY_REGION :: "MemoryRegion list"
  first_alloc_address :: "nat option"
  linked_free_address :: "nat option"
  PML4 :: nat
  KERNEL_PD :: "nat option"

definition get_bytes :: "(nat \<Rightarrow> u8) \<Rightarrow> nat \<Rightarrow> nat \<Rightarrow> u8 list" where
  "get_bytes m a n = map m [a..<a + n]"

definition put_bytes :: "nat \<Rightarrow> u8 list \<Rightarrow> (nat \<Rightarrow> u8) \<Rightarrow> nat \<Rightarrow> u8" where
  "put_bytes a bs m x = (if a \<le> x \<and> x < a + length bs then bs ! (x - a) else m x)"

definition insert_temp_page_table :: "nat \<Rightarrow> (machine, 'e, nat \<times> nat) prog" where
  "insert_temp_page_table address =
    (let aligned = address - address mod 0x1000;
         virtual_start = address - aligned + 0x3000;
         virtual_len = aligned + 0x1000 - address
     in bind (modify (\<lambda>s. s\<lparr>temp_page := aligned\<rparr>)) (\<lambda>_. ret (virtual_start, virtual_len)))"

text \<open>The physical address behind a virtual address of the window.\<close>

definition window :: "machine \<Rightarrow> nat \<Rightarrow> nat" where
  "window s v = temp_page s + (v - 0x3000)"

partial_function (option) read_memory_loop ::
  "nat \<Rightarrow> nat \<Rightarrow> u8 list \<Rightarrow> machine \<Rightarrow> (('e, u8 list) res \<times> machine) option" where
  "read_memory_loop src_start src_end dst s =
    (if src_start < src_end then
       bind (insert_temp_page_table src_start) (\<lambda>(start, len).
       bind (gets (\<lambda>s. get_bytes (phys s) (window s start) (min len (src_end - src_start)))) (\<lambda>bs.
       read_memory_loop (src_start + min len (src_end - src_start)) src_end (dst @ bs))) s
     else ret dst s)"

definition read_memory :: "nat \<Rightarrow> nat \<Rightarrow> (machine, 'e, u8 list) prog" where
  "read_memory address len = read_memory_loop address (wadd64 address len) []"

partial_function (option) write_memory_loop ::
  "nat \<Rightarrow> nat \<Rightarrow> u8 list \<Rightarrow> machine \<Rightarrow> (('e, unit) res \<times> machine) option" where
  "write_memory_loop dst_start dst_end src s =
    (if dst_start < dst_end then
       bind (insert_temp_page_table dst_start) (\<lambda>(start, len).
       bind (modify (\<lambda>s. s\<lparr>phys := put_bytes (window s start) (take (min len (dst_end - dst_start)) src) (phys s)\<rparr>))
         (\<lambda>_.
       write_memory_loop (dst_start + min len (dst_end - dst_start)) dst_end
         (drop (min len (dst_end - dst_start)) src))) s
     else ret () s)"

definition write_memory :: "nat \<Rightarrow> u8 list \<Rightarrow> (machine, 'e, unit) prog" where
  "write_memory address src = write_memory_loop address (wadd64 address (length src)) src"

partial_function (option) zero_memory_loop ::
  "nat \<Rightarrow> nat \<Rightarrow> machine \<Rightarrow> (('e, unit) res \<times> machine) option" where
  "zero_memory_loop dst_start dst_end s =
    (if dst_start < dst_end then
       bind (insert_temp_page_table dst_start) (\<lambda>(start, len).
       bind (modify (\<lambda>s. s\<lparr>phys := put_bytes (window s start) (replicate (min len (dst_end - dst_start)) 0) (phys s)\<rparr>))
         (\<lambda>_.
       zero_memory_loop (dst_start + min len (dst_end - dst_start)) dst_end)) s
     else ret () s)"

definition zero_memory :: "nat \<Rightarrow> nat \<Rightarrow> (machine, 'e, unit) prog" where
  "zero_memory address len = zero_memory_loop address (wadd64 address len)"

text \<open>\<open>NonZeroUsize::new\<close>, and the representation of \<open>Option<NonZeroUsize>\<close> in memory: zero is \<open>None\<close>.\<close>

definition nonzero :: "nat \<Rightarrow> nat option" where
  "nonzero n = (if n = 0 then None else Some n)"

definition of_nonzero :: "nat option \<Rightarrow> nat" where
  "of_nonzero p = (case p of None \<Rightarrow> 0 | Some n \<Rightarrow> n)"

text \<open>The loop of \<open>alloc_frame\<close> over the regions: the start and the end of the frame it finds.\<close>

definition align_start :: "nat \<Rightarrow> nat" where
  "align_start a = (if and a 0xFFF \<noteq> 0 then and a 0x1000 + 0x1000 else a)"

fun alloc_in_regions :: "nat \<Rightarrow> MemoryRegion list \<Rightarrow> (nat \<times> nat) option" where
  "alloc_in_regions first [] = None"
| "alloc_in_regions first (r # rs) =
    (let region_end = wadd64 (base_addr r) (region_length r);
         alloc_start = align_start (max (base_addr r) first);
         alloc_end = wadd64 alloc_start 0x1000
     in if region_end \<le> first then alloc_in_regions first rs
        else if alloc_end > region_end then alloc_in_regions first rs
        else Some (alloc_start, alloc_end))"

definition alloc_frame :: "(machine, 'e, nat option) prog" where
  "alloc_frame =
    bind (gets linked_free_address) (\<lambda>linked.
    case linked of
      Some a \<Rightarrow>
        bind (read_memory a 8) (\<lambda>bs.
        bind (modify (\<lambda>s. s\<lparr>linked_free_address := nonzero (from_le bs)\<rparr>)) (\<lambda>_. ret (Some a)))
    | None \<Rightarrow>
        bind (gets (\<lambda>s. case first_alloc_address s of None \<Rightarrow> None
                        | Some a \<Rightarrow> alloc_in_regions a (MEMORY_REGION s))) (\<lambda>found.
        case found of
          Some (alloc_start, alloc_end) \<Rightarrow>
            bind (modify (\<lambda>s. s\<lparr>first_alloc_address := nonzero alloc_end\<rparr>)) (\<lambda>_.
            ret (nonzero alloc_start))
        | None \<Rightarrow>
            bind (modify (\<lambda>s. s\<lparr>first_alloc_address := None\<rparr>)) (\<lambda>_. ret None)))"

definition delloc_frame :: "nat \<Rightarrow> (machine, 'e, unit) prog" where
  "delloc_frame address =
    bind (gets linked_free_address) (\<lambda>linked.
    bind (write_memory address (to_le 8 (of_nonzero linked))) (\<lambda>_.
    modify (\<lambda>s. s\<lparr>linked_free_address := Some address\<rparr>)))"

section \<open>Bytes of memory\<close>

lemma length_get_bytes [simp]: "length (get_bytes m a n) = n"
  by (simp add: get_bytes_def)

lemma get_bytes_nth [simp]: "i < n \<Longrightarrow> get_bytes m a n ! i = m (a + i)"
  by (simp add: get_bytes_def)

lemma get_bytes_0 [simp]: "get_bytes m a 0 = []"
  by (simp add: get_bytes_def)

lemma get_bytes_append: "get_bytes m a (n + k) = get_bytes m a n @ get_bytes m (a + n) k"
  using upt_add_eq_append [of a "a + n" k] by (simp add: get_bytes_def add.assoc)

lemma get_bytes_cong: "(\<And>x. a \<le> x \<Longrightarrow> x < a + n \<Longrightarrow> m x = m' x) \<Longrightarrow> get_bytes m a n = get_bytes m' a n"
  by (simp add: get_bytes_def)

lemma get_put_bytes [simp]: "get_bytes (put_bytes a bs m) a (length bs) = bs"
  by (rule nth_equalityI) (simp_all add: put_bytes_def)

lemma put_bytes_Nil [simp]: "put_bytes a [] m = m"
  by (rule ext) (auto simp: put_bytes_def)

lemma put_bytes_append: "put_bytes (a + length bs) cs (put_bytes a bs m) = put_bytes a (bs @ cs) m"
  by (rule ext) (auto simp: put_bytes_def nth_append)

lemma put_bytes_other: "x < a \<or> a + length bs \<le> x \<Longrightarrow> put_bytes a bs m x = m x"
  by (auto simp: put_bytes_def)

lemma get_put_other: "b + n \<le> a \<or> a + length bs \<le> b \<Longrightarrow> get_bytes (put_bytes a bs m) b n = get_bytes m b n"
  by (rule get_bytes_cong) (auto simp: put_bytes_def)

section \<open>Access through the window\<close>

definition page_of :: "nat \<Rightarrow> nat" where
  "page_of a = a - a mod 0x1000"

lemma run_insert_temp [run_simps]:
  "insert_temp_page_table a s =
     Some (Ok (a mod 0x1000 + 0x3000, 0x1000 - a mod 0x1000), s\<lparr>temp_page := page_of a\<rparr>)"
  by (simp add: insert_temp_page_table_def page_of_def Let_def)

lemma window_page [simp]: "window (s\<lparr>temp_page := page_of a\<rparr>) (a mod 0x1000 + 0x3000) = a"
  by (simp add: window_def page_of_def)

lemma page_of_eq: "page_of a = a div 0x1000 * 0x1000"
  by (simp add: page_of_def minus_mod_eq_div_mult)

lemma page_of_last:
  assumes "0 < n" and "n \<le> 0x1000 - a mod 0x1000"
  shows "page_of (a + n - 1) = page_of a"
proof -
  define q r where "q = a div 0x1000" and "r = a mod 0x1000"
  have "a = 0x1000 * q + r" "r < 0x1000" "n \<le> 0x1000 - r" using assms(2) by (simp_all add: q_def r_def)
  then have "0x1000 * q \<le> a + n - 1" "a + n - 1 < 0x1000 * Suc q" using assms(1) by simp_all
  then have "(a + n - 1) div 0x1000 = q" by (rule div_nat_eqI)
  then have "(a + n - 1) div 0x1000 = a div 0x1000" by (simp only: q_def)
  then show ?thesis by (simp add: page_of_eq)
qed

text \<open>The window after an access to \<open>n\<close> bytes at \<open>a\<close>.\<close>

definition touch :: "nat \<Rightarrow> nat \<Rightarrow> machine \<Rightarrow> machine" where
  "touch a n s = (if n = 0 then s else s\<lparr>temp_page := page_of (a + n - 1)\<rparr>)"

lemma touch_sel [simp]:
  "phys (touch a n s) = phys s" "MEMORY_REGION (touch a n s) = MEMORY_REGION s"
  "first_alloc_address (touch a n s) = first_alloc_address s"
  "linked_free_address (touch a n s) = linked_free_address s"
  "PML4 (touch a n s) = PML4 s" "KERNEL_PD (touch a n s) = KERNEL_PD s"
  by (simp_all add: touch_def)

lemma touch_phys: "touch a n (s\<lparr>phys := m\<rparr>) = (touch a n s)\<lparr>phys := m\<rparr>"
  by (simp add: touch_def)

lemma touch_split:
  assumes "0 < k" and "k \<le> 0x1000 - a mod 0x1000" and "k \<le> n"
  shows "touch (a + k) (n - k) (s\<lparr>temp_page := page_of a\<rparr>) = touch a n s"
  using assms page_of_last [of k a] by (auto simp: touch_def)

lemma window_step: "0 < n \<Longrightarrow> 0 < min (0x1000 - a mod 0x1000) n" for a n :: nat
  using mod_less_divisor [of "0x1000::nat" a] by simp

lemma read_memory_loop_run:
  "read_memory_loop a (a + n) dst s =
     (Some (Ok (dst @ get_bytes (phys s) a n), touch a n s) :: (('e, u8 list) res \<times> machine) option)"
proof (induction n arbitrary: a dst s rule: less_induct)
  case (less n)
  show ?case
  proof (cases "n = 0")
    case True
    then show ?thesis by (simp add: read_memory_loop.simps touch_def)
  next
    case False
    define k where "k = min (0x1000 - a mod 0x1000) n"
    have k: "0 < k" "k \<le> n" "k \<le> 0x1000 - a mod 0x1000"
      using False window_step [of n a] by (auto simp: k_def)
    have "(read_memory_loop a (a + n) dst s :: (('e, u8 list) res \<times> machine) option) =
        read_memory_loop (a + k) (a + k + (n - k)) (dst @ get_bytes (phys s) a k) (s\<lparr>temp_page := page_of a\<rparr>)"
      using False k by (subst read_memory_loop.simps) (simp add: run_insert_temp flip: k_def)
    also have "\<dots> = Some (Ok (dst @ get_bytes (phys s) a k @ get_bytes (phys s) (a + k) (n - k)), touch a n s)"
      using less [of "n - k" "a + k" "dst @ get_bytes (phys s) a k" "s\<lparr>temp_page := page_of a\<rparr>"] k
        touch_split [OF k(1,3,2), of s] by simp
    also have "get_bytes (phys s) a k @ get_bytes (phys s) (a + k) (n - k) = get_bytes (phys s) a n"
      using k get_bytes_append [of "phys s" a k "n - k"] by simp
    finally show ?thesis .
  qed
qed

lemma write_memory_loop_run:
  "write_memory_loop a (a + length bs) bs s =
     (Some (Ok (), (touch a (length bs) s)\<lparr>phys := put_bytes a bs (phys s)\<rparr>) :: (('e, unit) res \<times> machine) option)"
proof (induction "length bs" arbitrary: a bs s rule: less_induct)
  case less
  show ?case
  proof (cases "bs = []")
    case True
    then show ?thesis by (simp add: write_memory_loop.simps touch_def)
  next
    case False
    define k where "k = min (0x1000 - a mod 0x1000) (length bs)"
    have k: "0 < k" "k \<le> length bs" "k \<le> 0x1000 - a mod 0x1000"
      using False window_step [of "length bs" a] by (auto simp: k_def)
    let ?s = "s\<lparr>temp_page := page_of a, phys := put_bytes a (take k bs) (phys s)\<rparr>"
    have "(write_memory_loop a (a + length bs) bs s :: (('e, unit) res \<times> machine) option) =
        write_memory_loop (a + k) (a + k + length (drop k bs)) (drop k bs) ?s"
      using False k by (subst write_memory_loop.simps) (simp add: run_insert_temp flip: k_def)
    also have "\<dots> = Some (Ok (), (touch (a + k) (length (drop k bs)) ?s)\<lparr>phys := put_bytes (a + k) (drop k bs) (phys ?s)\<rparr>)"
      using less [of "drop k bs" "a + k" ?s] k by simp
    also have "put_bytes (a + k) (drop k bs) (phys ?s) = put_bytes a bs (phys s)"
      using k put_bytes_append [of a "take k bs" "drop k bs" "phys s"] by simp
    also have "touch (a + k) (length (drop k bs)) ?s = (touch a (length bs) s)\<lparr>phys := put_bytes a (take k bs) (phys s)\<rparr>"
      using touch_split [OF k(1,3,2), of s] by (simp add: touch_phys)
    finally show ?thesis by simp
  qed
qed

lemma zero_memory_loop_run:
  "zero_memory_loop a (a + n) s =
     (Some (Ok (), (touch a n s)\<lparr>phys := put_bytes a (replicate n 0) (phys s)\<rparr>) :: (('e, unit) res \<times> machine) option)"
proof (induction n arbitrary: a s rule: less_induct)
  case (less n)
  show ?case
  proof (cases "n = 0")
    case True
    then show ?thesis by (simp add: zero_memory_loop.simps touch_def)
  next
    case False
    define k where "k = min (0x1000 - a mod 0x1000) n"
    have k: "0 < k" "k \<le> n" "k \<le> 0x1000 - a mod 0x1000"
      using False window_step [of n a] by (auto simp: k_def)
    let ?s = "s\<lparr>temp_page := page_of a, phys := put_bytes a (replicate k 0) (phys s)\<rparr>"
    have "(zero_memory_loop a (a + n) s :: (('e, unit) res \<times> machine) option) = zero_memory_loop (a + k) (a + k + (n - k)) ?s"
      using False k by (subst zero_memory_loop.simps) (simp add: run_insert_temp flip: k_def)
    also have "\<dots> = Some (Ok (), (touch (a + k) (n - k) ?s)\<lparr>phys := put_bytes (a + k) (replicate (n - k) 0) (phys ?s)\<rparr>)"
      using less [of "n - k" "a + k" ?s] k by simp
    also have "put_bytes (a + k) (replicate (n - k) 0) (phys ?s) = put_bytes a (replicate n 0) (phys s)"
      using k put_bytes_append [of a "replicate k 0" "replicate (n - k) 0" "phys s"]
      by (simp flip: replicate_add)
    also have "touch (a + k) (n - k) ?s = (touch a n s)\<lparr>phys := put_bytes a (replicate k 0) (phys s)\<rparr>"
      using touch_split [OF k(1,3,2), of s] by (simp add: touch_phys)
    finally show ?thesis by simp
  qed
qed

lemma run_read_memory:
  "a + n < 2 ^ 64 \<Longrightarrow> read_memory a n s = Some (Ok (get_bytes (phys s) a n), touch a n s)"
  by (simp add: read_memory_def wadd64_small read_memory_loop_run)

lemma run_write_memory:
  "a + length bs < 2 ^ 64 \<Longrightarrow>
   write_memory a bs s = Some (Ok (), (touch a (length bs) s)\<lparr>phys := put_bytes a bs (phys s)\<rparr>)"
  by (simp add: write_memory_def wadd64_small write_memory_loop_run)

lemma run_zero_memory:
  "a + n < 2 ^ 64 \<Longrightarrow>
   zero_memory a n s = Some (Ok (), (touch a n s)\<lparr>phys := put_bytes a (replicate n 0) (phys s)\<rparr>)"
  by (simp add: zero_memory_def wadd64_small zero_memory_loop_run)

lemmas memory_runs = run_read_memory run_write_memory run_zero_memory

section \<open>The frame allocator\<close>

definition load64 :: "(nat \<Rightarrow> u8) \<Rightarrow> nat \<Rightarrow> nat" where
  "load64 m a = from_le (get_bytes m a 8)"

lemma load64_cong: "(\<And>x. a \<le> x \<Longrightarrow> x < a + 8 \<Longrightarrow> m x = m' x) \<Longrightarrow> load64 m a = load64 m' a"
  unfolding load64_def by (metis get_bytes_cong)

lemma load64_put [simp]: "n < 2 ^ 64 \<Longrightarrow> load64 (put_bytes a (to_le 8 n) m) a = n"
  using get_put_bytes [of a "to_le 8 n" m] by (simp add: load64_def del: get_put_bytes)

lemma load64_put_other: "b + 8 \<le> a \<or> a + length bs \<le> b \<Longrightarrow> load64 (put_bytes a bs m) b = load64 m b"
  by (simp add: load64_def get_put_other)

lemma load64_less: "load64 m a < 2 ^ 64"
  using from_le_less [of "get_bytes m a 8"] by (simp add: load64_def)

lemma nonzero_of_nonzero [simp]: "p \<noteq> Some 0 \<Longrightarrow> nonzero (of_nonzero p) = p"
  by (auto simp: nonzero_def of_nonzero_def split: option.splits)

text \<open>A frame: aligned, not zero, within the 52 bits of a physical address.\<close>

definition frame :: "nat \<Rightarrow> bool" where
  "frame f \<longleftrightarrow> 0 < f \<and> 0x1000 dvd f \<and> f + 0x1000 \<le> 2 ^ 52"

lemma frames_apart: "frame f \<Longrightarrow> frame g \<Longrightarrow> f \<noteq> g \<Longrightarrow> f + 0x1000 \<le> g \<or> g + 0x1000 \<le> f"
  unfolding frame_def by (auto elim!: dvdE)

lemma frame_less: "frame f \<Longrightarrow> f + 0x1000 < 2 ^ 64"
  by (simp add: frame_def)

fun linked :: "(nat \<Rightarrow> u8) \<Rightarrow> nat option \<Rightarrow> nat list \<Rightarrow> bool" where
  "linked m p [] \<longleftrightarrow> p = None"
| "linked m p (f # fs) \<longleftrightarrow> p = Some f \<and> linked m (nonzero (load64 m f)) fs"

lemma linked_cong:
  "(\<And>f x. f \<in> set fs \<Longrightarrow> f \<le> x \<Longrightarrow> x < f + 8 \<Longrightarrow> m x = m' x) \<Longrightarrow> linked m p fs = linked m' p fs"
proof (induction fs arbitrary: p)
  case (Cons f fs)
  have "load64 m f = load64 m' f" using Cons.prems by (intro load64_cong) auto
  moreover have "linked m q fs = linked m' q fs" for q using Cons.prems by (intro Cons.IH) auto
  ultimately show ?case by simp
qed simp

text \<open>
  The state of the allocator: \<open>fs\<close> is the list of returned frames, \<open>U\<close> the set of frames in
  use.  Memory that was never handed out lies above \<open>first_alloc_address\<close>.
\<close>

definition below :: "nat option \<Rightarrow> nat \<Rightarrow> bool" where
  "below first f \<longleftrightarrow> (case first of None \<Rightarrow> True | Some a \<Rightarrow> f + 0x1000 \<le> a)"

definition aligned_regions :: "MemoryRegion list \<Rightarrow> bool" where
  "aligned_regions rs \<longleftrightarrow> (\<forall>r \<in> set rs. 0x1000 dvd base_addr r \<and> base_addr r + region_length r \<le> 2 ^ 52)"

definition frames :: "machine \<Rightarrow> nat list \<Rightarrow> nat set \<Rightarrow> bool" where
  "frames s fs U \<longleftrightarrow>
     linked (phys s) (linked_free_address s) fs \<and> distinct fs \<and> set fs \<inter> U = {} \<and>
     (\<forall>f \<in> set fs \<union> U. frame f \<and> below (first_alloc_address s) f) \<and>
     (\<forall>a. first_alloc_address s = Some a \<longrightarrow> 0 < a \<and> 0x1000 dvd a) \<and>
     aligned_regions (MEMORY_REGION s)"

lemma framesD:
  assumes "frames s fs U"
  shows "linked (phys s) (linked_free_address s) fs" and "distinct fs" and "set fs \<inter> U = {}"
    and "f \<in> set fs \<Longrightarrow> frame f" and "f \<in> U \<Longrightarrow> frame f"
    and "f \<in> set fs \<union> U \<Longrightarrow> below (first_alloc_address s) f"
    and "first_alloc_address s = Some a \<Longrightarrow> 0 < a \<and> 0x1000 dvd a"
    and "aligned_regions (MEMORY_REGION s)"
  using assms unfolding frames_def by auto

text \<open>Writing to memory outside the returned frames does not disturb the allocator.\<close>

lemma frames_cong:
  assumes "frames s fs U"
    and "\<And>f x. f \<in> set fs \<Longrightarrow> f \<le> x \<Longrightarrow> x < f + 8 \<Longrightarrow> phys s' x = phys s x"
    and "linked_free_address s' = linked_free_address s" and "first_alloc_address s' = first_alloc_address s"
    and "MEMORY_REGION s' = MEMORY_REGION s"
  shows "frames s' fs U"
  using assms linked_cong [of fs "phys s'" "phys s"] unfolding frames_def by simp

lemma align_start_aligned: "0x1000 dvd a \<Longrightarrow> align_start a = a"
proof -
  assume "0x1000 dvd a"
  moreover have "and a 0xFFF = take_bit 12 a" by (simp add: take_bit_eq_mask mask_eq_exp_minus_1)
  then have "and a 0xFFF = a mod 0x1000" by (simp add: take_bit_eq_mod)
  ultimately show ?thesis by (simp add: align_start_def)
qed

lemma alloc_in_regions_some:
  assumes "alloc_in_regions a rs = Some (b, e)" and "aligned_regions rs" and "0x1000 dvd a"
  shows "a \<le> b \<and> 0x1000 dvd b \<and> e = b + 0x1000 \<and>
    (\<exists>r \<in> set rs. base_addr r \<le> b \<and> b + 0x1000 \<le> base_addr r + region_length r)"
  using assms
proof (induction rs)
  case (Cons r rs)
  let ?m = "max (base_addr r) a"
  have d: "0x1000 dvd ?m" using Cons.prems by (auto simp: aligned_regions_def max_def)
  have e: "wadd64 (base_addr r) (region_length r) = base_addr r + region_length r"
    using Cons.prems(2) by (intro wadd64_small) (auto simp: aligned_regions_def)
  show ?case
  proof (cases "base_addr r + region_length r \<le> a \<or> wadd64 ?m 0x1000 > base_addr r + region_length r")
    case True
    then show ?thesis
      using Cons e by (auto simp: align_start_aligned [OF d] Let_def aligned_regions_def split: if_splits)
  next
    case False
    then have "?m \<le> 2 ^ 52" using Cons.prems(2) by (auto simp: aligned_regions_def)
    then have "wadd64 ?m 0x1000 = ?m + 0x1000" by (intro wadd64_small) simp
    then show ?thesis
      using False Cons.prems e d by (auto simp: align_start_aligned Let_def)
  qed
qed simp

text \<open>The components of the state that \<open>init\<close> sets once.\<close>

definition same_statics :: "machine \<Rightarrow> machine \<Rightarrow> bool" where
  "same_statics s s' \<longleftrightarrow>
     MEMORY_REGION s' = MEMORY_REGION s \<and> PML4 s' = PML4 s \<and> KERNEL_PD s' = KERNEL_PD s"

lemma same_statics_refl [simp]: "same_statics s s"
  by (simp add: same_statics_def)

lemma same_statics_trans: "same_statics s s' \<Longrightarrow> same_statics s' s'' \<Longrightarrow> same_statics s s''"
  by (simp add: same_statics_def)

text \<open>
  \<open>alloc_frame\<close>: a returned frame is used first, the one returned last; otherwise the next frame of
  the memory regions.
\<close>

definition in_region :: "machine \<Rightarrow> nat \<Rightarrow> bool" where
  "in_region s f \<longleftrightarrow>
     (\<exists>r \<in> set (MEMORY_REGION s). base_addr r \<le> f \<and> f + 0x1000 \<le> base_addr r + region_length r)"

lemma alloc_frame_wp:
  assumes "frames s fs U"
    and "\<And>f s'. phys s' = phys s \<Longrightarrow> same_statics s s' \<Longrightarrow> frame f \<Longrightarrow> f \<notin> U \<Longrightarrow> frames s' (tl fs) (insert f U) \<Longrightarrow>
      (if fs = [] then in_region s f else f = hd fs) \<Longrightarrow> Q (Some f) s'"
    and "\<And>s'. fs = [] \<Longrightarrow> phys s' = phys s \<Longrightarrow> same_statics s s' \<Longrightarrow> frames s' [] U \<Longrightarrow> Q None s'"
  shows "returns (alloc_frame s) Q"
proof (cases fs)
  case (Cons f gs)
  note inv = framesD [OF assms(1)]
  let ?s = "(touch f 8 s)\<lparr>linked_free_address := nonzero (load64 (phys s) f)\<rparr>"
  have f: "linked_free_address s = Some f" "linked (phys s) (nonzero (load64 (phys s) f)) gs"
    using inv(1) by (simp_all add: Cons)
  have "f + 8 < 2 ^ 64" using inv(4) [of f] frame_less [of f] by (simp add: Cons)
  then have "returns (alloc_frame s) Q \<longleftrightarrow> Q (Some f) ?s"
    using f(1) by (simp add: alloc_frame_def run_read_memory load64_def)
  moreover have "frames ?s gs (insert f U)"
    using assms(1) f(2) unfolding frames_def Cons by auto
  ultimately show ?thesis
    using inv(3) inv(4) [of f] by (simp add: Cons assms(2) same_statics_def)
next
  case Nil
  note inv = framesD [OF assms(1)]
  have l: "linked_free_address s = None" using inv(1) by (simp add: Nil)
  show ?thesis
  proof (cases "case first_alloc_address s of None \<Rightarrow> None | Some a \<Rightarrow> alloc_in_regions a (MEMORY_REGION s)")
    case None
    then have "returns (alloc_frame s) Q \<longleftrightarrow> Q None (s\<lparr>first_alloc_address := None\<rparr>)"
      by (simp add: alloc_frame_def l)
    moreover have "frames (s\<lparr>first_alloc_address := None\<rparr>) [] U"
      using assms(1) by (auto simp: Nil frames_def below_def)
    ultimately show ?thesis by (simp add: Nil assms(3) same_statics_def)
  next
    case (Some be)
    then obtain a f e where a: "first_alloc_address s = Some a"
      and found: "alloc_in_regions a (MEMORY_REGION s) = Some (f, e)"
      by (cases be) (auto split: option.splits)
    let ?s = "s\<lparr>first_alloc_address := Some (f + 0x1000)\<rparr>"
    have a': "0 < a" "0x1000 dvd a" using inv(7) [OF a] by auto
    have r: "a \<le> f" "0x1000 dvd f" "e = f + 0x1000" "in_region s f"
      using alloc_in_regions_some [OF found inv(8) a'(2)] by (auto simp: in_region_def)
    have "returns (alloc_frame s) Q \<longleftrightarrow> Q (Some f) ?s"
      using a' r by (simp add: alloc_frame_def l a found nonzero_def)
    moreover have "frame f"
      using r a'(1) inv(8) by (force simp: frame_def aligned_regions_def in_region_def)
    moreover have "f \<notin> U" using inv(6) [of f] r(1) a by (auto simp: below_def)
    moreover have "frames ?s [] (insert f U)"
      using assms(1) r(1,2) \<open>frame f\<close> a unfolding frames_def below_def Nil by auto
    ultimately show ?thesis using r(4) by (simp add: Nil assms(2) same_statics_def)
  qed
qed

lemma delloc_frame_wp:
  assumes "frames s fs U" and "f \<in> U"
    and "\<And>s'. (\<And>x. x < f \<or> f + 8 \<le> x \<Longrightarrow> phys s' x = phys s x) \<Longrightarrow> same_statics s s' \<Longrightarrow>
      frames s' (f # fs) (U - {f}) \<Longrightarrow> Q () s'"
  shows "returns (delloc_frame f s) Q"
proof -
  note inv = framesD [OF assms(1)]
  let ?p = "linked_free_address s"
  let ?m = "put_bytes f (to_le 8 (of_nonzero ?p)) (phys s)"
  let ?s = "(touch f 8 s)\<lparr>phys := ?m, linked_free_address := Some f\<rparr>"
  have f: "frame f" using inv(5) assms(2) by blast
  have "returns (delloc_frame f s) Q \<longleftrightarrow> Q () ?s"
    using frame_less [OF f] by (simp add: delloc_frame_def run_write_memory)
  have p: "of_nonzero ?p < 2 ^ 64" "?p \<noteq> Some 0"
    using inv(1,4) by (cases fs; force simp: of_nonzero_def frame_def)+
  have "linked ?m q fs = linked (phys s) q fs" for q
  proof (rule linked_cong)
    fix g x assume "g \<in> set fs" "g \<le> x" "x < g + 8"
    then have "f + 0x1000 \<le> g \<or> g + 0x1000 \<le> f"
      using frames_apart [OF f, of g] inv(3,4) assms(2) by auto
    then show "?m x = phys s x" using \<open>g \<le> x\<close> \<open>x < g + 8\<close> by (auto simp: put_bytes_def)
  qed
  then have "linked ?m (Some f) (f # fs)" using p inv(1) by simp
  then have "frames ?s (f # fs) (U - {f})"
    using assms(1,2) unfolding frames_def by auto
  then have "Q () ?s" by (intro assms(3)) (auto simp: put_bytes_def same_statics_def)
  then show ?thesis using \<open>returns (delloc_frame f s) Q \<longleftrightarrow> Q () ?s\<close> by simp
qed

section \<open>Properties\<close>


definition example_machine :: "(nat \<Rightarrow> u8) \<Rightarrow> machine" where
  "example_machine m =
    \<lparr>phys = m, temp_page = 0,
     MEMORY_REGION = [\<lparr>base_addr = 0, region_length = 0x9FC00, region_type = TYPE_USABLE\<rparr>,
                      \<lparr>base_addr = 0x100000, region_length = 0x7EE0000, region_type = TYPE_USABLE\<rparr>],
     first_alloc_address = Some 0x600000, linked_free_address = None, PML4 = 0x9000, KERNEL_PD = Some 0xB000\<rparr>"

lemma example_frames: "frames (example_machine m) [] {0x9000}"
  by (auto simp: frames_def example_machine_def below_def aligned_regions_def frame_def)


text \<open>
  \<open>alloc_frame\<close> does not look at the type of a region.  The map of the boot loader keeps reserved
  regions, so once the usable memory below is used up, reserved memory is handed out.
\<close>

theorem alloc_frame_reserved:
  "alloc_frame ((example_machine m)\<lparr>MEMORY_REGION :=
       [\<lparr>base_addr = 0x100000, region_length = 0x500000, region_type = TYPE_USABLE\<rparr>,
        \<lparr>base_addr = 0xFFFC0000, region_length = 0x40000, region_type = TYPE_RESERVED\<rparr>]\<rparr>) =
   Some (Ok (Some 0xFFFC0000), (example_machine m)\<lparr>MEMORY_REGION :=
       [\<lparr>base_addr = 0x100000, region_length = 0x500000, region_type = TYPE_USABLE\<rparr>,
        \<lparr>base_addr = 0xFFFC0000, region_length = 0x40000, region_type = TYPE_RESERVED\<rparr>],
       first_alloc_address := Some 0xFFFC1000\<rparr>)"
  by (simp add: alloc_frame_def example_machine_def wadd64_def align_start_aligned Let_def nonzero_def)

text \<open>
  The start of a region that is not aligned is rounded with the mask \<open>0x1000\<close> instead of its
  complement: the frame handed out is \<open>0x1000\<close> or \<open>0x2000\<close>, in low memory and outside the region.
\<close>

theorem alloc_frame_unaligned:
  "alloc_frame ((example_machine m)\<lparr>MEMORY_REGION :=
       [\<lparr>base_addr = 0x700400, region_length = 0x100000, region_type = TYPE_USABLE\<rparr>]\<rparr>) =
   Some (Ok (Some 0x1000), (example_machine m)\<lparr>MEMORY_REGION :=
       [\<lparr>base_addr = 0x700400, region_length = 0x100000, region_type = TYPE_USABLE\<rparr>],
       first_alloc_address := Some 0x2000\<rparr>)"
  by (simp add: alloc_frame_def example_machine_def wadd64_def align_start_def Let_def nonzero_def)

end
