(* ===== verification/Page_Table.thy ===== *)
theory Page_Table
  imports Phys_Memory
begin

text \<open>
  The four-level page tables of the kernel (\<open>kernel/src/memory/page.rs\<close>): the definitions.

  \<^item> \<open>PageEntry\<close> is a 64-bit number; \<open>get_entry\<close>, \<open>write_entry\<close> and \<open>is_all_emptry\<close> access a table
    through the window of \<open>Phys_Memory\<close>.
  \<^item> \<open>write_memory_page\<close> and \<open>remove_memory_page\<close> map and unmap one page, with the tables they
    allocate and free on the way; \<open>alloc_mapped_frame\<close> and \<open>free_mapped_frame\<close> do so for a range.
  \<^item> \<open>find_free_virtual_memory\<close> searches the range, \<open>write_page_table_memory\<close> and
    \<open>read_page_table_memory\<close> copy through the tables, \<open>alloc_user_page_table\<close> and
    \<open>release_user_page_table\<close> make and destroy a user address space.
  \<^item> The initialisation of the physical memory, which counts the entries of \<open>KERNEL_PD\<close>.

  Disabling interrupts and flushing the translation cache of the processor have no effect on the
  state of the model.  The theories \<open>Page_Map\<close> and \<open>Address_Space\<close> hold the proofs.
\<close>

section \<open>Entries\<close>

type_synonym PageEntry = nat

definition P_PRESENT :: nat where "P_PRESENT = 2 ^ 0"
definition P_RW :: nat where "P_RW = 2 ^ 1"
definition P_US :: nat where "P_US = 2 ^ 2"
definition P_PS :: nat where "P_PS = 2 ^ 7"
definition P_NX :: nat where "P_NX = 2 ^ 62"

definition address :: "PageEntry \<Rightarrow> nat" where
  "address e = and e 0x000FFFFFFFFFF000"

definition ps :: "PageEntry \<Rightarrow> bool" where
  "ps e \<longleftrightarrow> and e P_PS \<noteq> 0"

definition user :: "PageEntry \<Rightarrow> bool" where
  "user e \<longleftrightarrow> and e P_US \<noteq> 0"

definition present :: "PageEntry \<Rightarrow> bool" where
  "present e \<longleftrightarrow> and e P_PRESENT \<noteq> 0"

definition table_index :: "nat \<Rightarrow> nat \<Rightarrow> nat" where
  "table_index shift virtual_memory = and (drop_bit shift virtual_memory) 0x1FF"

definition get_entry :: "nat \<Rightarrow> nat \<Rightarrow> (machine, 'e, PageEntry) prog" where
  "get_entry s index =
    bind (assert (s \<noteq> 0)) (\<lambda>_.
    bind (assert (and s 0xFFF = 0)) (\<lambda>_.
    bind (assert (index < 512)) (\<lambda>_.
    bind (read_memory (s + index * 8) 8) (\<lambda>bs. ret (from_le bs)))))"

definition write_entry :: "nat \<Rightarrow> nat \<Rightarrow> PageEntry \<Rightarrow> (machine, 'e, unit) prog" where
  "write_entry s index entry =
    bind (assert (s \<noteq> 0)) (\<lambda>_.
    bind (assert (and s 0xFFF = 0)) (\<lambda>_.
    bind (assert (index < 512)) (\<lambda>_.
    write_memory (s + index * 8) (to_le 8 entry))))"

fun is_all_emptry_from :: "nat \<Rightarrow> nat list \<Rightarrow> (machine, 'e, bool) prog" where
  "is_all_emptry_from s [] = ret True"
| "is_all_emptry_from s (i # is) =
    bind (get_entry s i) (\<lambda>entry. if present entry then ret False else is_all_emptry_from s is)"

definition is_all_emptry :: "nat \<Rightarrow> (machine, 'e, bool) prog" where
  "is_all_emptry s = is_all_emptry_from s [0..<512]"

section \<open>Initialisation\<close>

text \<open>
  The tables are mapped one to one while the kernel starts.  The other statics that \<open>init\<close> sets are
  never read, except the one behind the window.
\<close>

definition page_init :: "nat \<Rightarrow> (machine, 'e, unit) prog" where
  "page_init cr3 =
    modify (\<lambda>s.
      let kernel_pdpt = address (load64 (phys s) (cr3 + 511 * 8));
          kernel_pd = address (load64 (phys s) (kernel_pdpt + 511 * 8))
      in s\<lparr>PML4 := cr3, KERNEL_PD := Some kernel_pd\<rparr>)"

definition kernel_pml4 :: "(machine, 'e, nat) prog" where
  "kernel_pml4 = gets PML4"

definition get_kernel_used_memory :: "machine \<Rightarrow> nat" where
  "get_kernel_used_memory s =
    (case KERNEL_PD s of
       None \<Rightarrow> 0
     | Some pd \<Rightarrow> length (filter (\<lambda>i. present (load64 (phys s) (pd + i * 8))) [0..<512]) * 0x200000)"

definition frame_allocator_init :: "(machine, 'e, unit) prog" where
  "frame_allocator_init =
    bind (gets get_kernel_used_memory) (\<lambda>used.
    modify (\<lambda>s. s\<lparr>first_alloc_address := nonzero (used + 0x200000)\<rparr>))"

definition physics_init :: "MemoryRegion list \<Rightarrow> (machine, 'e, unit) prog" where
  "physics_init memory_region =
    bind (modify (\<lambda>s. s\<lparr>MEMORY_REGION := memory_region\<rparr>)) (\<lambda>_. frame_allocator_init)"

definition memory_init :: "nat \<Rightarrow> MemoryRegion list \<Rightarrow> (machine, 'e, unit) prog" where
  "memory_init cr3 memory_region = bind (page_init cr3) (\<lambda>_. physics_init memory_region)"

section \<open>Translation\<close>

definition get_page_table_mapped_physical :: "nat \<Rightarrow> nat \<Rightarrow> (machine, 'e, nat option) prog" where
  "get_page_table_mapped_physical page_table virtual_memory =
    bind (read_memory (page_table + table_index 39 virtual_memory * 8) 8) (\<lambda>bs.
    let pml4_entry = from_le bs in
    if \<not> present pml4_entry then ret None else
    bind (read_memory (address pml4_entry + table_index 30 virtual_memory * 8) 8) (\<lambda>bs.
    let pdpt_entry = from_le bs in
    if \<not> present pdpt_entry then ret None else
    bind (read_memory (address pdpt_entry + table_index 21 virtual_memory * 8) 8) (\<lambda>bs.
    let pd_entry = from_le bs in
    if \<not> present pd_entry then ret None else
    bind (read_memory (address pd_entry + table_index 12 virtual_memory * 8) 8) (\<lambda>bs.
    let pt_entry = from_le bs in
    if \<not> present pt_entry then ret None else
    ret (nonzero (address pt_entry + and virtual_memory 0xFFF))))))"

definition is_page_free :: "nat \<Rightarrow> nat \<Rightarrow> (machine, 'e, bool) prog" where
  "is_page_free virtual_memory pml4 =
    bind (get_page_table_mapped_physical pml4 virtual_memory) (\<lambda>p. ret (p = None))"

section \<open>Mapping and unmapping one page\<close>

datatype WritePageError = WritePageError

definition get_or_alloc :: "PageEntry \<Rightarrow> (machine, 'e, (nat \<times> nat option) option) prog" where
  "get_or_alloc page_entry =
    (if present page_entry then ret (Some (address page_entry, None))
     else bind alloc_frame (\<lambda>r.
       case r of
         None \<Rightarrow> ret None
       | Some p \<Rightarrow> bind (zero_memory p 4096) (\<lambda>_. ret (Some (p, Some p)))))"

definition free_allocated :: "nat option \<Rightarrow> (machine, 'e, unit) prog" where
  "free_allocated p = (case p of None \<Rightarrow> ret () | Some f \<Rightarrow> delloc_frame f)"

definition leaf_entry :: "nat \<Rightarrow> bool \<Rightarrow> bool \<Rightarrow> bool \<Rightarrow> PageEntry" where
  "leaf_entry physics_memory writable executable userusable =
    (let e = or physics_memory P_PRESENT;
         e = (if writable then or e P_RW else e);
         e = (if \<not> executable then or e P_NX else e)
     in if userusable then or e P_US else e)"

definition link_entry :: "nat \<Rightarrow> bool \<Rightarrow> PageEntry" where
  "link_entry physics userusable =
    (let e = or (or physics P_PRESENT) P_RW in if userusable then or e P_US else e)"

definition link_allocated :: "nat option \<Rightarrow> bool \<Rightarrow> nat \<Rightarrow> nat \<Rightarrow> (machine, 'e, unit) prog" where
  "link_allocated p userusable table index =
    (case p of None \<Rightarrow> ret () | Some f \<Rightarrow> write_entry table index (link_entry f userusable))"

definition write_memory_page ::
  "nat \<Rightarrow> nat \<Rightarrow> nat \<Rightarrow> bool \<Rightarrow> bool \<Rightarrow> bool \<Rightarrow> (machine, WritePageError, unit) prog" where
  "write_memory_page virtual_memory physics_memory pml4 writable executable userusable =
    (let pml4_index = table_index 39 virtual_memory;
         pdpt_index = table_index 30 virtual_memory;
         pd_index = table_index 21 virtual_memory;
         pt_index = table_index 12 virtual_memory
     in
     bind (get_entry pml4 pml4_index) (\<lambda>pml4_entry.
     bind (get_or_alloc pml4_entry) (\<lambda>r. case r of None \<Rightarrow> throw WritePageError
       | Some (pdpt_address, pdpt_alloc) \<Rightarrow>
     bind (get_entry pdpt_address pdpt_index) (\<lambda>pdpt_entry.
     bind (get_or_alloc pdpt_entry) (\<lambda>r. case r of None \<Rightarrow>
         bind (free_allocated pdpt_alloc) (\<lambda>_. throw WritePageError)
       | Some (pd_address, pd_alloc) \<Rightarrow>
     bind (get_entry pd_address pd_index) (\<lambda>pd_entry.
     bind (get_or_alloc pd_entry) (\<lambda>r. case r of None \<Rightarrow>
         bind (free_allocated pdpt_alloc) (\<lambda>_.
         bind (free_allocated pd_alloc) (\<lambda>_. throw WritePageError))
       | Some (pt_address, pt_alloc) \<Rightarrow>
     bind (write_entry pt_address pt_index (leaf_entry physics_memory writable executable userusable)) (\<lambda>_.
     bind (link_allocated pt_alloc userusable pd_address pd_index) (\<lambda>_.
     bind (link_allocated pd_alloc userusable pdpt_address pdpt_index) (\<lambda>_.
     link_allocated pdpt_alloc userusable pml4 pml4_index))))))))))"

text \<open>\<open>NonZero::new(x).unwrap()\<close>\<close>

definition unwrap_nonzero :: "nat \<Rightarrow> (machine, 'e, nat) prog" where
  "unwrap_nonzero n = (if n = 0 then panic else ret n)"

text \<open>
  One step of the block \<open>'free_page_table\<close>: an empty table is returned and unlinked from its
  parent; the result says whether to look at the parent.
\<close>

definition free_if_empty :: "nat \<Rightarrow> nat \<Rightarrow> nat \<Rightarrow> (machine, 'e, bool) prog" where
  "free_if_empty table parent index =
    bind (is_all_emptry table) (\<lambda>empty.
    if \<not> empty then ret False
    else bind (unwrap_nonzero table) (\<lambda>t.
         bind (delloc_frame t) (\<lambda>_.
         bind (write_entry parent index 0) (\<lambda>_. ret True))))"

definition remove_memory_page :: "nat \<Rightarrow> nat \<Rightarrow> (machine, 'e, unit) prog" where
  "remove_memory_page pml4 virtual_memory =
    bind (assert (and pml4 0xFFF = 0)) (\<lambda>_.
    bind (assert (and virtual_memory 0xFFF = 0)) (\<lambda>_.
    let pml4_index = table_index 39 virtual_memory;
        pdpt_index = table_index 30 virtual_memory;
        pd_index = table_index 21 virtual_memory;
        pt_index = table_index 12 virtual_memory
    in
    bind (get_entry pml4 pml4_index) (\<lambda>pml4_entry.
    bind (assert (present pml4_entry)) (\<lambda>_.
    bind (get_entry (address pml4_entry) pdpt_index) (\<lambda>pdpt_entry.
    bind (assert (present pdpt_entry)) (\<lambda>_.
    bind (get_entry (address pdpt_entry) pd_index) (\<lambda>pd_entry.
    bind (assert (present pd_entry)) (\<lambda>_.
    bind (get_entry (address pd_entry) pt_index) (\<lambda>pt_entry.
    bind (assert (present pt_entry)) (\<lambda>_.
    bind (unwrap_nonzero (address pt_entry)) (\<lambda>f.
    bind (delloc_frame f) (\<lambda>_.
    bind (write_entry (address pd_entry) pt_index 0) (\<lambda>_.
    bind (free_if_empty (address pd_entry) (address pdpt_entry) pd_index) (\<lambda>up.
    if \<not> up then ret ()
    else bind (free_if_empty (address pdpt_entry) (address pml4_entry) pdpt_index) (\<lambda>up.
    if \<not> up then ret ()
    else bind (free_if_empty (address pml4_entry) pml4 pml4_index) (\<lambda>_. ret ()))))))))))))))))"

section \<open>Ranges of pages\<close>

datatype AllocMappedFrameError = OutOfPhysicalMemory | OutOfVirtualSpace | ReservedVaddr

record AllocateFrameOptions =
  opt_user :: bool
  opt_writable :: bool
  opt_executable :: bool
  static_vaddr :: "nat option"

definition KERNEL_DATA :: AllocateFrameOptions where
  "KERNEL_DATA = \<lparr>opt_user = False, opt_writable = True, opt_executable = False, static_vaddr = None\<rparr>"

definition USER_DATA :: AllocateFrameOptions where
  "USER_DATA = \<lparr>opt_user = True, opt_writable = True, opt_executable = False, static_vaddr = None\<rparr>"

definition USER_CODE :: AllocateFrameOptions where
  "USER_CODE = \<lparr>opt_user = True, opt_writable = False, opt_executable = True, static_vaddr = None\<rparr>"

definition with_static_vaddr :: "nat \<Rightarrow> AllocateFrameOptions \<Rightarrow> AllocateFrameOptions" where
  "with_static_vaddr vaddr options = options\<lparr>static_vaddr := Some vaddr\<rparr>"

partial_function (option) find_free_loop ::
  "nat \<Rightarrow> nat \<Rightarrow> nat \<Rightarrow> nat \<Rightarrow> nat \<Rightarrow> nat \<Rightarrow> machine \<Rightarrow> (('e, nat option) res \<times> machine) option" where
  "find_free_loop search_end pml4 block start i remain s =
    (if i < search_end then
       bind (unwrap_nonzero i) (\<lambda>v.
       bind (is_page_free v pml4) (\<lambda>page_free s.
       if page_free then
         if wsub64 remain 1 = 0 then ret (nonzero start) s
         else find_free_loop search_end pml4 block start (wadd64 i 0x1000) (wsub64 remain 1) s
       else find_free_loop search_end pml4 block (wadd64 i 0x1000) (wadd64 i 0x1000) block s)) s
     else ret None s)"

definition find_free_virtual_memory ::
  "nat \<Rightarrow> nat \<Rightarrow> nat \<Rightarrow> nat \<Rightarrow> (machine, 'e, nat option) prog" where
  "find_free_virtual_memory search_start search_end pml4 block =
    find_free_loop search_end pml4 block search_start search_start block"

definition KERNEL_SEARCH_START :: nat where "KERNEL_SEARCH_START = 0xFFFFFF8000000000"
definition KERNEL_SEARCH_END :: nat where "KERNEL_SEARCH_END = 0xFFFFFFFFC0000000"
definition USER_SEARCH_START :: nat where "USER_SEARCH_START = 0x0000008000000000"
definition USER_SEARCH_END :: nat where "USER_SEARCH_END = 0xFFFFFF8000000000"

definition is_user_space_virtual_memory :: "nat \<Rightarrow> bool" where
  "is_user_space_virtual_memory ptr \<longleftrightarrow> USER_SEARCH_START \<le> ptr \<and> ptr < USER_SEARCH_END"

definition find_kernel_free_virtual_memory :: "nat \<Rightarrow> (machine, 'e, nat option) prog" where
  "find_kernel_free_virtual_memory block =
    bind (gets PML4) (\<lambda>pml4.
    find_free_virtual_memory KERNEL_SEARCH_START KERNEL_SEARCH_END pml4 block)"

definition find_user_free_virtual_memory :: "nat \<Rightarrow> nat \<Rightarrow> (machine, 'e, nat option) prog" where
  "find_user_free_virtual_memory block pml4 =
    find_free_virtual_memory USER_SEARCH_START USER_SEARCH_END pml4 block"

fun all_pages_free :: "nat \<Rightarrow> nat \<Rightarrow> nat list \<Rightarrow> (machine, 'e, bool) prog" where
  "all_pages_free pml4 page_start [] = ret True"
| "all_pages_free pml4 page_start (i # is) =
    (case nonzero (wadd64 page_start (i * 0x1000)) of
       None \<Rightarrow> ret False
     | Some v \<Rightarrow>
         bind (is_page_free v pml4) (\<lambda>page_free.
         if \<not> page_free then ret False else all_pages_free pml4 page_start is))"

definition find_user_free_virtual_memory_static ::
  "nat \<Rightarrow> nat \<Rightarrow> nat \<Rightarrow> (machine, 'e, nat option) prog" where
  "find_user_free_virtual_memory_static block pml4 vaddr =
    (let page_start = page_of vaddr
     in bind (all_pages_free pml4 page_start [0..<block]) (\<lambda>free.
        if free then ret (nonzero page_start) else ret None))"

definition free_mapped_frame :: "nat \<Rightarrow> nat \<Rightarrow> nat \<Rightarrow> (machine, 'e, unit) prog" where
  "free_mapped_frame pml4 addr len =
    for_each [0..<len div 0x1000] (\<lambda>i _. remove_memory_page pml4 (wadd64 addr (i * 0x1000))) ()"

text \<open>\<open>result.is_err()\<close> of a call that cannot panic.\<close>

definition try_map :: "(machine, 'f, unit) prog \<Rightarrow> (machine, 'e, bool) prog" where
  "try_map m s =
    (case m s of
       None \<Rightarrow> None
     | Some (r, s') \<Rightarrow> Some (case r of Ok _ \<Rightarrow> Ok True | Err _ \<Rightarrow> Ok False | Panic \<Rightarrow> Panic | UB \<Rightarrow> UB, s'))"

definition map_frame ::
  "nat \<Rightarrow> nat \<Rightarrow> AllocateFrameOptions \<Rightarrow> nat \<Rightarrow> (machine, AllocMappedFrameError, unit) prog" where
  "map_frame pml4 start options i =
    bind alloc_frame (\<lambda>r. case r of
      None \<Rightarrow>
        bind (free_mapped_frame pml4 start (i * 0x1000)) (\<lambda>_. throw OutOfPhysicalMemory)
    | Some physics_memory \<Rightarrow>
        bind (try_map (write_memory_page (wadd64 start (i * 0x1000)) physics_memory pml4
                        (opt_writable options) (opt_executable options) (opt_user options))) (\<lambda>ok.
        if ok then ret ()
        else bind (delloc_frame physics_memory) (\<lambda>_.
             bind (free_mapped_frame pml4 start (i * 0x1000)) (\<lambda>_. throw OutOfPhysicalMemory))))"

definition alloc_mapped_frame ::
  "nat \<Rightarrow> nat \<Rightarrow> AllocateFrameOptions \<Rightarrow> (machine, AllocMappedFrameError, nat) prog" where
  "alloc_mapped_frame pml4 len options =
    bind (assert (and pml4 0xFFF = 0)) (\<lambda>_.
    bind (assert (and len 0xFFF = 0)) (\<lambda>_.
    let frame_count = len div 0x1000 in
    bind (case static_vaddr options of
            Some vaddr \<Rightarrow> find_user_free_virtual_memory_static frame_count pml4 vaddr
          | None \<Rightarrow> if opt_user options then find_user_free_virtual_memory frame_count pml4
                    else find_kernel_free_virtual_memory frame_count) (\<lambda>r. case r of
      None \<Rightarrow> throw OutOfVirtualSpace
    | Some start \<Rightarrow>
        bind (for_each [0..<frame_count] (\<lambda>i _. map_frame pml4 start options i) ()) (\<lambda>_. ret start))))"

section \<open>User address spaces\<close>

definition alloc_user_page_table :: "(machine, 'e, nat option) prog" where
  "alloc_user_page_table =
    bind alloc_frame (\<lambda>r. case r of
      None \<Rightarrow> ret None
    | Some addr \<Rightarrow>
        bind (zero_memory addr 4096) (\<lambda>_.
        bind (gets (\<lambda>s. get_bytes (phys s) (PML4 s) 8)) (\<lambda>e.
        bind (write_memory addr e) (\<lambda>_.
        bind (gets (\<lambda>s. get_bytes (phys s) (PML4 s + 511 * 8) 8)) (\<lambda>e.
        bind (write_memory (addr + 511 * 8) e) (\<lambda>_. ret (Some addr)))))))"

definition read_table :: "nat \<Rightarrow> (machine, 'e, PageEntry list) prog" where
  "read_table addr = bind (read_memory addr 4096) (\<lambda>bs. ret (map from_le (chunks 8 512 bs)))"

fun walk_free_page :: "PageEntry \<Rightarrow> nat \<Rightarrow> (machine, 'e, unit) prog" where
  "walk_free_page page_entry 0 =
    (if \<not> present page_entry \<or> \<not> user page_entry then ret ()
     else bind (assert (\<not> ps page_entry)) (\<lambda>_. bind (unwrap_nonzero (address page_entry)) delloc_frame))"
| "walk_free_page page_entry (Suc deep) =
    (if \<not> present page_entry \<or> \<not> user page_entry then ret ()
     else
       bind (assert (\<not> ps page_entry)) (\<lambda>_.
       if Suc deep > 1 then
         bind (read_table (address page_entry)) (\<lambda>page_table.
         bind (for_each page_table (\<lambda>table _. walk_free_page table deep) ()) (\<lambda>_.
         bind (unwrap_nonzero (address page_entry)) delloc_frame))
       else bind (unwrap_nonzero (address page_entry)) delloc_frame))"

definition release_user_page_table :: "nat \<Rightarrow> (machine, 'e, unit) prog" where
  "release_user_page_table addr =
    bind (read_table addr) (\<lambda>pml4.
    bind (for_each pml4 (\<lambda>page_entry _. walk_free_page page_entry 3) ()) (\<lambda>_.
    delloc_frame addr))"

datatype AccessMemoryError = PageFault

definition translate :: "nat \<Rightarrow> nat \<Rightarrow> (machine, AccessMemoryError, nat) prog" where
  "translate page_table v =
    bind (get_page_table_mapped_physical page_table v) (\<lambda>r.
    case r of None \<Rightarrow> throw PageFault | Some p \<Rightarrow> ret p)"

text \<open>The source is a slice outside the memory the copy writes to.\<close>

partial_function (option) write_page_table_loop ::
  "nat \<Rightarrow> nat \<Rightarrow> u8 list \<Rightarrow> machine \<Rightarrow> ((AccessMemoryError, unit) res \<times> machine) option" where
  "write_page_table_loop page_table dst_start src s =
    (if src \<noteq> [] then
       bind (translate page_table dst_start) (\<lambda>p.
       bind (insert_temp_page_table p) (\<lambda>(start, len).
       bind (modify (\<lambda>s. s\<lparr>phys := put_bytes (window s start) (take (min len (length src)) src) (phys s)\<rparr>)) (\<lambda>_.
       write_page_table_loop page_table (wadd64 dst_start (min len (length src))) (drop (min len (length src)) src)))) s
     else ret () s)"

definition write_page_table_memory :: "nat \<Rightarrow> nat \<Rightarrow> u8 list \<Rightarrow> (machine, AccessMemoryError, unit) prog" where
  "write_page_table_memory page_table addr src = write_page_table_loop page_table addr src"

partial_function (option) write_bytes_loop ::
  "nat \<Rightarrow> u8 \<Rightarrow> nat \<Rightarrow> nat \<Rightarrow> machine \<Rightarrow> ((AccessMemoryError, unit) res \<times> machine) option" where
  "write_bytes_loop page_table byte dst_start dst_end s =
    (if dst_start < dst_end then
       bind (translate page_table dst_start) (\<lambda>p.
       bind (insert_temp_page_table p) (\<lambda>(start, len).
       bind (modify (\<lambda>s. s\<lparr>phys := put_bytes (window s start) (replicate (min len (dst_end - dst_start)) byte) (phys s)\<rparr>)) (\<lambda>_.
       write_bytes_loop page_table byte (wadd64 dst_start (min len (dst_end - dst_start))) dst_end))) s
     else ret () s)"

definition write_page_table_memory_bytes ::
  "nat \<Rightarrow> nat \<Rightarrow> u8 \<Rightarrow> nat \<Rightarrow> (machine, AccessMemoryError, unit) prog" where
  "write_page_table_memory_bytes page_table addr byte len =
    write_bytes_loop page_table byte addr (wadd64 addr len)"

partial_function (option) read_page_table_loop ::
  "nat \<Rightarrow> nat \<Rightarrow> nat \<Rightarrow> u8 list \<Rightarrow> machine \<Rightarrow> ((AccessMemoryError, u8 list) res \<times> machine) option" where
  "read_page_table_loop page_table src_start remain dst s =
    (if remain > 0 then
       bind (translate page_table src_start) (\<lambda>p.
       bind (insert_temp_page_table p) (\<lambda>(start, len).
       bind (gets (\<lambda>s. get_bytes (phys s) (window s start) (min len remain))) (\<lambda>bs.
       read_page_table_loop page_table (wadd64 src_start (min len remain)) (remain - min len remain) (dst @ bs)))) s
     else ret dst s)"

definition read_page_table_memory :: "nat \<Rightarrow> nat \<Rightarrow> nat \<Rightarrow> (machine, AccessMemoryError, u8 list) prog" where
  "read_page_table_memory page_table addr len = read_page_table_loop page_table addr len []"

end
