(* ===== verification/Page_Map.thy ===== *)
theory Page_Map
  imports Page_Table
begin

text \<open>
  Mapping and unmapping a page in the four-level tables.

  \<^item> \<open>node m r p\<close> follows the path \<open>p\<close> of table indices from the root \<open>r\<close>; \<open>page_path\<close> is the path of a
    virtual address.
  \<^item> \<open>tree N m r U\<close> is the invariant of the tables below \<open>r\<close> on the paths of \<open>N\<close>: every table and every
    mapped page is a frame in use, and no frame occurs twice.
  \<^item> \<open>tree_attach\<close> and \<open>tree_prune\<close> are the two changes of the tables the operations make.
\<close>

section \<open>Entries\<close>

lemma and_low: "and (a::nat) 0xFFF = a mod 0x1000"
proof -
  have "and a 0xFFF = take_bit 12 a" by (simp add: take_bit_eq_mask mask_eq_exp_minus_1)
  then show ?thesis by (simp add: take_bit_eq_mod)
qed

lemma and_index: "and (a::nat) 0x1FF = a mod 512"
proof -
  have "and a 0x1FF = take_bit 9 a" by (simp add: take_bit_eq_mask mask_eq_exp_minus_1)
  then show ?thesis by (simp add: take_bit_eq_mod)
qed

lemma table_index_eq: "table_index n v = v div 2 ^ n mod 512"
  by (simp add: table_index_def and_index drop_bit_eq_div)

lemma table_index_less [simp]: "table_index n v < 512"
  by (simp add: table_index_eq)

lemma and_mask_nat: "and (a::nat) (mask n) = a mod 2 ^ n"
  by (simp flip: take_bit_eq_mask take_bit_eq_mod)

lemma address_eq: "address e = e div 0x1000 mod 2 ^ 40 * 0x1000"
proof -
  have mask: "(0x000FFFFFFFFFF000 :: nat) = push_bit 12 (mask 40)"
    by (simp add: push_bit_eq_mult mask_eq_exp_minus_1)
  have "address e = and (push_bit 12 (drop_bit 12 e)) (push_bit 12 (mask 40))"
    unfolding address_def mask
    by (rule bit_eqI) (auto simp: bit_and_iff bit_push_bit_iff bit_drop_bit_eq)
  also have "\<dots> = push_bit 12 (and (drop_bit 12 e) (mask 40))"
    by simp
  finally show ?thesis by (simp add: and_mask_nat drop_bit_eq_div push_bit_eq_mult)
qed

lemma address_less: "address e + 0x1000 \<le> 2 ^ 52"
proof -
  have "e div 0x1000 mod 2 ^ 40 < 2 ^ 40" by simp
  then have "e div 0x1000 mod 2 ^ 40 + 1 \<le> 2 ^ 40" by linarith
  then have "(e div 0x1000 mod 2 ^ 40 + 1) * 0x1000 \<le> 2 ^ 40 * 0x1000" by (rule mult_right_mono) simp
  then show ?thesis by (simp add: address_eq)
qed

lemma address_dvd: "0x1000 dvd address e"
  by (simp add: address_eq)

lemma present_odd: "present e \<longleftrightarrow> odd e"
  by (simp add: present_def P_PRESENT_def and_one_eq odd_iff_mod_2_eq_one)

lemma present_0 [simp]: "\<not> present 0"
  by (simp add: present_odd)

text \<open>Setting flags outside the address field.\<close>

lemma address_or: "address (or a b) = or (address a) (address b)"
  unfolding address_def by (rule bit_eqI) (auto simp: bit_and_iff bit_or_iff)

lemma present_or: "present (or a b) \<longleftrightarrow> present a \<or> present b"
  by (simp add: present_odd even_or_iff)

lemma user_or: "user (or a b) \<longleftrightarrow> user a \<or> user b"
proof -
  have "and (or a b) P_US = or (and a P_US) (and b P_US)"
    by (rule bit_eqI) (auto simp: bit_and_iff bit_or_iff)
  then show ?thesis by (simp add: user_def or_eq_0_iff)
qed

lemma or_less: "a < 2 ^ n \<Longrightarrow> b < 2 ^ n \<Longrightarrow> or a b < (2::nat) ^ n"
  by (metis take_bit_nat_eq_self_iff take_bit_or)

lemmas or_less64 = or_less [of _ 64, simplified]

lemma address_flags [simp]:
  "address P_PRESENT = 0" "address P_RW = 0" "address P_US = 0" "address P_NX = 0" "address 0 = 0"
  by (simp_all add: address_eq P_PRESENT_def P_RW_def P_US_def P_NX_def)

lemma address_frame [simp]: "frame f \<Longrightarrow> address f = f"
proof -
  assume f: "frame f"
  then obtain q where q: "f = 0x1000 * q" "q < 2 ^ 40" by (auto simp: frame_def elim!: dvdE)
  then show ?thesis by (simp add: address_eq)
qed

lemma frame_user_present: "frame f \<Longrightarrow> \<not> present f \<and> \<not> user f"
proof -
  assume "frame f"
  then obtain q where q: "f = 8 * q" by (auto simp: frame_def elim!: dvdE)
  have "\<not> bit f 2" unfolding q by (simp add: bit_iff_odd)
  then have "bit (and f (2 ^ 2)) n = bit 0 n" for n unfolding bit_and_iff bit_exp_iff by auto
  then have "and f (2 ^ 2) = 0" by (intro bit_eqI)
  then show ?thesis using q by (simp add: present_odd user_def P_US_def)
qed

lemma flag_bits [simp]:
  "present P_PRESENT" "\<not> present P_RW" "\<not> present P_US" "\<not> present P_NX"
  "user P_US" "\<not> user P_PRESENT" "\<not> user P_RW" "\<not> user P_NX"
  by (simp_all add: present_odd user_def P_PRESENT_def P_RW_def P_US_def P_NX_def)

lemma leaf_entry_bits [simp]:
  assumes "frame f"
  shows "address (leaf_entry f w x u) = f" "present (leaf_entry f w x u)" "user (leaf_entry f w x u) = u"
    and "leaf_entry f w x u < 2 ^ 64"
proof -
  have "f < 2 ^ 64" "P_PRESENT < 2 ^ 64" "P_RW < 2 ^ 64" "P_US < 2 ^ 64" "P_NX < 2 ^ 64"
    using frame_less [OF assms] by (simp_all add: P_PRESENT_def P_RW_def P_US_def P_NX_def)
  then show "leaf_entry f w x u < 2 ^ 64"
    by (simp add: leaf_entry_def Let_def or_less64)
  show "address (leaf_entry f w x u) = f" "present (leaf_entry f w x u)" "user (leaf_entry f w x u) = u"
    using frame_user_present [OF assms] assms
    by (simp_all add: leaf_entry_def Let_def address_or present_or user_or)
qed

lemma link_entry_bits [simp]:
  assumes "frame f"
  shows "address (link_entry f u) = f" "present (link_entry f u)" "user (link_entry f u) = u"
    and "link_entry f u < 2 ^ 64"
proof -
  have "f < 2 ^ 64" "P_PRESENT < 2 ^ 64" "P_RW < 2 ^ 64" "P_US < 2 ^ 64"
    using frame_less [OF assms] by (simp_all add: P_PRESENT_def P_RW_def P_US_def)
  then show "link_entry f u < 2 ^ 64"
    by (simp add: link_entry_def Let_def or_less64)
  show "address (link_entry f u) = f" "present (link_entry f u)" "user (link_entry f u) = u"
    using frame_user_present [OF assms] assms
    by (simp_all add: link_entry_def Let_def address_or present_or user_or)
qed

lemmas entry_less [simp] = leaf_entry_bits(4) [simplified] link_entry_bits(4) [simplified]

section \<open>Access to a table\<close>

text \<open>Nothing but the window of the machine has changed.\<close>

definition entry_at :: "(nat \<Rightarrow> u8) \<Rightarrow> nat \<Rightarrow> nat \<Rightarrow> PageEntry" where
  "entry_at m t i = load64 m (t + i * 8)"

lemma get_entry_wp:
  assumes "frame t" and "i < 512" and "\<And>n. Q (entry_at (phys s) t i) (s\<lparr>temp_page := n\<rparr>)"
  shows "returns (get_entry t i s) Q"
proof -
  have "t \<noteq> 0" "t mod 0x1000 = 0" "t + i * 8 + 8 < 2 ^ 64" using assms(1,2) by (auto simp: frame_def)
  then show ?thesis
    using assms(2,3) by (simp add: get_entry_def and_low run_read_memory entry_at_def load64_def touch_def)
qed

lemma write_entry_wp:
  assumes "frame t" and "i < 512"
    and "\<And>n. Q () (s\<lparr>temp_page := n, phys := put_bytes (t + i * 8) (to_le 8 e) (phys s)\<rparr>)"
  shows "returns (write_entry t i e s) Q"
proof -
  have "t \<noteq> 0" "t mod 0x1000 = 0" "t + i * 8 + 8 < 2 ^ 64" using assms(1,2) by (auto simp: frame_def)
  then show ?thesis
    using assms(2,3) by (simp add: write_entry_def and_low run_write_memory touch_def)
qed

lemma entry_at_put:
  assumes "e < 2 ^ 64" and "frame t" and "frame u" and "i < 512" and "j < 512"
  shows "entry_at (put_bytes (t + i * 8) (to_le 8 e) m) u j = (if u = t \<and> j = i then e else entry_at m u j)"
proof (cases "u = t \<and> j = i")
  case True
  then show ?thesis using assms(1) by (simp add: entry_at_def)
next
  case False
  have "u + j * 8 + 8 \<le> t + i * 8 \<or> t + i * 8 + 8 \<le> u + j * 8"
  proof (cases "u = t")
    case True
    then show ?thesis using False by auto
  next
    case n: False
    then show ?thesis using frames_apart [OF assms(3,2)] assms(4,5) by auto
  qed
  then show ?thesis using False by (auto simp: entry_at_def load64_put_other)
qed

lemma entry_at_zeroed:
  assumes "j < 512"
  shows "entry_at (put_bytes t (replicate 4096 0) m) t j = 0"
proof -
  have "get_bytes (put_bytes t (replicate 4096 0) m) (t + j * 8) 8 = replicate 8 0"
    by (rule nth_equalityI) (use assms in \<open>auto simp: put_bytes_def\<close>)
  then show ?thesis by (simp add: entry_at_def load64_def numeral_eq_Suc)
qed

lemma is_all_emptry_from_wp:
  assumes "frame t" and "\<forall>i \<in> set is. i < 512"
    and "\<And>n. Q (\<forall>i \<in> set is. \<not> present (entry_at (phys s) t i)) (s\<lparr>temp_page := n\<rparr>)"
  shows "returns (is_all_emptry_from t is s) Q"
  using assms(2,3)
proof (induction "is" arbitrary: s)
  case Nil
  then show ?case using Nil.prems(2) [of "temp_page s"] by simp
next
  case (Cons i "is")
  show ?case
    unfolding is_all_emptry_from.simps returns_bind_iff
  proof (rule get_entry_wp [OF assms(1)], goal_cases)
    case 1
    show ?case using Cons.prems(1) by simp
  next
    case (2 n)
    show ?case
    proof (cases "present (entry_at (phys s) t i)")
      case True
      then show ?thesis using Cons.prems(2) [of n] by simp
    next
      case False
      show ?thesis
        unfolding if_not_P [OF False] by (rule Cons.IH) (use Cons.prems False in simp_all)
    qed
  qed
qed

lemma is_all_emptry_wp:
  assumes "frame t" and "\<And>n. Q (\<forall>i < 512. \<not> present (entry_at (phys s) t i)) (s\<lparr>temp_page := n\<rparr>)"
  shows "returns (is_all_emptry t s) Q"
  unfolding is_all_emptry_def
  by (rule is_all_emptry_from_wp [OF assms(1)]) (use assms(2) in \<open>simp_all add: Ball_def\<close>)

section \<open>The tree of tables\<close>

definition target :: "(nat \<Rightarrow> u8) \<Rightarrow> nat \<Rightarrow> nat \<Rightarrow> nat option" where
  "target m t i = (if present (entry_at m t i) then Some (address (entry_at m t i)) else None)"

fun node :: "(nat \<Rightarrow> u8) \<Rightarrow> nat \<Rightarrow> nat list \<Rightarrow> nat option" where
  "node m t [] = Some t"
| "node m t (i # is) = (case target m t i of None \<Rightarrow> None | Some u \<Rightarrow> node m u is)"

lemma node_append: "node m t (p @ q) = (case node m t p of None \<Rightarrow> None | Some u \<Rightarrow> node m u q)"
  by (induction p arbitrary: t) (auto split: option.splits)

lemma node_snoc: "node m t (p @ [i]) = (case node m t p of None \<Rightarrow> None | Some u \<Rightarrow> target m u i)"
  by (simp add: node_append split: option.splits)

declare node.simps(2) [simp del]

lemma node_single [simp]: "node m t [i] = target m t i"
  by (simp add: node.simps split: option.splits)

text \<open>The entry of a page, with its flags.\<close>

definition leaf :: "(nat \<Rightarrow> u8) \<Rightarrow> nat \<Rightarrow> nat list \<Rightarrow> PageEntry option" where
  "leaf m r p =
    (case node m r (butlast p) of
       None \<Rightarrow> None
     | Some t \<Rightarrow> if present (entry_at m t (last p)) then Some (entry_at m t (last p)) else None)"

lemma node_leaf: "p \<noteq> [] \<Longrightarrow> node m r p = map_option address (leaf m r p)"
  by (cases p rule: rev_cases) (auto simp: leaf_def node_snoc target_def split: option.splits)

lemma leaf_None: "p \<noteq> [] \<Longrightarrow> node m r p = None \<longleftrightarrow> leaf m r p = None"
  by (simp add: node_leaf)

lemma leaf_absent: "p \<noteq> [] \<Longrightarrow> node m' r p = None \<Longrightarrow> node m r p = None \<Longrightarrow> leaf m' r p = leaf m r p"
  by (simp add: leaf_None)

lemma leaf_cong:
  assumes "node m' r (butlast p) = node m r (butlast p)"
    and "\<And>t. node m r (butlast p) = Some t \<Longrightarrow> entry_at m' t (last p) = entry_at m t (last p)"
  shows "leaf m' r p = leaf m r p"
  using assms by (simp add: leaf_def split: option.splits)

definition page_path :: "nat \<Rightarrow> nat list" where
  "page_path v = [table_index 39 v, table_index 30 v, table_index 21 v, table_index 12 v]"

lemma length_page_path [simp]: "length (page_path v) = 4"
  by (simp add: page_path_def)

text \<open>
  The tables below the root \<open>r\<close> on the paths of \<open>N\<close>: tables and mapped pages are frames in use, all
  different; a table with entries outside \<open>N\<close> has one there that is present, so that it is never
  found empty.
\<close>

definition tree :: "nat list set \<Rightarrow> (nat \<Rightarrow> u8) \<Rightarrow> nat \<Rightarrow> nat set \<Rightarrow> bool" where
  "tree N m r U \<longleftrightarrow>
     (\<forall>p \<in> N. \<forall>f. node m r p = Some f \<longrightarrow> frame f \<and> f \<in> U) \<and>
     (\<forall>p \<in> N. \<forall>q \<in> N. \<forall>f. node m r p = Some f \<and> node m r q = Some f \<longrightarrow> p = q) \<and>
     (\<forall>p \<in> N. p \<noteq> [] \<and> length p < 4 \<and> (\<exists>i < 512. p @ [i] \<notin> N) \<longrightarrow>
        (\<exists>t j. node m r p = Some t \<and> j < 512 \<and> p @ [j] \<notin> N \<and> target m t j \<noteq> None))"

lemma treeD:
  assumes "tree N m r U" and "p \<in> N" and "node m r p = Some f"
  shows "frame f" and "f \<in> U" and "q \<in> N \<Longrightarrow> node m r q = Some f \<Longrightarrow> q = p"
  using assms unfolding tree_def by blast+

lemma tree_anchor:
  assumes "tree N m r U" and "p \<in> N" and "p \<noteq> []" and "length p < 4" and "i < 512" and "p @ [i] \<notin> N"
  obtains t j where "node m r p = Some t" and "j < 512" and "p @ [j] \<notin> N" and "target m t j \<noteq> None"
  using assms unfolding tree_def by meson

text \<open>
  The frames of the tree, and that no table of it is empty except on the paths \<open>K\<close>.
\<close>

definition nodes :: "nat list set \<Rightarrow> (nat \<Rightarrow> u8) \<Rightarrow> nat \<Rightarrow> nat set" where
  "nodes N m r = {f. \<exists>p \<in> N. node m r p = Some f}"

definition filled :: "nat list set \<Rightarrow> nat list set \<Rightarrow> (nat \<Rightarrow> u8) \<Rightarrow> nat \<Rightarrow> bool" where
  "filled K N m r \<longleftrightarrow>
     (\<forall>p \<in> N - K. \<forall>t. p \<noteq> [] \<and> length p < 4 \<and> node m r p = Some t \<longrightarrow> (\<exists>j < 512. target m t j \<noteq> None))"

lemma filledD:
  assumes "filled K N m r" and "p \<in> N" and "p \<notin> K" and "p \<noteq> []" and "length p < 4" and "node m r p = Some t"
  obtains j where "j < 512" and "target m t j \<noteq> None"
  using assms unfolding filled_def by blast

text \<open>The same bytes in all frames of \<open>U\<close>.\<close>

definition agree :: "nat set \<Rightarrow> (nat \<Rightarrow> u8) \<Rightarrow> (nat \<Rightarrow> u8) \<Rightarrow> bool" where
  "agree U m m' \<longleftrightarrow> (\<forall>f \<in> U. \<forall>x. f \<le> x \<and> x < f + 0x1000 \<longrightarrow> m' x = m x)"

lemma agree_refl [simp]: "agree U m m"
  by (simp add: agree_def)

lemma agree_trans: "agree U m m' \<Longrightarrow> agree U m' m'' \<Longrightarrow> agree U m m''"
  by (simp add: agree_def)

lemma agree_mono: "agree U m m' \<Longrightarrow> V \<subseteq> U \<Longrightarrow> agree V m m'"
  by (auto simp: agree_def)

lemma agree_entry: "agree U m m' \<Longrightarrow> f \<in> U \<Longrightarrow> i < 512 \<Longrightarrow> entry_at m' f i = entry_at m f i"
  unfolding entry_at_def by (rule load64_cong) (auto simp: agree_def)

lemma agree_put:
  assumes "frame t" and "\<forall>f \<in> U. frame f" and "t \<notin> U" and "k + length bs \<le> 0x1000"
  shows "agree U m (put_bytes (t + k) bs m)"
  unfolding agree_def
proof (intro ballI allI impI)
  fix f x assume "f \<in> U" "f \<le> x \<and> x < f + 0x1000"
  moreover from this have "f + 0x1000 \<le> t \<or> t + 0x1000 \<le> f"
    using frames_apart [of f t] assms by auto
  ultimately show "put_bytes (t + k) bs m x = m x" using assms(4) by (auto simp: put_bytes_def)
qed

lemma delloc_agree_wp:
  assumes fr: "frames s fs V" and f: "f \<in> V"
    and Q: "\<And>s'. agree (V - {f}) (phys s) (phys s') \<Longrightarrow> same_statics s s' \<Longrightarrow> frames s' (f # fs) (V - {f}) \<Longrightarrow> Q () s'"
  shows "returns (delloc_frame f s) Q"
proof (rule delloc_frame_wp [OF fr f], rule Q, goal_cases)
  case (1 s')
  show ?case
    unfolding agree_def
  proof (intro ballI allI impI)
    fix h x assume h: "h \<in> V - {f}" "h \<le> x \<and> x < h + 0x1000"
    then have "h + 0x1000 \<le> f \<or> f + 0x1000 \<le> h"
      using frames_apart [of h f] f framesD(5) [OF fr] by blast
    then show "phys s' x = phys s x" using h(2) by (intro 1(1)) auto
  qed
qed

text \<open>
  The paths that one client manages.  They are closed under prefixes.
\<close>

locale page_area =
  fixes N :: "nat list set"
  assumes root_area: "[] \<in> N"
    and prefix_area: "p @ [i] \<in> N \<Longrightarrow> p \<in> N"
    and bound_area: "p \<in> N \<Longrightarrow> length p \<le> 4" "p \<in> N \<Longrightarrow> i \<in> set p \<Longrightarrow> i < 512"
begin

lemma append_area: "p @ q \<in> N \<Longrightarrow> p \<in> N"
proof (induction q rule: rev_induct)
  case (snoc i q)
  then show ?case using prefix_area [of "p @ q" i] by simp
qed simp

lemma take_area: "p \<in> N \<Longrightarrow> take k p \<in> N"
  using append_area [of "take k p" "drop k p"] by simp

lemma leaf_path:
  assumes "p \<in> N" and "length p = 4"
  shows "p = butlast p @ [last p]" and "butlast p \<in> N" and "last p < 512" and "length (butlast p) = 3"
proof -
  have p: "p \<noteq> []" using assms(2) by auto
  then show pb: "p = butlast p @ [last p]" by simp
  show "butlast p \<in> N" using prefix_area [of "butlast p" "last p"] assms(1) pb by simp
  show "last p < 512" using bound_area(2) [OF assms(1) last_in_set [OF p]] .
  show "length (butlast p) = 3" using assms(2) by simp
qed

lemma tree_agree:
  assumes "tree N m r U" and "agree U m m'"
  shows "p \<in> N \<Longrightarrow> node m' r p = node m r p" and "tree N m' r U"
proof -
  have eq: "p \<in> N \<Longrightarrow> node m' r p = node m r p" for p
  proof (induction p rule: rev_induct)
    case (snoc i p)
    have p: "p \<in> N" "i < 512" using snoc.prems prefix_area bound_area(2) by auto
    then show ?case
      using snoc.IH treeD(2) [OF assms(1) p(1)] agree_entry [OF assms(2)]
      by (simp add: node_snoc target_def split: option.splits)
  qed simp
  then show "p \<in> N \<Longrightarrow> node m' r p = node m r p" .
  show "tree N m' r U"
    unfolding tree_def
  proof (intro conjI ballI allI impI)
    fix p assume p: "p \<in> N" "p \<noteq> [] \<and> length p < 4 \<and> (\<exists>i < 512. p @ [i] \<notin> N)"
    then obtain t j where "node m r p = Some t" "j < 512" "p @ [j] \<notin> N" "target m t j \<noteq> None"
      using tree_anchor [OF assms(1)] by metis
    moreover from this have "target m' t j = target m t j"
      using treeD(2) [OF assms(1) p(1)] agree_entry [OF assms(2)] by (simp add: target_def)
    ultimately show "\<exists>t j. node m' r p = Some t \<and> j < 512 \<and> p @ [j] \<notin> N \<and> target m' t j \<noteq> None"
      using eq p(1) by auto
  qed (use assms(1) eq in \<open>auto simp: tree_def\<close>)
qed

text \<open>
  Attaching a chain \<open>cs\<close> of new tables, the last of them a page, below the table \<open>t\<close> of the path \<open>q\<close>.
\<close>

lemma attach_node:
  assumes tree: "tree N m r U" and path: "q @ i # is \<in> N" "length (q @ i # is) = 4"
    and t: "node m r q = Some t" "node m r (q @ [i]) = None"
    and cs: "length cs = Suc (length is)" "target m' t i = Some (cs ! 0)"
      "\<And>l j. l < length is \<Longrightarrow> j < 512 \<Longrightarrow> target m' (cs ! l) j = (if j = is ! l then Some (cs ! Suc l) else None)"
    and rest: "\<And>p u j. p \<in> N \<Longrightarrow> node m r p = Some u \<Longrightarrow> j < 512 \<Longrightarrow> u \<noteq> t \<or> j \<noteq> i \<Longrightarrow> target m' u j = target m u j"
    and p: "p \<in> N"
  shows "node m' r p =
    (if \<exists>l \<le> length is. p = q @ i # take l is then Some (cs ! (length p - Suc (length q))) else node m r p)"
  using p
proof (induction p rule: rev_induct)
  case Nil
  then show ?case by simp
next
  case (snoc j p)
  have p: "p \<in> N" "j < 512" using snoc.prems prefix_area bound_area(2) by auto
  note ih = snoc.IH [OF p(1)]
  have none: "node m r (q @ i # p') = None" for p'
    using t(2) node_append [of m r "q @ [i]" p'] by simp
  consider (on) l where "l \<le> length is" "p = q @ i # take l is" | (off) "\<not> (\<exists>l \<le> length is. p = q @ i # take l is)"
    by blast
  then show ?case
  proof cases
    case on
    have "length p < 4" using bound_area(1) [OF snoc.prems] by simp
    then have l: "l < length is" using on path(2) by auto
    have "node m' r p = Some (cs ! l)" using ih on by auto
    then have "node m' r (p @ [j]) = (if j = is ! l then Some (cs ! Suc l) else None)"
      using cs(3) [OF l p(2)] by (simp add: node_snoc)
    moreover have "(\<exists>k \<le> length is. p @ [j] = q @ i # take k is) \<longleftrightarrow> j = is ! l"
    proof
      assume "\<exists>k \<le> length is. p @ [j] = q @ i # take k is"
      then obtain k where k: "k \<le> length is" "take l is @ [j] = take k is" unfolding on(2) by auto
      then have "k = Suc l" using l by (metis length_append_singleton length_take min.absorb2 less_or_eq_imp_le)
      then show "j = is ! l" using k(2) l by (simp add: take_Suc_conv_app_nth)
    next
      assume "j = is ! l"
      then show "\<exists>k \<le> length is. p @ [j] = q @ i # take k is"
        using l on(2) by (intro exI [of _ "Suc l"]) (simp add: take_Suc_conv_app_nth)
    qed
    ultimately show ?thesis using none [of "take l is @ [j]"] l on(2) by auto
  next
    case off
    then have eq: "node m' r p = node m r p" using ih by auto
    show ?thesis
    proof (cases "p = q \<and> j = i")
      case True
      then show ?thesis using eq t(1) cs(2) by (auto simp: node_snoc intro!: exI [of _ 0])
    next
      case False
      have "\<not> (\<exists>l \<le> length is. p @ [j] = q @ i # take l is)"
      proof
        assume "\<exists>l \<le> length is. p @ [j] = q @ i # take l is"
        then obtain l where l: "l \<le> length is" "p @ [j] = q @ i # take l is" by blast
        show False
        proof (cases l)
          case 0
          then show False using l(2) False by auto
        next
          case (Suc k)
          then have "p @ [j] = (q @ i # take k is) @ [is ! k]" using l by (simp add: take_Suc_conv_app_nth)
          then show False using off l(1) Suc by (metis Suc_leD append1_eq_conv)
        qed
      qed
      moreover have "node m' r (p @ [j]) = node m r (p @ [j])"
      proof (cases "node m r p")
        case (Some u)
        then have "u \<noteq> t \<or> j \<noteq> i"
          using False treeD(3) [OF tree p(1) Some, of q] t(1) append_area [OF path(1)] by auto
        then show ?thesis using rest [OF p(1) Some p(2)] Some by (simp add: node_snoc eq)
      qed (simp add: node_snoc eq)
      ultimately show ?thesis by auto
    qed
  qed
qed

lemma attach_nodes:
  assumes tree: "tree N m r U" and path: "q @ i # is \<in> N" "length (q @ i # is) = 4"
    and t: "node m r q = Some t" "node m r (q @ [i]) = None"
    and cs: "length cs = Suc (length is)" "target m' t i = Some (cs ! 0)"
      "\<And>l j. l < length is \<Longrightarrow> j < 512 \<Longrightarrow> target m' (cs ! l) j = (if j = is ! l then Some (cs ! Suc l) else None)"
    and rest: "\<And>p u j. p \<in> N \<Longrightarrow> node m r p = Some u \<Longrightarrow> j < 512 \<Longrightarrow> u \<noteq> t \<or> j \<noteq> i \<Longrightarrow> target m' u j = target m u j"
  shows "nodes N m' r = nodes N m r \<union> set cs"
proof -
  let ?on = "\<lambda>p. \<exists>l \<le> length is. p = q @ i # take l is"
  have att: "node m' r p = (if ?on p then Some (cs ! (length p - Suc (length q))) else node m r p)" if "p \<in> N" for p
    by (rule attach_node [OF tree path t cs(1,2)]) (auto simp: cs(3) rest that)
  have off: "\<not> ?on p" if "node m r p = Some u" for p u
    using t(2) that node_append [of m r "q @ [i]"] by auto
  have N: "q @ i # take l is \<in> N" for l
    using take_area [OF path(1), of "length q + Suc l"] by simp
  show ?thesis
  proof (intro equalityI subsetI)
    fix f assume "f \<in> nodes N m' r"
    then obtain p where p: "p \<in> N" "node m' r p = Some f" by (auto simp: nodes_def)
    show "f \<in> nodes N m r \<union> set cs"
    proof (cases "?on p")
      case True
      then show ?thesis using att [OF p(1)] p(2) cs(1) by auto
    next
      case False
      then show ?thesis using att [OF p(1)] p by (auto simp: nodes_def)
    qed
  next
    fix f assume "f \<in> nodes N m r \<union> set cs"
    then consider p where "p \<in> N" "node m r p = Some f" | l where "l \<le> length is" "f = cs ! l"
      using cs(1) by (auto simp: nodes_def in_set_conv_nth less_Suc_eq_le)
    then show "f \<in> nodes N m' r"
    proof cases
      case 1
      then show ?thesis using att [OF 1(1)] off [OF 1(2)] by (auto simp: nodes_def)
    next
      case 2
      then have "node m' r (q @ i # take l is) = Some f" using att [OF N] by auto
      then show ?thesis using N by (auto simp: nodes_def)
    qed
  qed
qed

lemma tree_attach:
  assumes tree: "tree N m r U" and path: "q @ i # is \<in> N" "length (q @ i # is) = 4"
    and t: "node m r q = Some t" "node m r (q @ [i]) = None"
    and cs: "length cs = Suc (length is)" "target m' t i = Some (cs ! 0)"
      "\<And>l j. l < length is \<Longrightarrow> j < 512 \<Longrightarrow> target m' (cs ! l) j = (if j = is ! l then Some (cs ! Suc l) else None)"
    and rest: "\<And>p u j. p \<in> N \<Longrightarrow> node m r p = Some u \<Longrightarrow> j < 512 \<Longrightarrow> u \<noteq> t \<or> j \<noteq> i \<Longrightarrow> target m' u j = target m u j"
    and new: "distinct cs" "\<And>c. c \<in> set cs \<Longrightarrow> frame c" "\<And>c p. c \<in> set cs \<Longrightarrow> p \<in> N \<Longrightarrow> node m r p \<noteq> Some c"
    and U: "U \<subseteq> V" "set cs \<subseteq> V"
  shows "tree N m' r V" and "node m' r (q @ i # is) = Some (last cs)"
    and "p \<in> N \<Longrightarrow> length p = 4 \<Longrightarrow> p \<noteq> q @ i # is \<Longrightarrow> node m' r p = node m r p"
proof -
  have att: "node m' r p =
      (if \<exists>l \<le> length is. p = q @ i # take l is then Some (cs ! (length p - Suc (length q))) else node m r p)"
    if "p \<in> N" for p
    by (rule attach_node [OF tree path t cs(1,2)]) (auto simp: cs(3) rest that)
  let ?on = "\<lambda>p. \<exists>l \<le> length is. p = q @ i # take l is"
  have on: "\<exists>l \<le> length is. p = q @ i # take l is \<and> node m' r p = Some (cs ! l)" if "p \<in> N" "?on p" for p
    using att [OF that(1)] that(2) by auto
  have off: "node m' r p = node m r p" if "p \<in> N" "\<not> ?on p" for p
    using att [OF that(1)] that(2) by auto
  show "node m' r (q @ i # is) = Some (last cs)"
  proof -
    have "last cs = cs ! length is" using cs(1) last_conv_nth [of cs] by (cases cs) auto
    then show ?thesis using att [OF path(1)] by (auto intro!: exI [of _ "length is"])
  qed
  show "p \<in> N \<Longrightarrow> length p = 4 \<Longrightarrow> p \<noteq> q @ i # is \<Longrightarrow> node m' r p = node m r p"
    using path(2) by (intro off) auto
  have mem: "cs ! l \<in> set cs" if "l \<le> length is" for l using that cs(1) by simp
  show "tree N m' r V"
    unfolding tree_def
  proof (intro conjI ballI allI impI)
    fix p f assume p: "p \<in> N" "node m' r p = Some f"
    have "frame f \<and> f \<in> V"
    proof (cases "?on p")
      case True
      then show ?thesis using on [OF p(1) True] p(2) new(2) mem U(2) by auto
    next
      case False
      then show ?thesis using off [OF p(1)] p treeD(1,2) [OF tree p(1)] U(1) by auto
    qed
    then show "frame f" "f \<in> V" by auto
  next
    fix p p' f assume p: "p \<in> N" "p' \<in> N" "node m' r p = Some f \<and> node m' r p' = Some f"
    show "p = p'"
    proof (cases "?on p")
      case True
      obtain l where l: "l \<le> length is" "p = q @ i # take l is" "node m' r p = Some (cs ! l)"
        using on [OF p(1) True] by blast
      have "?on p'" using off [OF p(2)] new(3) [OF mem [OF l(1)] p(2)] l(3) p(3) by auto
      then obtain k where k: "k \<le> length is" "p' = q @ i # take k is" "node m' r p' = Some (cs ! k)"
        using on [OF p(2)] by blast
      have "l = k" using l(1,3) k(1,3) p(3) new(1) cs(1) by (simp add: nth_eq_iff_index_eq)
      then show ?thesis using l k by simp
    next
      case False
      then have n: "node m r p = Some f" using off [OF p(1)] p(3) by simp
      have "\<not> ?on p'" using on [OF p(2)] mem new(3) [OF _ p(1)] n p(3) by auto
      then show ?thesis using off [OF p(2)] n p(3) treeD(3) [OF tree p(1) n p(2)] by simp
    qed
  next
    fix p assume p: "p \<in> N" "p \<noteq> [] \<and> length p < 4 \<and> (\<exists>i < 512. p @ [i] \<notin> N)"
    then obtain u j where u: "node m r p = Some u" "j < 512" "p @ [j] \<notin> N" "target m u j \<noteq> None"
      using tree_anchor [OF tree] by metis
    have "u \<noteq> t \<or> j \<noteq> i"
      using treeD(3) [OF tree p(1) u(1), of q] t(1) u(3) append_area [of q] path(1)
        append_area [of "q @ [i]" "is"] by auto
    then have "target m' u j \<noteq> None" using rest [OF p(1) u(1,2)] u(4) by simp
    moreover have "\<not> ?on p" using t(2) u(1) node_append [of m r "q @ [i]"] by auto
    ultimately show "\<exists>t j. node m' r p = Some t \<and> j < 512 \<and> p @ [j] \<notin> N \<and> target m' t j \<noteq> None"
      using off [OF p(1)] u by auto
  qed
qed

text \<open>Removing an entry below which there is nothing: a page, or an empty table.\<close>

lemma prune_node:
  assumes tree: "tree N m r U" and q: "q @ [i] \<in> N" "node m r q = Some t" "node m r (q @ [i]) = Some f"
    and empty: "\<And>j. q @ [i, j] \<in> N \<Longrightarrow> node m r (q @ [i, j]) = None"
    and cleared: "target m' t i = None"
    and rest: "\<And>p u j. p \<in> N \<Longrightarrow> node m r p = Some u \<Longrightarrow> u \<noteq> f \<Longrightarrow> j < 512 \<Longrightarrow> u \<noteq> t \<or> j \<noteq> i \<Longrightarrow>
      target m' u j = target m u j"
    and p: "p \<in> N"
  shows "node m' r p = (if p = q @ [i] then None else node m r p)"
  using p
proof (induction p rule: rev_induct)
  case Nil
  then show ?case by simp
next
  case (snoc j p)
  have p: "p \<in> N" "j < 512" using snoc.prems prefix_area bound_area(2) by auto
  note ih = snoc.IH [OF p(1)]
  show ?case
  proof (cases "p = q @ [i]")
    case True
    then show ?thesis
      using ih empty [of j] snoc.prems node_append [of m' r "q @ [i]" "[j]"] by simp
  next
    case False
    show ?thesis
    proof (cases "node m r p")
      case None
      then show ?thesis using ih False q(2) by (auto simp: node_snoc)
    next
      case (Some u)
      have "u \<noteq> f" using False treeD(3) [OF tree p(1) Some, of "q @ [i]"] q by auto
      show ?thesis
      proof (cases "u = t \<and> j = i")
        case True
        then have "p = q" using treeD(3) [OF tree p(1) Some, of q] q prefix_area by auto
        then show ?thesis using ih False Some True cleared by (simp add: node_snoc)
      next
        case n: False
        then have "p @ [j] \<noteq> q @ [i]" using Some q(2) by auto
        then show ?thesis
          using rest [OF p(1) Some \<open>u \<noteq> f\<close> p(2)] n ih False Some by (auto simp: node_snoc)
      qed
    qed
  qed
qed

lemma tree_prune:
  assumes tree: "tree N m r U" and q: "q @ [i] \<in> N" "node m r q = Some t" "node m r (q @ [i]) = Some f"
    and empty: "\<And>j. q @ [i, j] \<in> N \<Longrightarrow> node m r (q @ [i, j]) = None"
    and cleared: "target m' t i = None"
    and rest: "\<And>p u j. p \<in> N \<Longrightarrow> node m r p = Some u \<Longrightarrow> u \<noteq> f \<Longrightarrow> j < 512 \<Longrightarrow> u \<noteq> t \<or> j \<noteq> i \<Longrightarrow>
      target m' u j = target m u j"
    and closed: "length (q @ [i]) < 4 \<Longrightarrow> \<forall>j < 512. q @ [i, j] \<in> N"
  shows "tree N m' r (U - {f})"
proof -
  have prune: "node m' r p = (if p = q @ [i] then None else node m r p)" if "p \<in> N" for p
    by (rule prune_node [OF tree q empty cleared rest that])
  have old: "p \<noteq> q @ [i] \<and> node m r p = Some g" if "p \<in> N" "node m' r p = Some g" for p g
    using prune [OF that(1)] that(2) by (auto split: if_splits)
  show ?thesis
    unfolding tree_def
  proof (intro conjI ballI allI impI)
    fix p g assume p: "p \<in> N" "node m' r p = Some g"
    have g: "node m r p = Some g" "p \<noteq> q @ [i]" using old [OF p] by auto
    then have "g \<noteq> f" using treeD(3) [OF tree p(1) g(1), of "q @ [i]"] q by auto
    then show "frame g" "g \<in> U - {f}" using treeD(1,2) [OF tree p(1) g(1)] by auto
  next
    fix p p' g assume p: "p \<in> N" "p' \<in> N" "node m' r p = Some g \<and> node m' r p' = Some g"
    then show "p = p'" using old [OF p(1)] old [OF p(2)] treeD(3) [OF tree p(2) _ p(1)] by auto
  next
    fix p assume p: "p \<in> N" "p \<noteq> [] \<and> length p < 4 \<and> (\<exists>i < 512. p @ [i] \<notin> N)"
    then obtain u j where u: "node m r p = Some u" "j < 512" "p @ [j] \<notin> N" "target m u j \<noteq> None"
      using tree_anchor [OF tree] by metis
    have ne: "p \<noteq> q @ [i]" using p(2) closed by auto
    then have "u \<noteq> f" using treeD(3) [OF tree p(1) u(1), of "q @ [i]"] q by auto
    moreover have "u \<noteq> t \<or> j \<noteq> i"
      using treeD(3) [OF tree p(1) u(1), of q] q u(3) prefix_area by auto
    ultimately have "target m' u j \<noteq> None" using rest [OF p(1) u(1) _ u(2)] u(4) by simp
    then show "\<exists>t j. node m' r p = Some t \<and> j < 512 \<and> p @ [j] \<notin> N \<and> target m' t j \<noteq> None"
      using prune [OF p(1)] ne u by auto
  qed
qed

end

section \<open>Mapping a page\<close>

text \<open>The tables that mapping or unmapping \<open>path\<close> may write.\<close>

definition on_path :: "(nat \<Rightarrow> u8) \<Rightarrow> nat \<Rightarrow> nat list \<Rightarrow> nat set" where
  "on_path m r path = {t. \<exists>k < length path. node m r (take k path) = Some t}"

text \<open>
  The memory \<open>m'\<close> maps \<open>path\<close> to the page \<open>f\<close> with the entry \<open>e\<close>, and every other path as \<open>m\<close> did;
  of the frames in use only tables of the path have changed.
\<close>

definition page_mapped ::
  "nat list set \<Rightarrow> nat \<Rightarrow> nat list \<Rightarrow> nat \<Rightarrow> PageEntry \<Rightarrow> (nat \<Rightarrow> u8) \<Rightarrow> nat set \<Rightarrow> (nat \<Rightarrow> u8) \<Rightarrow> nat set \<Rightarrow> bool" where
  "page_mapped N r path f e m U m' V \<longleftrightarrow>
     U \<subseteq> V \<and> tree N m' r V \<and> node m' r path = Some f \<and>
     leaf m' r path = Some e \<and>
     (\<forall>p \<in> N. length p = 4 \<and> p \<noteq> path \<longrightarrow> leaf m' r p = leaf m r p) \<and>
     (\<forall>p \<in> N. node m' r p = node m r p \<or> node m r p = None \<and> (\<exists>k. p = take k path)) \<and>
     nodes N m' r = insert f (nodes N m r) \<union> (V - U) \<and>
     agree (U - on_path m r path) m m'"

lemma get_or_alloc_wp:
  assumes "frames s fs U"
    and "present e \<Longrightarrow> Q (Some (address e, None)) s"
    and "\<And>g gs s'. \<not> present e \<Longrightarrow> frame g \<Longrightarrow> g \<notin> U \<Longrightarrow> frames s' gs (insert g U) \<Longrightarrow>
      agree U (phys s) (phys s') \<Longrightarrow> (\<And>j. j < 512 \<Longrightarrow> entry_at (phys s') g j = 0) \<Longrightarrow> same_statics s s' \<Longrightarrow>
      Q (Some (g, Some g)) s'"
    and "\<And>s' gs. \<not> present e \<Longrightarrow> frames s' gs U \<Longrightarrow> phys s' = phys s \<Longrightarrow> same_statics s s' \<Longrightarrow> Q None s'"
  shows "returns (get_or_alloc e s) Q"
proof (cases "present e")
  case True
  then show ?thesis using assms(2) by (simp add: get_or_alloc_def)
next
  case False
  show ?thesis
    unfolding get_or_alloc_def if_not_P [OF False] returns_bind_iff
  proof (rule alloc_frame_wp [OF assms(1)], goal_cases)
    case (1 g s')
    note inv = framesD [OF 1(5)]
    let ?m = "put_bytes g (replicate 4096 0) (phys s')"
    have apart: "agree V (phys s') ?m" if "\<forall>f \<in> V. frame f" "g \<notin> V" for V
      using agree_put [OF 1(3) that, of 0 "replicate 4096 0"] by simp
    have "agree U (phys s') ?m" using apart inv(5) 1(4) by blast
    moreover have fs: "agree (set (tl fs)) (phys s') ?m" using apart inv(3,4) by blast
    have "frames ((touch g 4096 s')\<lparr>phys := ?m\<rparr>) (tl fs) (insert g U)"
      by (rule frames_cong [OF 1(5)]) (use fs in \<open>auto simp: agree_def\<close>)
    moreover have "entry_at ?m g j = 0" if "j < 512" for j using entry_at_zeroed [OF that] .
    moreover have "same_statics s ((touch g 4096 s')\<lparr>phys := ?m\<rparr>)"
      using 1(2) by (simp add: same_statics_def)
    ultimately have "Q (Some (g, Some g)) ((touch g 4096 s')\<lparr>phys := ?m\<rparr>)"
      using assms(3) [OF False 1(3,4)] 1(1) by simp
    then show ?case using frame_less [OF 1(3)] by (simp add: run_zero_memory)
  next
    case (2 s')
    then show ?case using assms(4) [OF False 2(4)] by simp
  qed
qed

lemma get_table_wp:
  assumes "frames s fs U" and "t \<in> U" and "i < 512"
    and "\<And>s'. phys s' = phys s \<Longrightarrow> frames s' fs U \<Longrightarrow> same_statics s s' \<Longrightarrow> Q (entry_at (phys s) t i) s'"
  shows "returns (get_entry t i s) Q"
  by (rule get_entry_wp [OF framesD(5) [OF assms(1,2)] assms(3)])
    (rule assms(4), simp_all add: frames_cong [OF assms(1)] same_statics_def)

lemma write_table_wp:
  assumes "frames s fs U" and "t \<in> U" and "i < 512"
    and "\<And>s'. phys s' = put_bytes (t + i * 8) (to_le 8 e) (phys s) \<Longrightarrow> frames s' fs U \<Longrightarrow> same_statics s s' \<Longrightarrow> Q () s'"
  shows "returns (write_entry t i e s) Q"
proof (rule write_entry_wp [OF framesD(5) [OF assms(1,2)] assms(3)], rule assms(4), goal_cases)
  case (2 n)
  have "agree (set fs) (phys s) (put_bytes (t + i * 8) (to_le 8 e) (phys s))"
    using framesD(3,4,5) [OF assms(1)] assms(2,3) by (intro agree_put) auto
  then show ?case by (intro frames_cong [OF assms(1)]) (auto simp: agree_def)
qed (simp_all add: same_statics_def)

text \<open>
  While a page is mapped, tables \<open>gs\<close> have been allocated and cleared, but nothing in use refers to
  them yet.
\<close>

definition grown :: "machine \<Rightarrow> nat set \<Rightarrow> machine \<Rightarrow> nat list \<Rightarrow> bool" where
  "grown s U s' gs \<longleftrightarrow>
     (\<exists>fs. frames s' fs (U \<union> set gs)) \<and> agree U (phys s) (phys s') \<and> same_statics s s' \<and> distinct gs \<and>
     set gs \<inter> U = {} \<and> (\<forall>g \<in> set gs. \<forall>j < 512. entry_at (phys s') g j = 0)"

lemma grown_frame: "grown s U s' gs \<Longrightarrow> t \<in> U \<union> set gs \<Longrightarrow> frame t"
  unfolding grown_def using framesD(5) by blast

lemma grown_same:
  "grown s U s' gs \<Longrightarrow> phys s'' = phys s' \<Longrightarrow> frames s'' fs (U \<union> set gs) \<Longrightarrow> same_statics s' s'' \<Longrightarrow> grown s U s'' gs"
  unfolding grown_def using same_statics_trans by auto

lemma grown_target:
  assumes "grown s U s' gs" and "i < 512"
  shows "t \<in> U \<Longrightarrow> target (phys s') t i = target (phys s) t i" and "t \<in> set gs \<Longrightarrow> target (phys s') t i = None"
  using assms agree_entry [of U "phys s" "phys s'" t i] by (auto simp: grown_def target_def)

lemma level_wp:
  assumes g: "grown s U s1 gs" "t \<in> U \<union> set gs" "i < 512"
    and old: "\<And>s2 t'. target (phys s1) t i = Some t' \<Longrightarrow> grown s U s2 gs \<Longrightarrow> ends (F (Some (t', None)) s2) Q E"
    and new: "\<And>s2 g. target (phys s1) t i = None \<Longrightarrow> grown s U s2 (gs @ [g]) \<Longrightarrow> ends (F (Some (g, Some g)) s2) Q E"
    and none: "\<And>s2. target (phys s1) t i = None \<Longrightarrow> grown s U s2 gs \<Longrightarrow> ends (F None s2) Q E"
  shows "ends (bind (get_entry t i) (\<lambda>e. bind (get_or_alloc e) F) s1) Q E"
proof -
  obtain fs where fs: "frames s1 fs (U \<union> set gs)" using g(1) by (auto simp: grown_def)
  let ?e = "entry_at (phys s1) t i"
  show ?thesis
  proof (rule ends_bind, rule get_table_wp [OF fs g(2,3)], rule ends_bind, rule get_or_alloc_wp, assumption, goal_cases)
    case (1 s2)
    then show ?case using grown_same [OF g(1)] by (intro old) (auto simp: target_def)
  next
    case (2 s2 h hs s3)
    have "grown s U s3 (gs @ [h])"
      unfolding grown_def
    proof (intro conjI)
      show "\<exists>fs. frames s3 fs (U \<union> set (gs @ [h]))" using 2(7) by auto
      show "agree U (phys s) (phys s3)"
        using g(1) 2(1) agree_trans agree_mono [OF 2(8)] by (metis grown_def sup_ge1)
      show "same_statics s s3" using g(1) 2(3,10) same_statics_trans by (metis grown_def)
      show "distinct (gs @ [h])" "set (gs @ [h]) \<inter> U = {}" using g(1) 2(6) by (auto simp: grown_def)
      show "\<forall>g \<in> set (gs @ [h]). \<forall>j < 512. entry_at (phys s3) g j = 0"
        using g(1) 2(9) agree_entry [OF 2(8)] by (auto simp: grown_def 2(1))
    qed
    then show ?case using 2(4) by (intro new) (auto simp: target_def)
  next
    case (3 s2 s3 hs)
    then have "grown s U s3 gs" using grown_same [OF g(1)] same_statics_trans by metis
    then show ?case using 3(4) by (intro none) (auto simp: target_def)
  qed
qed

lemma free_allocated_wp:
  assumes "grown s U s1 gs" and "g \<in> set gs" and "\<And>s2. grown s U s2 (remove1 g gs) \<Longrightarrow> Q () s2"
  shows "returns (free_allocated (Some g) s1) Q"
proof -
  obtain fs where fs: "frames s1 fs (U \<union> set gs)" using assms(1) by (auto simp: grown_def)
  have fg: "frame g" using grown_frame [OF assms(1)] assms(2) by blast
  show ?thesis
    unfolding free_allocated_def option.case
  proof (rule delloc_frame_wp [OF fs], goal_cases)
    case 1
    then show ?case using assms(2) by simp
  next
    case (2 s2)
    have out: "agree V (phys s1) (phys s2)" if "V \<subseteq> U \<union> set gs - {g}" for V
      unfolding agree_def
    proof (intro ballI allI impI)
      fix h x assume "h \<in> V" "h \<le> x \<and> x < h + 0x1000"
      moreover from this have "h + 0x1000 \<le> g \<or> g + 0x1000 \<le> h"
        using frames_apart [of h g] fg grown_frame [OF assms(1)] that by blast
      ultimately show "phys s2 x = phys s1 x" by (intro 2(1)) auto
    qed
    have d: "distinct gs" "set gs \<inter> U = {}" using assms(1) by (auto simp: grown_def)
    have "U \<union> set gs - {g} = U \<union> set (remove1 g gs)" using d assms(2) by auto
    moreover have "agree U (phys s1) (phys s2)" using out [of U] d assms(2) by blast
    moreover have "\<forall>h \<in> set (remove1 g gs). \<forall>j < 512. entry_at (phys s2) h j = 0"
      using agree_entry [OF out [of "set gs - {g}"]] assms(1) d by (auto simp: grown_def)
    ultimately have "grown s U s2 (remove1 g gs)"
      using assms(1) 2(2,3) d unfolding grown_def
      by (auto intro: agree_trans same_statics_trans)
    then show ?case by (rule assms(3))
  qed
qed

text \<open>Setting one entry of a table.\<close>

lemma target_put:
  assumes "frame t" and "frame u" and "i < 512" and "j < 512" and "e < 2 ^ 64"
  shows "target (put_bytes (t + i * 8) (to_le 8 e) m) u j =
    (if u = t \<and> j = i then if present e then Some (address e) else None else target m u j)"
  unfolding target_def entry_at_put [OF assms(5,1,2,3,4)] by auto

text \<open>
  The last phase of \<open>write_memory_page\<close>: the entry \<open>e\<close> of the page, then the links to the new
  tables \<open>gs\<close>, from the innermost to the outermost.
\<close>

definition chain_value :: "bool \<Rightarrow> nat list \<Rightarrow> PageEntry \<Rightarrow> PageEntry" where
  "chain_value u gs e = (case gs of [] \<Rightarrow> e | g # _ \<Rightarrow> link_entry g u)"

lemma chain_value_simps [simp]: "chain_value u [] e = e" "chain_value u (g # gs) e = link_entry g u"
  by (simp_all add: chain_value_def)

fun chain_put ::
  "bool \<Rightarrow> nat \<Rightarrow> nat \<Rightarrow> nat list \<Rightarrow> nat list \<Rightarrow> PageEntry \<Rightarrow> (nat \<Rightarrow> u8) \<Rightarrow> (nat \<Rightarrow> u8)" where
  "chain_put u t i (j # js) (g # gs) e m =
     put_bytes (t + i * 8) (to_le 8 (link_entry g u)) (chain_put u g j js gs e m)"
| "chain_put u t i js gs e m = put_bytes (t + i * 8) (to_le 8 e) m"

lemma chain_put_entry:
  assumes "length gs = length js" and "distinct (t # gs)" and "\<forall>h \<in> set (t # gs). frame h"
    and "\<forall>j \<in> set (i # js). j < 512" and "e < 2 ^ 64"
  shows "j < 512 \<Longrightarrow> entry_at (chain_put u t i js gs e m) t j = (if j = i then chain_value u gs e else entry_at m t j)"
    and "l < length gs \<Longrightarrow> j < 512 \<Longrightarrow> entry_at (chain_put u t i js gs e m) (gs ! l) j =
      (if j = js ! l then chain_value u (drop (Suc l) gs) e else entry_at m (gs ! l) j)"
    and "\<forall>h \<in> V. frame h \<Longrightarrow> V \<inter> set (t # gs) = {} \<Longrightarrow> agree V m (chain_put u t i js gs e m)"
  using assms
proof (induction gs arbitrary: t i js l j V)
  case Nil
  {
    case 1
    then show ?case by (simp add: entry_at_put)
  next
    case 2
    then show ?case by simp
  next
    case 3
    then show ?case using agree_put [of t V "i * 8" "to_le 8 e" m] by simp
  }
next
  case (Cons g gs)
  {
    case 1
    then obtain k ks where k: "js = k # ks" by (cases js) auto
    have "agree {t} m (chain_put u g k ks gs e m)" using 1 k by (intro Cons.IH(3)) auto
    then have "entry_at (chain_put u g k ks gs e m) t j = entry_at m t j"
      using 1(1) by (intro agree_entry) auto
    then show ?case using 1 k by (simp add: entry_at_put)
  next
    case 2
    then obtain k ks where k: "js = k # ks" by (cases js) auto
    have "entry_at (chain_put u g k ks gs e m) ((g # gs) ! l) j =
        (if j = js ! l then chain_value u (drop (Suc l) (g # gs)) e else entry_at m ((g # gs) ! l) j)"
    proof (cases l)
      case 0
      then show ?thesis using 2 k Cons.IH(1) [where t = g and i = k and js = ks and j = j] by simp
    next
      case (Suc n)
      then show ?thesis using 2 k Cons.IH(2) [where t = g and i = k and js = ks and j = j and l = n] by simp
    qed
    moreover have "(g # gs) ! l \<in> set (g # gs)" using 2 by (intro nth_mem) simp
    then have "(g # gs) ! l \<noteq> t" "frame ((g # gs) ! l)" using 2 by auto
    ultimately show ?case using 2 k by (simp add: entry_at_put)
  next
    case 3
    then obtain k ks where k: "js = k # ks" by (cases js) auto
    have "agree V m (chain_put u g k ks gs e m)" using 3 k by (intro Cons.IH(3)) auto
    moreover have "agree V (chain_put u g k ks gs e m) (chain_put u t i js (g # gs) e m)"
      unfolding k chain_put.simps using 3 k by (intro agree_put) auto
    ultimately show ?case by (rule agree_trans)
  }
qed

lemma chain_put_last:
  assumes "length gs = length js" and "distinct (t # gs)" and "\<forall>h \<in> set (t # gs). frame h"
    and "\<forall>j \<in> set (i # js). j < 512" and "e < 2 ^ 64"
  shows "entry_at (chain_put u t i js gs e m) (last (t # gs)) (last (i # js)) = e"
proof (cases gs rule: rev_cases)
  case Nil
  then show ?thesis using assms chain_put_entry(1) [OF assms, where j = i] by simp
next
  case (snoc hs h)
  then obtain js' j where j: "js = js' @ [j]" using assms(1) by (cases js rule: rev_cases) auto
  then show ?thesis
    using assms(1,4) snoc chain_put_entry(2) [OF assms, where l = "length hs" and j = j] by (simp add: nth_append)
qed

text \<open>The last phase of \<open>write_memory_page\<close>.\<close>

definition map_writes ::
  "nat \<Rightarrow> nat \<Rightarrow> PageEntry \<Rightarrow> bool \<Rightarrow> nat option \<times> nat \<times> nat \<Rightarrow> nat option \<times> nat \<times> nat \<Rightarrow> nat option \<times> nat \<times> nat
    \<Rightarrow> (machine, WritePageError, unit) prog" where
  "map_writes t d e u x3 x2 x1 =
     bind (write_entry t d e) (\<lambda>_.
     bind (link_allocated (fst x3) u (fst (snd x3)) (snd (snd x3))) (\<lambda>_.
     bind (link_allocated (fst x2) u (fst (snd x2)) (snd (snd x2))) (\<lambda>_.
     link_allocated (fst x1) u (fst (snd x1)) (snd (snd x1)))))"

lemma returns_skip [simp]: "returns (bind (ret ()) f s) Q \<longleftrightarrow> returns (f () s) Q"
  by (simp add: returns_bind_iff)

lemma write_table_from:
  assumes "frames s fs U" and "same_statics s0 s" and "t \<in> U" and "i < 512"
    and "\<And>s'. phys s' = put_bytes (t + i * 8) (to_le 8 e) (phys s) \<Longrightarrow> frames s' fs U \<Longrightarrow> same_statics s0 s' \<Longrightarrow> Q () s'"
  shows "returns (write_entry t i e s) Q"
  by (rule write_table_wp [OF assms(1,3,4)]) (rule assms(5), auto intro: same_statics_trans [OF assms(2)])

lemma map_writes_0:
  assumes "frames s1 fs V" and "set (t # []) \<subseteq> V" and "d < 512"
    and "\<And>s2. phys s2 = chain_put u t d [] [] e (phys s1) \<Longrightarrow> frames s2 fs V \<Longrightarrow> same_statics s1 s2 \<Longrightarrow> Q () s2"
  shows "returns (map_writes t d e u (None, x3) (None, x2) (None, x1) s1) Q"
proof -
  have in_V: "t \<in> V" using assms(2) by simp_all
  show ?thesis
    unfolding map_writes_def link_allocated_def fst_conv snd_conv option.case returns_bind_iff
    by (rule write_table_from [OF assms(1) same_statics_refl], fact, fact)
      (simp_all add: assms(4))
qed

lemma map_writes_1:
  assumes "frames s1 fs V" and "set (t # [g]) \<subseteq> V" and "d < 512" "c < 512"
    and "\<And>s2. phys s2 = chain_put u t c [d] [g] e (phys s1) \<Longrightarrow> frames s2 fs V \<Longrightarrow> same_statics s1 s2 \<Longrightarrow> Q () s2"
  shows "returns (map_writes g d e u (Some g, t, c) (None, x2) (None, x1) s1) Q"
proof -
  have in_V: "t \<in> V" "g \<in> V" using assms(2) by simp_all
  show ?thesis
    unfolding map_writes_def link_allocated_def fst_conv snd_conv option.case returns_bind_iff
    by (rule write_table_from [OF assms(1) same_statics_refl], fact, fact,
        rule write_table_from, assumption, assumption, simp add: in_V, simp add: assms)
      (simp_all add: assms(5))
qed

lemma map_writes_2:
  assumes "frames s1 fs V" and "set (t # [g, h]) \<subseteq> V" and "d < 512" "c < 512" "b < 512"
    and "\<And>s2. phys s2 = chain_put u t b [c, d] [g, h] e (phys s1) \<Longrightarrow> frames s2 fs V \<Longrightarrow> same_statics s1 s2 \<Longrightarrow> Q () s2"
  shows "returns (map_writes h d e u (Some h, g, c) (Some g, t, b) (None, x1) s1) Q"
proof -
  have in_V: "t \<in> V" "g \<in> V" "h \<in> V" using assms(2) by simp_all
  show ?thesis
    unfolding map_writes_def link_allocated_def fst_conv snd_conv option.case returns_bind_iff
    by (rule write_table_from [OF assms(1) same_statics_refl], fact, fact,
        rule write_table_from, assumption, assumption, simp add: in_V, simp add: assms,
        rule write_table_from, assumption, assumption, simp add: in_V, simp add: assms)
      (simp_all add: assms(6))
qed

lemma map_writes_3:
  assumes "frames s1 fs V" and "set (t # [g, h, k]) \<subseteq> V" and "d < 512" "c < 512" "b < 512" "a < 512"
    and "\<And>s2. phys s2 = chain_put u t a [b, c, d] [g, h, k] e (phys s1) \<Longrightarrow> frames s2 fs V \<Longrightarrow> same_statics s1 s2 \<Longrightarrow> Q () s2"
  shows "returns (map_writes k d e u (Some k, h, c) (Some h, g, b) (Some g, t, a) s1) Q"
proof -
  have in_V: "t \<in> V" "g \<in> V" "h \<in> V" "k \<in> V" using assms(2) by simp_all
  show ?thesis
    unfolding map_writes_def link_allocated_def fst_conv snd_conv option.case returns_bind_iff
    by (rule write_table_from [OF assms(1) same_statics_refl], fact, fact,
        rule write_table_from, assumption, assumption, simp add: in_V, simp add: assms,
        rule write_table_from, assumption, assumption, simp add: in_V, simp add: assms,
        rule write_table_from, assumption, assumption, simp add: in_V, simp add: assms)
      (simp_all add: assms(7))
qed

context page_area
begin

lemma attach_leaf:
  assumes tree: "tree N m r U" and path: "q @ i # is \<in> N" "length (q @ i # is) = 4"
    and t: "node m r q = Some t" "node m r (q @ [i]) = None"
    and node: "\<And>p. p \<in> N \<Longrightarrow> node m' r p = (if \<exists>l \<le> length is. p = q @ i # take l is then c p else node m r p)"
    and rest: "agree (U - {t}) m m'" "\<And>j. j < 512 \<Longrightarrow> j \<noteq> i \<Longrightarrow> entry_at m' t j = entry_at m t j"
    and p: "p \<in> N" "length p = 4" "p \<noteq> q @ i # is"
  shows "leaf m' r p = leaf m r p"
proof -
  note pb = leaf_path(1) [OF p(1,2)] and b = leaf_path(2-4) [OF p(1,2)]
  show ?thesis
  proof (cases "\<exists>l \<le> length is. butlast p = q @ i # take l is")
    case True
    then have "node m r p = None"
      using t(2) node_append [of m r "q @ [i]"] pb by (metis append.assoc append_Cons append_Nil option.simps(4))
    moreover have "\<not> (\<exists>l \<le> length is. p = q @ i # take l is)" using p(2,3) path(2) by auto
    ultimately show ?thesis using node [OF p(1)] p(2) by (intro leaf_absent) auto
  next
    case False
    then have n: "node m' r (butlast p) = node m r (butlast p)" using node [OF b(1)] by auto
    show ?thesis
    proof (rule leaf_cong [OF n])
      fix u assume u: "node m r (butlast p) = Some u"
      show "entry_at m' u (last p) = entry_at m u (last p)"
      proof (cases "u = t")
        case True
        then have "butlast p = q" using treeD(3) [OF tree b(1) u, of q] t(1) append_area [OF path(1)] by auto
        then have "last p \<noteq> i" using p(3) pb path(2) b(3) by auto
        then show ?thesis using rest(2) b(2) True by simp
      next
        case False
        then show ?thesis using agree_entry [OF rest(1) _ b(2)] treeD(2) [OF tree b(1) u] by auto
      qed
    qed
  qed
qed

lemma page_mappedI:
  assumes tree: "tree N m r U" and path: "q @ i # is \<in> N" "length (q @ i # is) = 4"
    and t: "node m r q = Some t" "node m r (q @ [i]) = None"
    and gs: "length gs = length is" "distinct gs" "\<And>g. g \<in> set gs \<Longrightarrow> frame g" "set gs \<inter> U = {}"
    and f: "frame f" "f \<in> U" "\<And>p. p \<in> N \<Longrightarrow> node m r p \<noteq> Some f"
    and top: "target m' t i = Some ((gs @ [f]) ! 0)"
    and chain: "\<And>l j. l < length is \<Longrightarrow> j < 512 \<Longrightarrow>
      target m' (gs ! l) j = (if j = is ! l then Some ((gs @ [f]) ! Suc l) else None)"
    and rest: "agree (U - {t}) m m'" "\<And>j. j < 512 \<Longrightarrow> j \<noteq> i \<Longrightarrow> entry_at m' t j = entry_at m t j"
    and leaf: "entry_at m' (last (t # gs)) (last (i # is)) = e"
  shows "page_mapped N r (q @ i # is) f e m U m' (U \<union> set gs)"
proof -
  let ?cs = "gs @ [f]"
  have q: "q \<in> N" using append_area [OF path(1)] .
  have other: "target m' u j = target m u j" if "p \<in> N" "node m r p = Some u" "j < 512" "u \<noteq> t \<or> j \<noteq> i" for p u j
    using that treeD(2) [OF tree that(1,2)] rest(2) agree_entry [OF rest(1), of u j]
    by (cases "u = t") (auto simp: target_def)
  have c: "target m' (?cs ! l) j = (if j = is ! l then Some (?cs ! Suc l) else None)" if "l < length is" "j < 512" for l j
    using chain [OF that] that(1) gs(1) by (simp add: nth_append)
  have new: "node m r p \<noteq> Some c" if "c \<in> set ?cs" "p \<in> N" for c p
    using that f(3) gs(4) treeD(2) [OF tree that(2)] by auto
  have att: "tree N m' r (U \<union> set gs)" "node m' r (q @ i # is) = Some (last ?cs)"
    by (rule tree_attach [OF tree path t, of ?cs m' "U \<union> set gs"]; use gs f top c other new in auto)+
  have node: "node m' r p = (if \<exists>l \<le> length is. p = q @ i # take l is
     then Some (?cs ! (length p - Suc (length q))) else node m r p)" if "p \<in> N" for p
    by (rule attach_node [OF tree path t]) (use gs top chain other that in \<open>auto simp: nth_append\<close>)
  have "nodes N m' r = nodes N m r \<union> set ?cs"
    by (rule attach_nodes [OF tree path t]) (use gs top c other in auto)
  then have nodes: "nodes N m' r = insert f (nodes N m r) \<union> ((U \<union> set gs) - U)" using gs(4) by auto
  have same: "node m' r p = node m r p \<or> node m r p = None \<and> (\<exists>k. p = take k (q @ i # is))" if "p \<in> N" for p
  proof (cases "\<exists>l \<le> length is. p = q @ i # take l is")
    case True
    then obtain l where l: "p = q @ i # take l is" by blast
    then have "p = take (length q + Suc l) (q @ i # is)" by simp
    moreover have "node m r p = None" using t(2) node_append [of m r "q @ [i]" "take l is"] by (simp add: l)
    ultimately show ?thesis by blast
  next
    case False
    then show ?thesis using node [OF that] by auto
  qed
  have "node m' r (butlast (q @ i # is)) = Some (last (t # gs))"
  proof (cases "is = []")
    case True
    then have "node m' r q = Some t" using node [OF q] t(1) by auto
    then show ?thesis using True gs(1) by (simp add: butlast_append)
  next
    case False
    have b: "butlast (q @ i # is) = q @ i # take (length is - 1) is"
      using False by (simp add: butlast_append) (simp add: butlast_conv_take)
    then have "q @ i # take (length is - 1) is \<in> N"
      using take_area [OF path(1), of "length q + length is"] False by (simp add: take_Cons')
    moreover have "\<exists>l \<le> length is. q @ i # take (length is - 1) is = q @ i # take l is"
      by (intro exI [of _ "length is - 1"]) simp
    ultimately have "node m' r (q @ i # take (length is - 1) is) = Some (?cs ! (length is - 1))"
      using node False by simp
    moreover have "?cs ! (length is - 1) = last gs"
      using False gs(1) last_conv_nth [of gs] by (cases "gs = []") (auto simp: nth_append)
    ultimately show ?thesis using False gs(1) by (auto simp: b)
  qed
  then have "leaf m' r (q @ i # is) = Some e"
    using leaf att(2) by (auto simp: leaf_def node_leaf split: option.splits if_splits)
  moreover have "leaf m' r p = leaf m r p" if "p \<in> N" "length p = 4" "p \<noteq> q @ i # is" for p
    by (rule attach_leaf [OF tree path t node rest that])
  ultimately show ?thesis
    unfolding page_mapped_def
    using att rest(1) t(1) path(2) same nodes
    by (auto simp: on_path_def intro!: agree_mono [of "U - {t}"] exI [of _ "length q"])
qed

lemma finish_mapped:
  assumes tree: "tree N (phys s) r U" and g: "grown s U s1 gs"
    and path: "q @ i # is \<in> N" "length (q @ i # is) = 4" "length gs = length is"
    and t: "node (phys s) r q = Some t" "node (phys s) r (q @ [i]) = None"
    and f: "frame f" "f \<in> U" "\<And>p. p \<in> N \<Longrightarrow> node (phys s) r p \<noteq> Some f"
    and e: "present e" "address e = f" "e < 2 ^ 64"
  shows "page_mapped N r (q @ i # is) f e (phys s) U (chain_put u t i is gs e (phys s1)) (U \<union> set gs)"
proof -
  let ?m = "chain_put u t i is gs e (phys s1)"
  have q: "q \<in> N" using append_area [OF path(1)] .
  have tU: "t \<in> U" using treeD(2) [OF tree q t(1)] .
  have d: "distinct (t # gs)" "set gs \<inter> U = {}" "agree U (phys s) (phys s1)"
    using g tU by (auto simp: grown_def)
  have fr: "\<forall>h \<in> set (t # gs). frame h" "\<forall>h \<in> U. frame h"
    using grown_frame [OF g] tU by auto
  have ix: "\<forall>j \<in> set (i # is). j < 512" using bound_area(2) [OF path(1)] by auto
  note put = chain_put_entry [OF path(3) d(1) fr(1) ix e(3), where u = u and m = "phys s1"]
  have val: "present (chain_value u gs e) \<and> address (chain_value u gs e) = (gs @ [f]) ! 0"
    if "\<forall>h \<in> set gs. frame h" for gs
    using e that by (cases gs) auto
  show ?thesis
  proof (rule page_mappedI [OF tree path(1,2) t path(3)])
    show "target ?m t i = Some ((gs @ [f]) ! 0)"
      using put(1) [of i] ix fr(1) val [of gs] by (simp add: target_def)
    show "target ?m (gs ! l) j = (if j = is ! l then Some ((gs @ [f]) ! Suc l) else None)" if "l < length is" "j < 512" for l j
    proof -
      have "\<forall>h \<in> set (drop (Suc l) gs). frame h" using fr(1) by (auto dest: in_set_dropD)
      moreover have "(drop (Suc l) gs @ [f]) ! 0 = (gs @ [f]) ! Suc l"
        using that path(3) by (auto simp: nth_append)
      moreover have "entry_at (phys s1) (gs ! l) j = 0" using g that path(3) by (simp add: grown_def)
      ultimately show ?thesis
        using put(2) [of l j] that path(3) val [of "drop (Suc l) gs"]
        by (cases "j = is ! l") (simp_all add: target_def)
    qed
    show "agree (U - {t}) (phys s) ?m"
    proof (rule agree_trans)
      show "agree (U - {t}) (phys s) (phys s1)" by (rule agree_mono [OF d(3)]) auto
      show "agree (U - {t}) (phys s1) ?m" using d fr by (intro put(3)) auto
    qed
    show "entry_at ?m t j = entry_at (phys s) t j" if "j < 512" "j \<noteq> i" for j
      using put(1) [OF that(1)] that agree_entry [OF d(3) tU that(1)] by simp
    show "entry_at ?m (last (t # gs)) (last (i # is)) = e"
      using chain_put_last [OF path(3) d(1) fr(1) ix e(3)] .
  qed (use d fr f in auto)
qed

end

lemma node_three:
  "node m r [a] = target m r a"
  "node m r [a, b] = (case target m r a of None \<Rightarrow> None | Some t \<Rightarrow> target m t b)"
  "node m r [a, b, c] =
    (case target m r a of None \<Rightarrow> None | Some t \<Rightarrow> (case target m t b of None \<Rightarrow> None | Some t \<Rightarrow> target m t c))"
  by (auto simp: node.simps split: option.splits)

text \<open>
  \<open>write_memory_page\<close> from the level of the page directory on, and from the level of the page
  directory pointers on; \<open>x1\<close> and \<open>x2\<close> say where a new table of the levels above is to be linked.
\<close>

definition map_level3 where
  "map_level3 d e u x1 x2 pd c =
     bind (get_entry pd c) (\<lambda>pd_entry.
     bind (get_or_alloc pd_entry) (\<lambda>r. case r of None \<Rightarrow>
         bind (free_allocated (fst x1)) (\<lambda>_.
         bind (free_allocated (fst x2)) (\<lambda>_. throw WritePageError))
       | Some (pt, pt_alloc) \<Rightarrow> map_writes pt d e u (pt_alloc, pd, c) x2 x1))"

definition map_level2 where
  "map_level2 d e u c x1 pdpt b =
     bind (get_entry pdpt b) (\<lambda>pdpt_entry.
     bind (get_or_alloc pdpt_entry) (\<lambda>r. case r of None \<Rightarrow>
         bind (free_allocated (fst x1)) (\<lambda>_. throw WritePageError)
       | Some (pd, pd_alloc) \<Rightarrow> map_level3 d e u x1 (pd_alloc, pdpt, b) pd c))"

lemma write_memory_page_levels:
  "write_memory_page v f r w x u =
     bind (get_entry r (table_index 39 v)) (\<lambda>pml4_entry.
     bind (get_or_alloc pml4_entry) (\<lambda>res. case res of None \<Rightarrow> throw WritePageError
       | Some (pdpt, pdpt_alloc) \<Rightarrow>
           map_level2 (table_index 12 v) (leaf_entry f w x u) u (table_index 21 v)
             (pdpt_alloc, r, table_index 39 v) pdpt (table_index 30 v)))"
  unfolding write_memory_page_def map_level2_def map_level3_def map_writes_def Let_def fst_conv snd_conv ..

lemma free_none [simp]: "free_allocated None = ret ()"
  by (simp add: free_allocated_def)

text \<open>The page \<open>f\<close> can be mapped at \<open>path\<close>.\<close>

definition can_map :: "nat list set \<Rightarrow> machine \<Rightarrow> nat \<Rightarrow> nat set \<Rightarrow> nat list \<Rightarrow> nat \<Rightarrow> bool" where
  "can_map N s r U path f \<longleftrightarrow> tree N (phys s) r U \<and> path \<in> N \<and> length path = 4 \<and> node (phys s) r path = None \<and>
     frame f \<and> f \<in> U \<and> (\<forall>p \<in> N. node (phys s) r p \<noteq> Some f)"

context page_area
begin

lemma chain_done:
  assumes can: "can_map N s r U path f" and g: "grown s U s1 gs"
    and q: "path = q @ i # js" "length gs = length js" "node (phys s) r q = Some t" "node (phys s) r (q @ [i]) = None"
    and Q: "\<And>s' hs V. page_mapped N r path f (leaf_entry f w x u) (phys s) U (phys s') V \<Longrightarrow>
      frames s' hs V \<Longrightarrow> same_statics s s' \<Longrightarrow> Q () s'"
    and prog: "\<And>fs V Q. frames s1 fs V \<Longrightarrow> set (t # gs) \<subseteq> V \<Longrightarrow>
      (\<And>s2. phys s2 = chain_put u t i js gs (leaf_entry f w x u) (phys s1) \<Longrightarrow> frames s2 fs V \<Longrightarrow>
        same_statics s1 s2 \<Longrightarrow> Q () s2) \<Longrightarrow> returns (M s1) Q"
  shows "ends (M s1) Q E"
proof (rule ends_returns)
  obtain fs where fs: "frames s1 fs (U \<union> set gs)" and st: "same_statics s s1" using g by (auto simp: grown_def)
  have tree: "tree N (phys s) r U" and N: "q @ i # js \<in> N" "length (q @ i # js) = 4"
    and f: "frame f" "f \<in> U" "\<And>p. p \<in> N \<Longrightarrow> node (phys s) r p \<noteq> Some f"
    using can by (auto simp: can_map_def q(1))
  have tU: "t \<in> U" using treeD(2) [OF tree append_area [OF N(1)] q(3)] .
  show "returns (M s1) Q"
  proof (rule prog [OF fs])
    show "set (t # gs) \<subseteq> U \<union> set gs" using tU by auto
    fix s2 assume s2: "phys s2 = chain_put u t i js gs (leaf_entry f w x u) (phys s1)"
      "frames s2 fs (U \<union> set gs)" "same_statics s1 s2"
    have "page_mapped N r path f (leaf_entry f w x u) (phys s) U (phys s2) (U \<union> set gs)"
      unfolding s2(1) q(1) using f(1) by (intro finish_mapped [OF tree g N q(2,3,4) f]) simp_all
    then show "Q () s2" using Q s2(2) same_statics_trans [OF st s2(3)] by blast
  qed
qed

lemma path_bounds: "can_map N s r U [a, b, c, d] f \<Longrightarrow> a < 512 \<and> b < 512 \<and> c < 512 \<and> d < 512"
  unfolding can_map_def using bound_area(2) by auto

lemma map_level3_old:
  assumes can: "can_map N s r U [a, b, c, d] f" and g: "grown s U s1 []"
    and t: "node (phys s) r [a, b] = Some t"
    and Q: "\<And>s' hs V. page_mapped N r [a, b, c, d] f (leaf_entry f w x u) (phys s) U (phys s') V \<Longrightarrow>
      frames s' hs V \<Longrightarrow> same_statics s s' \<Longrightarrow> Q () s'"
    and E: "\<And>s'. grown s U s' [] \<Longrightarrow> E WritePageError s'"
  shows "ends (map_level3 d (leaf_entry f w x u) u (None, y1) (None, y2) t c s1) Q E"
proof -
  note bd = path_bounds [OF can]
  have tree: "tree N (phys s) r U" and N: "[a, b] \<in> N" "[a, b, c] \<in> N"
    using can take_area [of "[a, b, c, d]" 2] take_area [of "[a, b, c, d]" 3]
    by (auto simp: can_map_def numeral_eq_Suc)
  have tU: "t \<in> U" using treeD(2) [OF tree N(1) t] .
  have tgt: "target (phys s1) t c = node (phys s) r [a, b, c]"
    using grown_target(1) [OF g _ tU, of c] bd t node_snoc [of "phys s" r "[a, b]" c] by simp
  show ?thesis
    unfolding map_level3_def
  proof (rule level_wp [OF g], use tU in simp, use bd in simp, goal_cases)
    case (1 s2 t3)
    then have t3: "node (phys s) r [a, b, c] = Some t3" by (simp add: tgt)
    show ?case
      by (simp, rule chain_done [OF can 1(2), where q = "[a, b, c]" and i = d and js = "[]", OF _ _ t3])
        (use can bd Q in \<open>auto simp: can_map_def intro: map_writes_0\<close>)
  next
    case (2 s2 h)
    have n: "node (phys s) r ([a, b] @ [c]) = None" using 2(1) by (simp add: tgt)
    show ?case
      by (simp, rule chain_done [OF can 2(2), where q = "[a, b]" and i = c and js = "[d]", OF _ _ t n])
        (use can bd Q in \<open>auto simp: can_map_def intro: map_writes_1\<close>)
  next
    case (3 s2)
    then show ?case by (simp add: E)
  qed
qed

lemma map_level3_new1:
  assumes can: "can_map N s r U [a, b, c, d] f" and g: "grown s U s1 [g]"
    and t: "node (phys s) r [a] = Some t" "node (phys s) r [a, b] = None"
    and Q: "\<And>s' hs V. page_mapped N r [a, b, c, d] f (leaf_entry f w x u) (phys s) U (phys s') V \<Longrightarrow>
      frames s' hs V \<Longrightarrow> same_statics s s' \<Longrightarrow> Q () s'"
    and E: "\<And>s'. grown s U s' [] \<Longrightarrow> E WritePageError s'"
  shows "ends (map_level3 d (leaf_entry f w x u) u (None, y1) (Some g, t, b) g c s1) Q E"
proof -
  note bd = path_bounds [OF can]
  have n: "node (phys s) r ([a] @ [b]) = None" using t(2) by simp
  show ?thesis
    unfolding map_level3_def
  proof (rule level_wp [OF g], simp, use bd in simp, goal_cases)
    case (1 s2 t3)
    then show ?case using grown_target(2) [OF g, of c g] bd by simp
  next
    case (2 s2 h)
    show ?case
      by (simp, rule chain_done [OF can 2(2), where q = "[a]" and i = b and js = "[c, d]", OF _ _ t(1) n])
        (use bd Q in \<open>auto intro: map_writes_2\<close>)
  next
    case (3 s2)
    show ?case
      by (simp, rule ends_bind, rule free_allocated_wp [OF 3(2)]) (auto intro: E)
  qed
qed

lemma map_level3_new2:
  assumes can: "can_map N s r U [a, b, c, d] f" and g: "grown s U s1 [g, h]"
    and t: "node (phys s) r [a] = None"
    and Q: "\<And>s' hs V. page_mapped N r [a, b, c, d] f (leaf_entry f w x u) (phys s) U (phys s') V \<Longrightarrow>
      frames s' hs V \<Longrightarrow> same_statics s s' \<Longrightarrow> Q () s'"
    and E: "\<And>s'. grown s U s' [] \<Longrightarrow> E WritePageError s'"
  shows "ends (map_level3 d (leaf_entry f w x u) u (Some g, r, a) (Some h, g, b) h c s1) Q E"
proof -
  note bd = path_bounds [OF can]
  have n: "node (phys s) r [] = Some r" "node (phys s) r ([] @ [a]) = None" using t by simp_all
  show ?thesis
    unfolding map_level3_def
  proof (rule level_wp [OF g], simp, use bd in simp, goal_cases)
    case (1 s2 t3)
    then show ?case using grown_target(2) [OF g, of c h] bd by simp
  next
    case (2 s2 k)
    show ?case
      by (simp, rule chain_done [OF can 2(2), where q = "[]" and i = a and js = "[b, c, d]", OF _ _ n])
        (use bd Q in \<open>auto intro: map_writes_3\<close>)
  next
    case (3 s2)
    show ?case
    proof (simp, rule ends_bind, rule free_allocated_wp [OF 3(2)], simp, rule ends_bind, goal_cases)
      case (1 s3)
      then show ?case by (rule free_allocated_wp) (auto intro: E)
    qed
  qed
qed

lemma map_level2_old:
  assumes can: "can_map N s r U [a, b, c, d] f" and g: "grown s U s1 []"
    and t: "node (phys s) r [a] = Some t"
    and Q: "\<And>s' hs V. page_mapped N r [a, b, c, d] f (leaf_entry f w x u) (phys s) U (phys s') V \<Longrightarrow>
      frames s' hs V \<Longrightarrow> same_statics s s' \<Longrightarrow> Q () s'"
    and E: "\<And>s'. grown s U s' [] \<Longrightarrow> E WritePageError s'"
  shows "ends (map_level2 d (leaf_entry f w x u) u c (None, y1) t b s1) Q E"
proof -
  note bd = path_bounds [OF can]
  have tree: "tree N (phys s) r U" and N: "[a] \<in> N"
    using can take_area [of "[a, b, c, d]" 1] by (auto simp: can_map_def numeral_eq_Suc)
  have tU: "t \<in> U" using treeD(2) [OF tree N(1) t] .
  have tgt: "target (phys s1) t b = node (phys s) r [a, b]"
    using grown_target(1) [OF g _ tU, of b] bd t node_snoc [of "phys s" r "[a]" b] by simp
  show ?thesis
    unfolding map_level2_def
  proof (rule level_wp [OF g], use tU in simp, use bd in simp, goal_cases)
    case (1 s2 t2)
    then show ?case by (simp, intro map_level3_old [OF can 1(2)]) (auto simp: tgt intro: Q E)
  next
    case (2 s2 h)
    then show ?case by (simp, intro map_level3_new1 [OF can _ t]) (auto simp: tgt intro: Q E)
  next
    case (3 s2)
    then show ?case by (simp add: E)
  qed
qed

lemma map_level2_new:
  assumes can: "can_map N s r U [a, b, c, d] f" and g: "grown s U s1 [g]"
    and t: "node (phys s) r [a] = None"
    and Q: "\<And>s' hs V. page_mapped N r [a, b, c, d] f (leaf_entry f w x u) (phys s) U (phys s') V \<Longrightarrow>
      frames s' hs V \<Longrightarrow> same_statics s s' \<Longrightarrow> Q () s'"
    and E: "\<And>s'. grown s U s' [] \<Longrightarrow> E WritePageError s'"
  shows "ends (map_level2 d (leaf_entry f w x u) u c (Some g, r, a) g b s1) Q E"
  unfolding map_level2_def
proof (rule level_wp [OF g], simp, use path_bounds [OF can] in simp, goal_cases)
  case (1 s2 t2)
  then show ?case using grown_target(2) [OF g, of b g] path_bounds [OF can] by simp
next
  case (2 s2 h)
  then show ?case by (simp, intro map_level3_new2 [OF can _ t]) (auto intro: Q E)
next
  case (3 s2)
  show ?case
    by (simp, rule ends_bind, rule free_allocated_wp [OF 3(2)]) (simp_all add: E)
qed

lemma write_memory_page_wp:
  assumes can: "can_map N s r U (page_path v) f" and fr: "frames s fs U"
    and Q: "\<And>s' hs V. page_mapped N r (page_path v) f (leaf_entry f w x u) (phys s) U (phys s') V \<Longrightarrow>
      frames s' hs V \<Longrightarrow> same_statics s s' \<Longrightarrow> Q () s'"
    and E: "\<And>s'. grown s U s' [] \<Longrightarrow> E WritePageError s'"
  shows "ends (write_memory_page v f r w x u s) Q E"
proof -
  note can' = can [unfolded page_path_def] and Q' = Q [unfolded page_path_def]
  have g0: "grown s U s []" using fr by (auto simp: grown_def)
  have rU: "r \<in> U" using can treeD(2) [OF _ root_area] by (auto simp: can_map_def)
  show ?thesis
    unfolding write_memory_page_levels
  proof (rule level_wp [OF g0], use rU in simp, simp, goal_cases)
    case (1 s1 t)
    then show ?case by (simp, intro map_level2_old [OF can' 1(2)]) (auto intro: Q' E)
  next
    case (2 s1 g)
    then show ?case by (simp, intro map_level2_new [OF can']) (auto intro: Q' E)
  next
    case (3 s1)
    then show ?case by (simp add: E)
  qed
qed

end

section \<open>Unmapping a page\<close>

text \<open>The entry for \<open>p\<close> in the table \<open>t\<close>, which referred to the frame \<open>g\<close>, is cleared, and \<open>g\<close> returned.\<close>

definition unlinked ::
  "nat list set \<Rightarrow> nat \<Rightarrow> nat list \<Rightarrow> nat \<Rightarrow> nat \<Rightarrow> (nat \<Rightarrow> u8) \<Rightarrow> nat set \<Rightarrow> (nat \<Rightarrow> u8) \<Rightarrow> bool" where
  "unlinked N r p g t m V m' \<longleftrightarrow>
     tree N m' r (V - {g}) \<and> (\<forall>p' \<in> N. node m' r p' = (if p' = p then None else node m r p')) \<and>
     (\<forall>p' \<in> N. length p' = 4 \<and> p' \<noteq> p \<longrightarrow> leaf m' r p' = leaf m r p') \<and>
     agree (V - {g, t}) m m'"

text \<open>
  The memory \<open>m'\<close> no longer maps \<open>path\<close>, and maps every other path as \<open>m\<close> did.  The page and
  tables that became empty are no longer in use.
\<close>

definition page_unmapped ::
  "nat list set \<Rightarrow> nat \<Rightarrow> nat list \<Rightarrow> nat \<Rightarrow> (nat \<Rightarrow> u8) \<Rightarrow> nat set \<Rightarrow> (nat \<Rightarrow> u8) \<Rightarrow> nat set \<Rightarrow> bool" where
  "page_unmapped N r path f m U m' V \<longleftrightarrow>
     tree N m' r V \<and> V \<subseteq> U - {f} \<and> U - {f} - on_path m r path \<subseteq> V \<and> node m' r path = None \<and>
     (\<forall>p \<in> N. node m' r p = node m r p \<or> node m' r p = None \<and> (\<exists>k. p = take k path)) \<and>
     (\<forall>p \<in> N. length p = 4 \<and> p \<noteq> path \<longrightarrow> leaf m' r p = leaf m r p) \<and>
     nodes N m' r = nodes N m r - (U - V) \<and>
     agree (V - on_path m r path) m m'"

text \<open>
  Returning empty tables from the innermost to the outermost: the tables on the path above the depth
  \<open>k\<close> are as they were, and only the one at \<open>k\<close> may be empty.
\<close>

definition pruned ::
  "nat list set \<Rightarrow> nat \<Rightarrow> nat list \<Rightarrow> nat \<Rightarrow> (nat \<Rightarrow> u8) \<Rightarrow> nat set \<Rightarrow> nat \<Rightarrow> machine \<Rightarrow> bool" where
  "pruned N r path f m U k s \<longleftrightarrow>
     (\<exists>V gs. page_unmapped N r path f m U (phys s) V \<and> frames s gs V) \<and>
     (\<forall>j \<le> k. node (phys s) r (take j path) = node m r (take j path)) \<and>
     (filled {} N m r \<longrightarrow> filled {take k path} N (phys s) r)"

definition page_freed ::
  "nat list set \<Rightarrow> nat \<Rightarrow> nat list \<Rightarrow> nat \<Rightarrow> (nat \<Rightarrow> u8) \<Rightarrow> nat set \<Rightarrow> machine \<Rightarrow> bool" where
  "page_freed N r path f m U s \<longleftrightarrow>
     (\<exists>V gs. page_unmapped N r path f m U (phys s) V \<and> frames s gs V) \<and>
     (filled {} N m r \<longrightarrow> filled {} N (phys s) r)"

lemma pruned_root: "pruned N r path f m U 0 s \<Longrightarrow> page_freed N r path f m U s"
  by (auto simp: pruned_def page_freed_def filled_def)

lemma bind_ret: "bind (ret x) f = f x"
  by (rule ext) (simp add: bind_def)

lemma bind_assert_True: "bind (assert True) f = f ()"
  by (rule ext) simp

lemma read_present_wp:
  assumes "frames s fs U" and "phys s = m" and "same_statics s0 s" and "t \<in> U" and "i < 512"
    and "target m t i = Some t'"
    and "\<And>s' e. frames s' fs U \<Longrightarrow> phys s' = m \<Longrightarrow> same_statics s0 s' \<Longrightarrow> address e = t' \<Longrightarrow> returns (F e s') Q"
  shows "returns (bind (get_entry t i) (\<lambda>e. bind (assert (present e)) (\<lambda>_. F e)) s) Q"
proof -
  have e: "present (entry_at m t i)" "address (entry_at m t i) = t'"
    using assms(6) by (simp_all add: target_def split: if_splits)
  show ?thesis
    unfolding returns_bind_iff
    by (rule get_table_wp [OF assms(1,4,5)])
      (use assms(2,3) e in \<open>auto intro!: assms(7) intro: same_statics_trans\<close>)
qed

context page_area
begin

lemma prune_leaf:
  assumes tree: "tree N m r V" and q: "q @ [i] \<in> N" "node m r q = Some t" "node m r (q @ [i]) = Some g"
    and empty: "\<And>j. q @ [i, j] \<in> N \<Longrightarrow> node m r (q @ [i, j]) = None"
    and nd: "\<And>p. p \<in> N \<Longrightarrow> node m' r p = (if p = q @ [i] then None else node m r p)"
    and put: "\<And>u j. u \<in> V - {g} \<Longrightarrow> j < 512 \<Longrightarrow> entry_at m' u j = (if u = t \<and> j = i then 0 else entry_at m u j)"
    and p: "p \<in> N" "length p = 4" "p \<noteq> q @ [i]"
  shows "leaf m' r p = leaf m r p"
proof -
  note pb = leaf_path(1) [OF p(1,2)] and b = leaf_path(2-3) [OF p(1,2)]
  show ?thesis
  proof (cases "butlast p = q @ [i]")
    case True
    then have "p = q @ [i, last p]" using pb by simp
    then have "node m r p = None" "node m' r p = None" using empty [of "last p"] nd [OF p(1)] p by auto
    then show ?thesis using p(2) by (intro leaf_absent) auto
  next
    case False
    have n: "node m' r (butlast p) = node m r (butlast p)" using nd [OF b(1)] False by simp
    show ?thesis
    proof (rule leaf_cong [OF n])
      fix u assume u: "node m r (butlast p) = Some u"
      have "u \<noteq> g" using treeD(3) [OF tree b(1) u, of "q @ [i]"] q False by auto
      moreover have "u \<noteq> t \<or> last p \<noteq> i"
        using treeD(3) [OF tree b(1) u, of q] q prefix_area [OF q(1)] pb p(3) by auto
      ultimately show "entry_at m' u (last p) = entry_at m u (last p)"
        using put [OF _ b(2), of u] treeD(2) [OF tree b(1) u] by auto
    qed
  qed
qed

lemma unlink_wp:
  assumes tree: "tree N (phys s) r V" and fr: "frames s fs V"
    and q: "q @ [i] \<in> N" "node (phys s) r q = Some t" "node (phys s) r (q @ [i]) = Some g"
    and empty: "\<And>j. q @ [i, j] \<in> N \<Longrightarrow> node (phys s) r (q @ [i, j]) = None"
    and closed: "length (q @ [i]) < 4 \<Longrightarrow> \<forall>j < 512. q @ [i, j] \<in> N"
    and Q: "\<And>s'. unlinked N r (q @ [i]) g t (phys s) V (phys s') \<Longrightarrow> frames s' (g # fs) (V - {g}) \<Longrightarrow>
      same_statics s s' \<Longrightarrow> Q () s'"
  shows "returns (delloc_frame g s) (\<lambda>_ s'. returns (write_entry t i 0 s') Q)"
proof -
  have qN: "q \<in> N" and i: "i < 512" using prefix_area [OF q(1)] bound_area(2) [OF q(1)] by auto
  have t: "t \<in> V" "frame t" and g: "g \<in> V" "frame g"
    using treeD(1,2) [OF tree qN q(2)] treeD(1,2) [OF tree q(1,3)] by auto
  have "t \<noteq> g" using treeD(3) [OF tree qN q(2) q(1)] q(3) by auto
  show ?thesis
  proof (rule delloc_agree_wp [OF fr g(1)], rule write_table_wp, assumption, goal_cases)
    case (3 s1 s2)
    note ag = 3(1)
    have put: "entry_at (phys s2) u j = (if u = t \<and> j = i then 0 else entry_at (phys s) u j)"
      if "u \<in> V - {g}" "j < 512" for u j
    proof -
      have "frame u" using framesD(5) [OF fr] that(1) by blast
      then show ?thesis
        unfolding 3(4) using entry_at_put [OF _ t(2) _ i that(2), of 0 u] agree_entry [OF ag that] by simp
    qed
    then have ent: "target (phys s2) u j = (if u = t \<and> j = i then None else target (phys s) u j)"
      if "u \<in> V - {g}" "j < 512" for u j
      using that by (simp add: target_def)
    have rest: "target (phys s2) u j = target (phys s) u j"
      if "p \<in> N" "node (phys s) r p = Some u" "u \<noteq> g" "j < 512" "u \<noteq> t \<or> j \<noteq> i" for p u j
      using ent [of u j] treeD(2) [OF tree that(1,2)] that by auto
    have cl: "target (phys s2) t i = None" using ent [of t i] t \<open>t \<noteq> g\<close> i by simp
    have "agree (V - {g, t}) (phys s1) (phys s2)"
      unfolding 3(4) using t framesD(5) [OF fr] i by (intro agree_put) auto
    then have "agree (V - {g, t}) (phys s) (phys s2)"
      using agree_trans agree_mono [OF ag, of "V - {g, t}"] by blast
    moreover have nd: "node (phys s2) r p = (if p = q @ [i] then None else node (phys s) r p)" if "p \<in> N" for p
      by (rule prune_node [OF tree q empty cl rest that])
    moreover have "leaf (phys s2) r p = leaf (phys s) r p" if "p \<in> N" "length p = 4" "p \<noteq> q @ [i]" for p
      by (rule prune_leaf [OF tree q empty nd put that])
    moreover have "tree N (phys s2) r (V - {g})"
      by (rule tree_prune [OF tree q empty cl rest closed])
    ultimately have "unlinked N r (q @ [i]) g t (phys s) V (phys s2)"
      by (simp add: unlinked_def)
    then show ?case using Q 3(2,5,6) same_statics_trans by blast
  qed (use t \<open>t \<noteq> g\<close> i in auto)
qed

lemma free_if_empty_wp:
  assumes tree: "tree N (phys s) r V" and fr: "frames s fs V"
    and q: "q @ [i] \<in> N" "node (phys s) r q = Some t" "node (phys s) r (q @ [i]) = Some g" "length (q @ [i]) < 4"
    and keep: "\<And>s' j. phys s' = phys s \<Longrightarrow> frames s' fs V \<Longrightarrow> same_statics s s' \<Longrightarrow>
      j < 512 \<Longrightarrow> target (phys s) g j \<noteq> None \<Longrightarrow> Q False s'"
    and free: "\<And>s'. unlinked N r (q @ [i]) g t (phys s) V (phys s') \<Longrightarrow> frames s' (g # fs) (V - {g}) \<Longrightarrow>
      same_statics s s' \<Longrightarrow> Q True s'"
  shows "returns (free_if_empty g t i s) Q"
proof -
  have g: "g \<in> V" "frame g" using treeD(1,2) [OF tree q(1,3)] by auto
  have same: "frames (s\<lparr>temp_page := n\<rparr>) fs V" for n by (rule frames_cong [OF fr]) auto
  show ?thesis
    unfolding free_if_empty_def returns_bind_iff
  proof (rule is_all_emptry_wp [OF g(2)], goal_cases)
    case (1 n)
    let ?s = "s\<lparr>temp_page := n\<rparr>"
    show ?case
    proof (cases "\<forall>j < 512. \<not> present (entry_at (phys s) g j)")
      case False
      then show ?thesis using keep [of ?s] same by (auto simp: same_statics_def target_def)
    next
      case True
      then have none: "target (phys s) g j = None" if "j < 512" for j using that by (simp add: target_def)
      have empty: "node (phys ?s) r (q @ [i, j]) = None" if "q @ [i, j] \<in> N" for j
        using none [of j] bound_area(2) [OF that] q(3) node_snoc [of "phys s" r "q @ [i]" j] by simp
      have closed: "\<forall>j < 512. q @ [i, j] \<in> N"
      proof (rule ccontr)
        assume "\<not> (\<forall>j < 512. q @ [i, j] \<in> N)"
        then obtain j where j: "j < 512" "(q @ [i]) @ [j] \<notin> N" by auto
        show False
          by (rule tree_anchor [OF tree q(1) _ q(4) j]) (use none q(3) in auto)
      qed
      have g0: "g \<noteq> 0" using g(2) by (simp add: frame_def)
      have tree': "tree N (phys ?s) r V" "node (phys ?s) r q = Some t" "node (phys ?s) r (q @ [i]) = Some g"
        using tree q by simp_all
      show ?thesis
        unfolding unwrap_nonzero_def if_not_P [OF g0]
        using True
        by (simp add: returns_bind_iff, intro unlink_wp [OF tree'(1) same q(1) tree'(2,3) empty])
          (simp_all add: closed free same_statics_def)
    qed
  qed
qed

lemma unlinked_nodes:
  assumes "unlinked N r p g t m V m'" and "tree N m r V" and "p \<in> N" and "node m r p = Some g"
  shows "nodes N m' r = nodes N m r - {g}"
proof -
  have un: "node m' r q = Some h \<longleftrightarrow> q \<noteq> p \<and> node m r q = Some h" if "q \<in> N" for q h
    using assms(1) that by (simp add: unlinked_def)
  have "q = p" if "q \<in> N" "node m r q = Some g" for q
    using treeD(3) [OF assms(2-4) that] .
  then show ?thesis unfolding nodes_def using un assms(4) by fastforce
qed

lemma unlinked_filled:
  assumes "unlinked N r (q @ [i]) g t m V m'" and "filled {q @ [i]} N m r"
  shows "filled {q} N m' r"
  unfolding filled_def
proof (intro ballI allI impI)
  fix p u assume p: "p \<in> N - {q}" "p \<noteq> [] \<and> length p < 4 \<and> node m' r p = Some u"
  have un: "node m' r p' = (if p' = q @ [i] then None else node m r p')" if "p' \<in> N" for p'
    using assms(1) that by (simp add: unlinked_def)
  have ne: "p \<noteq> q @ [i]" and u: "node m r p = Some u" using un [of p] p by (auto split: if_splits)
  obtain j where j: "j < 512" "target m u j \<noteq> None"
    using filledD [OF assms(2), of p u] p ne u by auto
  show "\<exists>j < 512. target m' u j \<noteq> None"
  proof (cases "p @ [j] \<in> N")
    case True
    then have "node m' r (p @ [j]) = node m r (p @ [j])" using un [of "p @ [j]"] p(1) by simp
    then show ?thesis using j p(2) u by (auto simp: node_snoc)
  next
    case False
    have tree': "tree N m' r (V - {g})" using assms(1) by (simp add: unlinked_def)
    obtain t' j' where "node m' r p = Some t'" "j' < 512" "target m' t' j' \<noteq> None"
      by (rule tree_anchor [OF tree' _ _ _ j(1) False]) (use p in auto)
    then show ?thesis using p(2) by auto
  qed
qed

lemma page_unmapped_first:
  assumes "unlinked N r path f t m U m'" and "path \<in> N" and "t \<in> on_path m r path"
    and "tree N m r U" and "node m r path = Some f"
  shows "page_unmapped N r path f m U m' (U - {f})"
proof -
  have "nodes N m' r = nodes N m r - {f}" using unlinked_nodes [OF assms(1,4,2,5)] .
  moreover have "f \<in> U" using treeD(2) [OF assms(4,2,5)] .
  then have "U - (U - {f}) = {f}" by auto
  moreover have "\<exists>k. path = take k path" by (intro exI [of _ "length path"]) simp
  ultimately show ?thesis
    using assms unfolding page_unmapped_def unlinked_def by (auto intro: agree_mono)
qed

lemma page_unmapped_next:
  assumes "page_unmapped N r path f m U m1 V" and "unlinked N r p g t m1 V m2" and "length p < 4"
    and "t \<in> on_path m r path" and "p = take k path" "p \<in> N" "node m1 r p = Some g" and "path \<in> N" "length path = 4"
  shows "page_unmapped N r path f m U m2 (V - {g})"
proof -
  have tree1: "tree N m1 r V" and V: "V \<subseteq> U" using assms(1) by (auto simp: page_unmapped_def)
  have g: "g \<in> V" using treeD(2) [OF tree1 assms(6,7)] .
  have "nodes N m2 r = nodes N m r - (U - V) - {g}"
    using unlinked_nodes [OF assms(2) tree1 assms(6,7)] assms(1) by (simp add: page_unmapped_def)
  also have "\<dots> = nodes N m r - (U - (V - {g}))" using g V by auto
  finally have nodes: "nodes N m2 r = nodes N m r - (U - (V - {g}))" .
  have "agree (V - {g} - on_path m r path) m m1"
    using assms(1) unfolding page_unmapped_def by (auto intro: agree_mono)
  moreover have "agree (V - {g} - on_path m r path) m1 m2"
    using assms(2,4) unfolding unlinked_def by (auto intro: agree_mono)
  ultimately have "agree (V - {g} - on_path m r path) m m2" by (rule agree_trans)
  moreover have "leaf m2 r p' = leaf m1 r p'" if "p' \<in> N" "length p' = 4" for p'
    using assms(2,3) that unfolding unlinked_def by auto
  moreover have "node m2 r p' = node m r p' \<or> node m2 r p' = None \<and> (\<exists>k. p' = take k path)" if "p' \<in> N" for p'
    using assms(1,2,5) that unfolding page_unmapped_def unlinked_def by (auto split: if_splits)
  moreover have "node m2 r path = None"
    using assms(1,2,8) unfolding page_unmapped_def unlinked_def by auto
  moreover have "node m r p = Some g" using assms(1,6,7) unfolding page_unmapped_def by fastforce
  then have "g \<in> on_path m r path"
    unfolding on_path_def using assms(3,5,9) by (auto intro!: exI [of _ "length p"])
  ultimately show ?thesis
    using assms(1,2) nodes unfolding page_unmapped_def unlinked_def by auto
qed

lemma prune_step_wp:
  assumes pr: "pruned N r path f m U (Suc k) s" and st: "same_statics s0 s"
    and path: "path \<in> N" "length path = 4" "k < 3"
    and t: "node m r (take k path) = Some t" "node m r (take (Suc k) path) = Some g"
    and keep: "\<And>s'. page_freed N r path f m U s' \<Longrightarrow> same_statics s0 s' \<Longrightarrow> Q False s'"
    and free: "\<And>s'. pruned N r path f m U k s' \<Longrightarrow> same_statics s0 s' \<Longrightarrow> Q True s'"
  shows "returns (free_if_empty g t (path ! k) s) Q"
proof -
  obtain V gs where un: "page_unmapped N r path f m U (phys s) V" and fr: "frames s gs V"
    using pr by (auto simp: pruned_def)
  have tree: "tree N (phys s) r V" using un by (simp add: page_unmapped_def)
  have snoc: "take k path @ [path ! k] = take (Suc k) path" using path by (simp add: take_Suc_conv_app_nth)
  have N: "take k path @ [path ! k] \<in> N" unfolding snoc using take_area path(1) .
  have now: "node (phys s) r (take k path) = Some t" "node (phys s) r (take k path @ [path ! k]) = Some g"
    using pr t by (auto simp: pruned_def snoc)
  have fil: "filled {} N m r \<Longrightarrow> filled {take (Suc k) path} N (phys s) r" using pr by (simp add: pruned_def)
  show ?thesis
  proof (rule free_if_empty_wp [OF tree fr N now], goal_cases)
    case 1
    then show ?case using path by simp
  next
    case (2 s' j)
    have "filled {} N (phys s) r" if "filled {} N m r"
      using fil [OF that] 2(4,5) now(2) unfolding filled_def snoc by auto
    then show ?case using un 2(1-3) same_statics_trans [OF st 2(3)] by (intro keep) (auto simp: page_freed_def)
  next
    case (3 s')
    have "t \<in> on_path m r path" unfolding on_path_def using t(1) path by (auto intro!: exI [of _ k])
    then have un': "page_unmapped N r path f m U (phys s') (V - {g})"
      by (intro page_unmapped_next [OF un 3(1), of "Suc k"]) (use path N now snoc in auto)
    have "node (phys s') r (take j path) = node m r (take j path)" if "j \<le> k" for j
    proof -
      have "length (take j path) \<noteq> length (take k path @ [path ! k])" using that path by simp
      then have ne: "take j path \<noteq> take k path @ [path ! k]" by metis
      have "take j path \<in> N" using take_area [OF path(1)] .
      then show ?thesis using 3(1) pr that ne by (simp add: unlinked_def pruned_def)
    qed
    moreover have "filled {take k path} N (phys s') r" if "filled {} N m r"
      by (rule unlinked_filled [OF 3(1)]) (use fil [OF that] snoc in simp)
    ultimately have "pruned N r path f m U k s'" using un' 3(2) by (auto simp: pruned_def)
    then show ?case using same_statics_trans [OF st 3(3)] by (rule free)
  qed
qed

lemma prune_tables_wp:
  assumes pr: "pruned N r [a, b, c, d] f m U 3 s" and st: "same_statics s0 s" and N: "[a, b, c, d] \<in> N"
    and t: "node m r [a] = Some t1" "node m r [a, b] = Some t2" "node m r [a, b, c] = Some t3"
    and Q: "\<And>s'. page_freed N r [a, b, c, d] f m U s' \<Longrightarrow> same_statics s0 s' \<Longrightarrow> Q () s'"
  shows "returns (free_if_empty t3 t2 c s) (\<lambda>up s. returns
    ((if \<not> up then ret () else
        bind (free_if_empty t2 t1 b) (\<lambda>up. if \<not> up then ret () else
        bind (free_if_empty t1 r a) (\<lambda>_. ret ()))) s) Q)"
proof -
  note step = prune_step_wp [where path = "[a, b, c, d]" and m = m and U = U and f = f and r = r and ?s0.0 = s0, OF _ _ N]
  show ?thesis
  proof (rule step [where k = 2 and t = t2 and g = t3, simplified], goal_cases)
    case (6 s1)
    show ?case
    proof (simp add: returns_bind_iff, rule step [where k = 1 and t = t1 and g = t2, simplified], goal_cases)
      case b: (6 s2)
      show ?case
        by (simp add: returns_bind_iff, rule step [where k = 0 and t = r and g = t1, simplified])
          (use b t Q pruned_root in auto)
    qed (use 6 t Q in \<open>auto simp: numeral_eq_Suc\<close>)
  qed (use pr st t Q in \<open>auto simp: numeral_eq_Suc\<close>)
qed

lemma remove_memory_page_wp:
  assumes tree: "tree N (phys s) r U" and fr: "frames s fs U"
    and path: "page_path v \<in> N" "node (phys s) r (page_path v) = Some f" and v: "0x1000 dvd v"
    and Q: "\<And>s'. page_freed N r (page_path v) f (phys s) U s' \<Longrightarrow> same_statics s s' \<Longrightarrow> Q () s'"
  shows "returns (remove_memory_page r v s) Q"
proof -
  define a b c d where "a = table_index 39 v" and "b = table_index 30 v" and "c = table_index 21 v"
    and "d = table_index 12 v"
  have idx: "a < 512" "b < 512" "c < 512" "d < 512" by (simp_all add: a_def b_def c_def d_def)
  have pp: "page_path v = [a, b, c, d]" by (simp add: page_path_def a_def b_def c_def d_def)
  have N: "[] \<in> N" "[a] \<in> N" "[a, b] \<in> N" "[a, b, c] \<in> N" "[a, b, c, d] \<in> N"
    using root_area take_area [OF path(1), of 1] take_area [OF path(1), of 2] take_area [OF path(1), of 3] path(1)
    by (simp_all add: pp numeral_eq_Suc)
  obtain t1 t2 t3 where t: "target (phys s) r a = Some t1" "target (phys s) t1 b = Some t2"
      "target (phys s) t2 c = Some t3" "target (phys s) t3 d = Some f"
    using path(2) by (auto simp: pp node.simps split: option.splits)
  have nt: "node (phys s) r [a] = Some t1" "node (phys s) r [a, b] = Some t2" "node (phys s) r [a, b, c] = Some t3"
      "node (phys s) r ([a, b, c] @ [d]) = Some f"
    using t by (simp_all add: node.simps)
  have U: "r \<in> U" "t1 \<in> U" "t2 \<in> U" "t3 \<in> U"
    using treeD(2) [OF tree] N nt by auto
  have f: "f \<noteq> 0" using treeD(1) [OF tree path] by (simp add: frame_def)
  have fr0: "frame r" using treeD(1) [OF tree N(1)] by simp
  have low: "and r 0xFFF = 0" "and v 0xFFF = 0" using fr0 v by (simp_all add: and_low frame_def)
  show ?thesis
    unfolding remove_memory_page_def Let_def a_def [symmetric] b_def [symmetric] c_def [symmetric] d_def [symmetric] low
      simp_thms(6) bind_assert_True
  proof (rule read_present_wp [OF fr refl same_statics_refl U(1) idx(1) t(1)],
      rule read_present_wp, assumption, assumption, assumption, simp add: U, simp add: idx, simp add: t,
      rule read_present_wp, assumption, assumption, assumption, simp add: U, simp add: idx, simp add: t,
      rule read_present_wp, assumption, assumption, assumption, simp add: U, simp add: idx, simp add: t, goal_cases)
    case (1 s1 e1 s2 e2 s3 e3 s4 e4)
    have m: "phys s4 = phys s" and fr4: "frames s4 fs U" and st: "same_statics s s4" using 1 by simp_all
    have e: "address e1 = t1" "address e2 = t2" "address e3 = t3" "address e4 = f" using 1 by simp_all
    have tree4: "tree N (phys s4) r U" "node (phys s4) r [a, b, c] = Some t3" "node (phys s4) r ([a, b, c] @ [d]) = Some f"
      using tree nt by (simp_all add: m)
    have N': "[a, b, c] @ [d] \<in> N" using N(5) by simp
    have none: "[a, b, c] @ [d, j] \<notin> N" for j using bound_area(1) [of "[a, b, c] @ [d, j]"] by auto
    have on: "t3 \<in> on_path (phys s) r [a, b, c, d]"
      unfolding on_path_def using nt(3) by (auto intro!: exI [of _ 3])
    show ?case
      unfolding e unwrap_nonzero_def if_not_P [OF f] bind_ret returns_bind_iff
    proof (rule unlink_wp [OF tree4(1) fr4 N' tree4(2,3)], goal_cases)
      case (3 s5)
      have un: "page_unmapped N r [a, b, c, d] f (phys s) U (phys s5) (U - {f})"
        by (rule page_unmapped_first) (use 3(1) on N(5) m tree nt in auto)
      have same: "node (phys s5) r p = node (phys s) r p" if "p \<in> N" "length p < 4" for p
        using 3(1) that unfolding unlinked_def m by auto
      have fil: "filled {[a, b, c]} N (phys s5) r" if "filled {} N (phys s) r"
        by (rule unlinked_filled [OF 3(1)]) (use that m in \<open>auto simp: filled_def\<close>)
      have "node (phys s5) r (take j [a, b, c, d]) = node (phys s) r (take j [a, b, c, d])" if "j \<le> 3" for j
        using same [OF take_area [OF N(5), of j]] that by simp
      then have "pruned N r [a, b, c, d] f (phys s) U 3 s5"
        unfolding pruned_def using un 3(2) fil by auto
      then show ?case
        by (rule prune_tables_wp [OF _ same_statics_trans [OF st 3(3)] N(5) nt(1-3)])
          (use Q [unfolded pp] in blast)
    qed (use none in auto)
  qed
qed

end

end
