(* ===== verification/Address_Space.thy ===== *)
theory Address_Space
  imports Page_Map
begin

text \<open>
  Address spaces: what the page tables promise to the rest of the kernel.

  \<^item> \<open>pages N m r\<close> is the abstract content of the tables below the root \<open>r\<close> on the paths of \<open>N\<close>: a map from
    paths to entries.  \<open>tables N m r\<close> are the frames the tables themselves occupy.
  \<^item> \<open>space N r D s\<close> is the invariant: \<open>D\<close> are the frames in use that are not tables.
  \<^item> Each operation of \<open>Page_Table\<close> has a rule in terms of \<open>pages\<close> and \<open>D\<close> alone.
\<close>

section \<open>The abstract address space\<close>

definition pages :: "nat list set \<Rightarrow> (nat \<Rightarrow> u8) \<Rightarrow> nat \<Rightarrow> nat list \<rightharpoonup> PageEntry" where
  "pages N m r p = (if p \<in> N \<and> length p = 4 then leaf m r p else None)"

definition tables :: "nat list set \<Rightarrow> (nat \<Rightarrow> u8) \<Rightarrow> nat \<Rightarrow> nat list \<rightharpoonup> nat" where
  "tables N m r p = (if p \<in> N \<and> length p < 4 then node m r p else None)"

definition space :: "nat list set \<Rightarrow> nat \<Rightarrow> nat set \<Rightarrow> machine \<Rightarrow> bool" where
  "space N r D s \<longleftrightarrow>
     (\<exists>fs. frames s fs (D \<union> ran (tables N (phys s) r))) \<and>
     tree N (phys s) r (D \<union> ran (tables N (phys s) r)) \<and> filled {} N (phys s) r \<and>
     D \<inter> ran (tables N (phys s) r) = {}"

lemma spaceE:
  assumes "space N r D s"
  obtains fs where "frames s fs (D \<union> ran (tables N (phys s) r))"
    and "tree N (phys s) r (D \<union> ran (tables N (phys s) r))" and "filled {} N (phys s) r"
    and "D \<inter> ran (tables N (phys s) r) = {}"
  using assms unfolding space_def by blast

lemma ran_tables: "t \<in> ran (tables N m r) \<longleftrightarrow> (\<exists>p \<in> N. length p < 4 \<and> node m r p = Some t)"
  by (auto simp: ran_def tables_def)

lemma on_path_tables:
  assumes "length path = 4" and "\<And>k. take k path \<in> N"
  shows "on_path m r path \<subseteq> ran (tables N m r)"
proof
  fix t assume "t \<in> on_path m r path"
  then obtain k where "k < 4" "node m r (take k path) = Some t" using assms(1) by (auto simp: on_path_def)
  then show "t \<in> ran (tables N m r)"
    unfolding ran_tables using assms by (intro bexI [of _ "take k path"]) auto
qed

lemma node_page: "length p = 4 \<Longrightarrow> node m r p = map_option address (leaf m r p)"
  by (rule node_leaf) auto

lemma pagesD: "pages N m r p = Some e \<Longrightarrow> p \<in> N \<and> length p = 4 \<and> node m r p = Some (address e)"
  by (auto simp: pages_def node_page split: if_splits)

lemma pages_None: "p \<in> N \<Longrightarrow> length p = 4 \<Longrightarrow> pages N m r p = None \<longleftrightarrow> node m r p = None"
  by (auto simp: pages_def node_page)

text \<open>The tables that always exist.\<close>

definition anchors :: "nat list set \<Rightarrow> nat list set" where
  "anchors N = {p \<in> N. p \<noteq> [] \<and> length p < 4 \<and> (\<exists>i < 512. p @ [i] \<notin> N)}"

context page_area
begin

lemma nodes_eq: "nodes N m r = ran (tables N m r) \<union> address ` ran (pages N m r)"
proof (intro equalityI subsetI)
  fix f assume "f \<in> nodes N m r"
  then obtain p where p: "p \<in> N" "node m r p = Some f" by (auto simp: nodes_def)
  show "f \<in> ran (tables N m r) \<union> address ` ran (pages N m r)"
  proof (cases "length p < 4")
    case True
    then show ?thesis using p by (auto simp: ran_tables)
  next
    case False
    then have l: "length p = 4" using bound_area(1) [OF p(1)] by simp
    then obtain e where "leaf m r p = Some e" "address e = f" using p(2) node_page [OF l, of m r] by auto
    then show ?thesis using p(1) l by (auto simp: pages_def ran_def)
  qed
next
  fix f assume "f \<in> ran (tables N m r) \<union> address ` ran (pages N m r)"
  then consider "f \<in> ran (tables N m r)" | p e where "pages N m r p = Some e" "f = address e"
    by (auto simp: ran_def)
  then show "f \<in> nodes N m r"
  proof cases
    case 1
    then show ?thesis unfolding ran_tables by (auto simp: nodes_def)
  next
    case 2
    then show ?thesis using pagesD [OF 2(1)] by (auto simp: nodes_def)
  qed
qed

lemma space_page_frame:
  assumes "space N r D s" and "pages N (phys s) r p = Some e"
  shows "address e \<in> D" and "frame (address e)"
proof -
  have p: "p \<in> N" "length p = 4" "node (phys s) r p = Some (address e)" using pagesD [OF assms(2)] by auto
  note inv = assms(1) [unfolded space_def]
  show "frame (address e)" using treeD(1) [OF _ p(1,3)] inv by blast
  have "address e \<notin> ran (tables N (phys s) r)"
    using treeD(3) [OF _ p(1,3)] inv p(2) unfolding ran_tables by (metis less_irrefl)
  moreover have "address e \<in> D \<union> ran (tables N (phys s) r)" using treeD(2) [OF _ p(1,3)] inv by blast
  ultimately show "address e \<in> D" by blast
qed

lemma space_inj:
  assumes "space N r D s" and "pages N (phys s) r p = Some e" and "pages N (phys s) r q = Some e'"
    and "address e = address e'"
  shows "p = q"
  using assms pagesD [OF assms(2)] pagesD [OF assms(3)] unfolding space_def tree_def by metis

text \<open>The invariant after a change that \<open>Page_Map\<close> describes.\<close>

lemma table_entry:
  assumes "agree (ran (tables N m r)) m m'" and "p \<in> N" "length p < 4" "node m r p = Some t" "j < 512"
  shows "entry_at m' t j = entry_at m t j"
  by (rule agree_entry [OF assms(1) _ assms(5)]) (use assms in \<open>auto simp: ran_tables\<close>)

lemma node_agree:
  assumes "agree (ran (tables N m r)) m m'" and "p \<in> N"
  shows "node m' r p = node m r p"
  using assms(2)
proof (induction p rule: rev_induct)
  case (snoc i p)
  have p: "p \<in> N" "i < 512" "length p < 4"
    using snoc.prems prefix_area bound_area(2) [OF snoc.prems] bound_area(1) [OF snoc.prems] by auto
  then show ?case
    using snoc.IH table_entry [OF assms(1) p(1,3) _ p(2)] by (simp add: node_snoc target_def split: option.splits)
qed simp

lemma pages_agree:
  assumes "agree (ran (tables N m r)) m m'"
  shows "pages N m' r = pages N m r" and "tables N m' r = tables N m r" and "nodes N m' r = nodes N m r"
    and "tree N m r U \<Longrightarrow> tree N m' r U" and "filled K N m r \<Longrightarrow> filled K N m' r"
proof -
  note eq = node_agree [OF assms] and ent = table_entry [OF assms]
  show "pages N m' r = pages N m r"
  proof (rule ext)
    fix p show "pages N m' r p = pages N m r p"
    proof (cases "p \<in> N \<and> length p = 4")
      case True
      note b = leaf_path [OF conjunct1 [OF True] conjunct2 [OF True]]
      have "length (butlast p) < 4" using b(4) by simp
      then show ?thesis using leaf_cong [OF eq [OF b(2)] ent [OF b(2) _ _ b(3)]] by (simp add: pages_def)
    qed (auto simp: pages_def)
  qed
  show "tables N m' r = tables N m r" using eq by (auto simp: tables_def)
  show "nodes N m' r = nodes N m r" using eq by (auto simp: nodes_def)
  have tgt: "target m' t j = target m t j" if "p \<in> N" "length p < 4" "node m r p = Some t" "j < 512" for p t j
    using ent [OF that] by (simp add: target_def)
  show "filled K N m' r" if fil: "filled K N m r"
    unfolding filled_def
  proof (intro ballI allI impI)
    fix p t assume p: "p \<in> N - K" "p \<noteq> [] \<and> length p < 4 \<and> node m' r p = Some t"
    then have t: "node m r p = Some t" using eq [of p] by simp
    obtain j where j: "j < 512" "target m t j \<noteq> None"
      by (rule filledD [OF fil _ _ _ _ t]) (use p in auto)
    then have "target m' t j \<noteq> None" using tgt [OF _ _ t j(1)] p by simp
    then show "\<exists>j < 512. target m' t j \<noteq> None" using j(1) by blast
  qed
  show "tree N m' r U" if tree: "tree N m r U"
    unfolding tree_def
  proof (intro conjI ballI allI impI)
    fix p assume p: "p \<in> N" "p \<noteq> [] \<and> length p < 4 \<and> (\<exists>i < 512. p @ [i] \<notin> N)"
    then obtain t j where t: "node m r p = Some t" "j < 512" "p @ [j] \<notin> N" "target m t j \<noteq> None"
      using tree_anchor [OF tree] by metis
    then show "\<exists>t j. node m' r p = Some t \<and> j < 512 \<and> p @ [j] \<notin> N \<and> target m' t j \<noteq> None"
      using eq [OF p(1)] tgt [OF p(1) _ t(1,2)] p(2) by auto
  qed (use tree eq in \<open>auto simp: tree_def\<close>)
qed

lemma page_mapped_filled:
  assumes fil: "filled {} N m r" and mp: "page_mapped N r path f e m U m' V" and path: "path \<in> N" "length path = 4"
  shows "filled {} N m' r"
  unfolding filled_def
proof (intro ballI allI impI)
  fix p t assume p: "p \<in> N - {}" "p \<noteq> [] \<and> length p < 4 \<and> node m' r p = Some t"
  have tree: "tree N m' r V" and pf: "node m' r path = Some f"
    and node: "\<And>p. p \<in> N \<Longrightarrow> node m' r p = node m r p \<or> node m r p = None \<and> (\<exists>k. p = take k path)"
    using mp unfolding page_mapped_def by auto
  show "\<exists>j < 512. target m' t j \<noteq> None"
  proof (cases "node m r p")
    case None
    then obtain k where k: "p = take k path" using node [of p] p by auto
    then have kl: "k < 4" "length p = k" using p(2) path(2) by auto
    have "node m' r (p @ [path ! k]) \<noteq> None"
    proof
      assume "node m' r (p @ [path ! k]) = None"
      moreover have "path = (p @ [path ! k]) @ drop (Suc k) path"
        using kl path(2) by (simp add: k take_Suc_conv_app_nth [symmetric])
      ultimately have "node m' r path = None" by (metis node_append option.simps(4))
      then show False using pf by simp
    qed
    moreover have "path ! k < 512" using bound_area(2) [OF path(1)] kl path(2) by simp
    ultimately show ?thesis using p(2) by (auto simp: node_snoc)
  next
    case (Some u)
    then have u: "u = t" "node m r p = Some t" using node [of p] p by auto
    obtain j where j: "j < 512" "target m t j \<noteq> None"
      by (rule filledD [OF fil _ _ _ _ u(2)]) (use p in auto)
    show ?thesis
    proof (cases "p @ [j] \<in> N")
      case True
      then have "node m' r (p @ [j]) \<noteq> None" using node [OF True] j(2) u by (auto simp: node_snoc)
      then show ?thesis using j(1) p(2) by (auto simp: node_snoc)
    next
      case False
      obtain t' j' where "node m' r p = Some t'" "j' < 512" "target m' t' j' \<noteq> None"
        by (rule tree_anchor [OF tree _ _ _ j(1) False]) (use p in auto)
      then show ?thesis using p(2) by auto
    qed
  qed
qed

lemma page_mapped_space:
  assumes sp: "space N r D s" and U: "U = D \<union> ran (tables N (phys s) r)" and path: "path \<in> N" "length path = 4"
    and mp: "page_mapped N r path f e (phys s) U (phys s') V" and fr: "frames s' gs V" and f: "f \<in> D" "address e = f"
    and free: "pages N (phys s) r path = None"
  shows "space N r D s'" and "pages N (phys s') r = (pages N (phys s) r)(path \<mapsto> e)"
    and "tables N (phys s) r \<subseteq>\<^sub>m tables N (phys s') r" and "agree D (phys s) (phys s')"
proof -
  let ?m = "phys s" and ?m' = "phys s'"
  have tree: "tree N ?m r U" and fil: "filled {} N ?m r" and dis: "D \<inter> ran (tables N ?m r) = {}"
    using sp U by (auto elim: spaceE)
  have mp': "U \<subseteq> V" "tree N ?m' r V" "leaf ?m' r path = Some e" "nodes N ?m' r = insert f (nodes N ?m r) \<union> (V - U)"
      "agree (U - on_path ?m r path) ?m ?m'"
    and node: "\<And>p. p \<in> N \<Longrightarrow> node ?m' r p = node ?m r p \<or> node ?m r p = None \<and> (\<exists>k. p = take k path)"
    and leaf: "\<And>p. p \<in> N \<Longrightarrow> length p = 4 \<Longrightarrow> p \<noteq> path \<Longrightarrow> leaf ?m' r p = leaf ?m r p"
    using mp unfolding page_mapped_def by auto
  show pg: "pages N ?m' r = (pages N ?m r)(path \<mapsto> e)"
    using leaf mp'(3) path by (auto simp: pages_def)
  show tb: "tables N ?m r \<subseteq>\<^sub>m tables N ?m' r"
    unfolding map_le_def
  proof
    fix p assume "p \<in> dom (tables N ?m r)"
    then have "p \<in> N" "length p < 4" "node ?m r p \<noteq> None" by (auto simp: tables_def split: if_splits)
    then show "tables N ?m r p = tables N ?m' r p" using node [of p] by (auto simp: tables_def)
  qed
  have "on_path ?m r path \<subseteq> ran (tables N ?m r)" by (rule on_path_tables [OF path(2) take_area [OF path(1)]])
  then show "agree D ?m ?m'" using mp'(5) dis U by (intro agree_mono [OF mp'(5)]) auto
  have new: "t \<notin> D" if t: "t \<in> ran (tables N ?m' r)" for t
  proof
    assume "t \<in> D"
    obtain p where p: "p \<in> N" "length p < 4" "node ?m' r p = Some t" using t by (auto simp: ran_tables)
    then have "t \<in> insert f (nodes N ?m r)" using \<open>t \<in> D\<close> mp'(4) U by (auto simp: nodes_def)
    then have "t = f \<or> t \<in> address ` ran (pages N ?m r)" using \<open>t \<in> D\<close> dis by (auto simp: nodes_eq)
    moreover have "ran (pages N ?m' r) = insert e (ran (pages N ?m r))" using free by (simp add: pg)
    ultimately have "t \<in> address ` ran (pages N ?m' r)" using f(2) by auto
    then obtain q where q: "q \<in> N" "length q = 4" "node ?m' r q = Some t" by (auto simp: ran_def dest: pagesD)
    then have "q = p" using treeD(3) [OF mp'(2) p(1,3)] by blast
    then show False using p q by simp
  qed
  have V: "V = D \<union> ran (tables N ?m' r)"
  proof
    have "ran (tables N ?m r) \<subseteq> ran (tables N ?m' r)" using tb by (auto simp: ran_def map_le_def dom_def) metis
    moreover have "V - U \<subseteq> ran (tables N ?m' r)"
    proof
      fix t assume t: "t \<in> V - U"
      then have "t \<in> nodes N ?m' r" using mp'(4) by auto
      moreover have "t \<notin> address ` ran (pages N ?m' r)"
        using t U space_page_frame(1) [OF sp] f free by (auto simp: pg ran_def split: if_splits)
      ultimately show "t \<in> ran (tables N ?m' r)" by (auto simp: nodes_eq)
    qed
    ultimately show "V \<subseteq> D \<union> ran (tables N ?m' r)" using U by auto
    show "D \<union> ran (tables N ?m' r) \<subseteq> V"
      using mp'(1) U treeD(2) [OF mp'(2)] by (auto simp: ran_tables)
  qed
  have "filled {} N ?m' r" by (rule page_mapped_filled [OF fil mp path])
  then show "space N r D s'" using fr mp'(2) V new unfolding space_def by blast
qed

lemma page_freed_space:
  assumes sp: "space N r D s" and U: "U = D \<union> ran (tables N (phys s) r)"
    and path: "pages N (phys s) r path = Some e" "f = address e"
    and fd: "page_freed N r path f (phys s) U s'"
  shows "space N r (D - {f}) s'" and "pages N (phys s') r = (pages N (phys s) r)(path := None)"
    and "tables N (phys s') r \<subseteq>\<^sub>m tables N (phys s) r" and "agree (D - {f}) (phys s) (phys s')"
proof -
  let ?m = "phys s" and ?m' = "phys s'"
  have fil: "filled {} N ?m r" and dis: "D \<inter> ran (tables N ?m r) = {}" using sp by (auto elim: spaceE)
  note p = pagesD [OF path(1)]
  obtain V gs where un: "page_unmapped N r path f ?m U ?m' V" and fr: "frames s' gs V" and fil': "filled {} N ?m' r"
    using fd fil by (auto simp: page_freed_def)
  have un': "tree N ?m' r V" "V \<subseteq> U - {f}" "U - {f} - on_path ?m r path \<subseteq> V" "node ?m' r path = None"
      "nodes N ?m' r = nodes N ?m r - (U - V)" "agree (V - on_path ?m r path) ?m ?m'"
    and node: "\<And>p. p \<in> N \<Longrightarrow> node ?m' r p = node ?m r p \<or> node ?m' r p = None \<and> (\<exists>k. p = take k path)"
    and leaf: "\<And>p. p \<in> N \<Longrightarrow> length p = 4 \<Longrightarrow> p \<noteq> path \<Longrightarrow> leaf ?m' r p = leaf ?m r p"
    using un unfolding page_unmapped_def by auto
  have "leaf ?m' r path = None" using un'(4) p node_page [of path ?m' r] by simp
  then show pg: "pages N ?m' r = (pages N ?m r)(path := None)" using leaf p by (auto simp: pages_def)
  show tb: "tables N ?m' r \<subseteq>\<^sub>m tables N ?m r"
    unfolding map_le_def
  proof
    fix q assume "q \<in> dom (tables N ?m' r)"
    then have "q \<in> N" "length q < 4" "node ?m' r q \<noteq> None" by (auto simp: tables_def split: if_splits)
    then show "tables N ?m' r q = tables N ?m r q" using node [of q] by (auto simp: tables_def)
  qed
  then have sub: "ran (tables N ?m' r) \<subseteq> ran (tables N ?m r)" by (auto simp: ran_def map_le_def dom_def) metis
  have on: "on_path ?m r path \<subseteq> ran (tables N ?m r)" using p take_area by (intro on_path_tables) auto
  have DV: "D - {f} \<subseteq> V" using un'(3) on dis U by auto
  show "agree (D - {f}) ?m ?m'" using DV on dis by (intro agree_mono [OF un'(6)]) auto
  have "V = (D - {f}) \<union> ran (tables N ?m' r)"
  proof
    show "V \<subseteq> D - {f} \<union> ran (tables N ?m' r)"
    proof
      fix v assume v: "v \<in> V"
      show "v \<in> D - {f} \<union> ran (tables N ?m' r)"
      proof (cases "v \<in> D")
        case False
        then have t: "v \<in> ran (tables N ?m r)" using v un'(2) U by auto
        then have "v \<in> nodes N ?m' r" using v un'(5) by (auto simp: nodes_eq)
        moreover have "v \<notin> address ` ran (pages N ?m' r)"
          using space_page_frame(1) [OF sp] False by (auto simp: pg ran_def split: if_splits)
        ultimately show ?thesis by (auto simp: nodes_eq)
      qed (use v un'(2) in auto)
    qed
    show "D - {f} \<union> ran (tables N ?m' r) \<subseteq> V"
      using DV treeD(2) [OF un'(1)] by (auto simp: ran_tables)
  qed
  then show "space N r (D - {f}) s'" using fr un'(1) fil' dis sub unfolding space_def by blast
qed

text \<open>
  Which tables exist is determined by the pages that are mapped.
\<close>

lemma table_below:
  assumes sp: "tree N m r U" "filled {} N m r" and p: "p \<in> N" "node m r p = Some t" "p \<noteq> []"
  shows "\<exists>q \<in> dom (pages N m r) \<union> anchors N. p = take (length p) q"
  using p
proof (induction "4 - length p" arbitrary: p t)
  case 0
  then have "length p = 4" using bound_area(1) [OF 0(2)] by simp
  then have "p \<in> dom (pages N m r)" using 0 pages_None [of p N m r] by auto
  then show ?case by (intro bexI [of _ p]) auto
next
  case (Suc k)
  then have l: "length p < 4" by simp
  show ?case
  proof (cases "p \<in> anchors N")
    case True
    then show ?thesis by (intro bexI [of _ p]) auto
  next
    case False
    obtain j where j: "j < 512" "target m t j \<noteq> None"
      by (rule filledD [OF sp(2) Suc.prems(1) _ Suc.prems(3) l Suc.prems(2)]) auto
    then have N: "p @ [j] \<in> N" using False Suc.prems l by (auto simp: anchors_def)
    obtain u where "node m r (p @ [j]) = Some u" using j(2) Suc.prems(2) by (auto simp: node_snoc)
    moreover have "k = 4 - length (p @ [j])" using Suc(2) by simp
    ultimately obtain q where "q \<in> dom (pages N m r) \<union> anchors N" "p @ [j] = take (length (p @ [j])) q"
      using Suc(1) [OF _ N] by auto
    moreover from this(2) have "p = take (length p) q"
      by (metis append_eq_conv_conj length_append_singleton take_take min.absorb1 le_SucI order_refl)
    ultimately show ?thesis by blast
  qed
qed

lemma dom_tables:
  assumes "tree N m r U" and "filled {} N m r"
  shows "dom (tables N m r) =
    {p \<in> N. length p < 4 \<and> (p = [] \<or> (\<exists>q \<in> dom (pages N m r) \<union> anchors N. p = take (length p) q))}"
proof (intro equalityI subsetI)
  fix p assume "p \<in> dom (tables N m r)"
  then obtain t where "p \<in> N" "length p < 4" "node m r p = Some t" by (auto simp: tables_def split: if_splits)
  then show "p \<in> {p \<in> N. length p < 4 \<and> (p = [] \<or> (\<exists>q \<in> dom (pages N m r) \<union> anchors N. p = take (length p) q))}"
    using table_below [OF assms] by blast
next
  fix p assume "p \<in> {p \<in> N. length p < 4 \<and> (p = [] \<or> (\<exists>q \<in> dom (pages N m r) \<union> anchors N. p = take (length p) q))}"
  then have p: "p \<in> N" "length p < 4" "p = [] \<or> (\<exists>q \<in> dom (pages N m r) \<union> anchors N. p = take (length p) q)" by auto
  have up: "node m r p \<noteq> None" if "node m r q \<noteq> None" "p = take (length p) q" for q
  proof -
    have "q = p @ drop (length p) q" using that(2) by (metis append_take_drop_id)
    then show ?thesis using that(1) node_append [of m r p "drop (length p) q"] by (auto split: option.splits)
  qed
  have "node m r p \<noteq> None"
  proof (cases "p = []")
    case False
    then obtain q where q: "q \<in> dom (pages N m r) \<union> anchors N" "p = take (length p) q" using p(3) by blast
    have "node m r q \<noteq> None"
    proof (cases "q \<in> anchors N")
      case True
      then show ?thesis using assms(1) unfolding anchors_def tree_def by fastforce
    next
      case n: False
      then show ?thesis using q(1) by (auto dest: pagesD)
    qed
    then show ?thesis using up q(2) by blast
  qed simp
  then show "p \<in> dom (tables N m r)" using p by (auto simp: tables_def)
qed

lemma same_tables:
  assumes "space N r D s" and "space N r D' s'" and "pages N (phys s') r = pages N (phys s) r"
    and "tables N (phys s) r \<subseteq>\<^sub>m T" and "tables N (phys s') r \<subseteq>\<^sub>m T"
  shows "tables N (phys s') r = tables N (phys s) r"
proof -
  have d: "dom (tables N (phys s) r) =
      {p \<in> N. length p < 4 \<and> (p = [] \<or> (\<exists>q \<in> dom (pages N (phys s) r) \<union> anchors N. p = take (length p) q))}"
    if "space N r D s" for D s
    using that dom_tables unfolding space_def by blast
  have "dom (tables N (phys s') r) = dom (tables N (phys s) r)"
    unfolding d [OF assms(1)] d [OF assms(2)] assms(3) ..
  then show ?thesis
  proof (intro ext)
    fix p assume eq: "dom (tables N (phys s') r) = dom (tables N (phys s) r)"
    show "tables N (phys s') r p = tables N (phys s) r p"
    proof (cases "p \<in> dom (tables N (phys s) r)")
      case True
      then show ?thesis using assms(4,5) eq by (simp add: map_le_def)
    next
      case False
      moreover have "p \<notin> dom (tables N (phys s') r)" using False eq by simp
      ultimately show ?thesis by (simp add: domIff)
    qed
  qed
qed

section \<open>One page\<close>

lemma tree_used:
  assumes "tree N m r U" and "nodes N m r \<subseteq> V"
  shows "tree N m r V"
proof -
  have "f \<in> V" if "p \<in> N" "node m r p = Some f" for p f using assms(2) that by (auto simp: nodes_def)
  then show ?thesis using assms(1) unfolding tree_def by blast
qed

lemma space_agree:
  assumes "space N r D s" and "frames s' fs (D' \<union> ran (tables N (phys s) r))"
    and "agree (ran (tables N (phys s) r)) (phys s) (phys s')" and "address ` ran (pages N (phys s) r) \<subseteq> D'"
    and "D' \<inter> ran (tables N (phys s) r) = {}"
  shows "space N r D' s'" and "pages N (phys s') r = pages N (phys s) r" and "tables N (phys s') r = tables N (phys s) r"
proof -
  have tree: "tree N (phys s) r (nodes N (phys s) r)" and fil: "filled {} N (phys s) r"
    using assms(1) by (auto elim!: spaceE intro: tree_used)
  note * = pages_agree [OF assms(3)]
  show "pages N (phys s') r = pages N (phys s) r" "tables N (phys s') r = tables N (phys s) r"
    using * by auto
  have "nodes N (phys s') r \<subseteq> D' \<union> ran (tables N (phys s') r)"
    using *(1,2) assms(4) by (auto simp: nodes_eq)
  with *(4) [OF tree] have "tree N (phys s') r (D' \<union> ran (tables N (phys s') r))" by (rule tree_used)
  then show "space N r D' s'" using assms(2,5) *(2) *(5) [OF fil] unfolding space_def by auto
qed

lemma alloc_page_wp:
  assumes sp: "space N r D s"
    and some: "\<And>f s'. frame f \<Longrightarrow> f \<notin> D \<Longrightarrow> f \<notin> ran (tables N (phys s) r) \<Longrightarrow> phys s' = phys s \<Longrightarrow>
      same_statics s s' \<Longrightarrow> space N r (insert f D) s' \<Longrightarrow> Q (Some f) s'"
    and none: "\<And>s'. phys s' = phys s \<Longrightarrow> same_statics s s' \<Longrightarrow> space N r D s' \<Longrightarrow> Q None s'"
  shows "returns (alloc_frame s) Q"
proof -
  obtain fs where fr: "frames s fs (D \<union> ran (tables N (phys s) r))"
    and tree: "tree N (phys s) r (D \<union> ran (tables N (phys s) r))" using sp by (auto elim: spaceE)
  have pg: "address ` ran (pages N (phys s) r) \<subseteq> D" using space_page_frame(1) [OF sp] by (auto simp: ran_def)
  have dis: "D \<inter> ran (tables N (phys s) r) = {}" using sp by (auto elim: spaceE)
  show ?thesis
  proof (rule alloc_frame_wp [OF fr], goal_cases)
    case (1 f s')
    have "space N r (insert f D) s'"
      by (rule space_agree(1) [OF sp]) (use 1 pg dis in auto)
    then show ?case using some 1 by auto
  next
    case (2 s')
    have "space N r D s'" by (rule space_agree(1) [OF sp]) (use 2 pg dis in auto)
    then show ?case using none 2 by auto
  qed
qed

lemma delloc_page_wp:
  assumes sp: "space N r D s" and f: "f \<in> D" "f \<notin> address ` ran (pages N (phys s) r)"
    and Q: "\<And>s'. space N r (D - {f}) s' \<Longrightarrow> pages N (phys s') r = pages N (phys s) r \<Longrightarrow>
      tables N (phys s') r = tables N (phys s) r \<Longrightarrow> agree (D - {f}) (phys s) (phys s') \<Longrightarrow> same_statics s s' \<Longrightarrow> Q () s'"
  shows "returns (delloc_frame f s) Q"
proof -
  let ?T = "ran (tables N (phys s) r)"
  obtain fs where fr: "frames s fs (D \<union> ?T)" using sp by (auto elim: spaceE)
  have pg: "address ` ran (pages N (phys s) r) \<subseteq> D" using space_page_frame(1) [OF sp] by (auto simp: ran_def)
  have dis: "D \<inter> ?T = {}" using sp by (auto elim: spaceE)
  show ?thesis
  proof (rule delloc_agree_wp [OF fr], use f(1) in simp, goal_cases)
    case (1 s')
    then have ag: "agree V (phys s) (phys s')" if "V \<subseteq> D \<union> ?T - {f}" for V using that agree_mono by blast
    have U: "D - {f} \<union> ?T = D \<union> ?T - {f}" using f(1) dis by auto
    have "agree ?T (phys s) (phys s')" by (rule ag) (use f dis in auto)
    then have *: "space N r (D - {f}) s'" "pages N (phys s') r = pages N (phys s) r"
        "tables N (phys s') r = tables N (phys s) r"
      by (rule space_agree [OF sp 1(3) [folded U]]; use f pg dis in auto)+
    show ?case by (rule Q [OF *]) (use ag [of "D - {f}"] 1(2) in auto)
  qed
qed

lemma map_page_wp:
  assumes sp: "space N r D s" and path: "page_path v \<in> N" "pages N (phys s) r (page_path v) = None"
    and f: "f \<in> D" "f \<notin> address ` ran (pages N (phys s) r)"
    and Q: "\<And>s'. space N r D s' \<Longrightarrow> pages N (phys s') r = (pages N (phys s) r)(page_path v \<mapsto> leaf_entry f w x u) \<Longrightarrow>
      tables N (phys s) r \<subseteq>\<^sub>m tables N (phys s') r \<Longrightarrow> agree D (phys s) (phys s') \<Longrightarrow> same_statics s s' \<Longrightarrow> Q () s'"
    and E: "\<And>s'. space N r D s' \<Longrightarrow> pages N (phys s') r = pages N (phys s) r \<Longrightarrow>
      tables N (phys s') r = tables N (phys s) r \<Longrightarrow> agree D (phys s) (phys s') \<Longrightarrow> same_statics s s' \<Longrightarrow> E WritePageError s'"
  shows "ends (write_memory_page v f r w x u s) Q E"
proof -
  let ?U = "D \<union> ran (tables N (phys s) r)"
  obtain fs where fr: "frames s fs ?U" and tree: "tree N (phys s) r ?U" and dis: "D \<inter> ran (tables N (phys s) r) = {}"
    using sp by (auto elim: spaceE)
  have frm: "frame f" using framesD(5) [OF fr] f(1) by auto
  have "f \<notin> nodes N (phys s) r" using f dis by (auto simp: nodes_eq)
  then have can: "can_map N s r ?U (page_path v) f"
    unfolding can_map_def using tree path frm f(1) by (auto simp: nodes_def pages_None)
  show ?thesis
  proof (rule write_memory_page_wp [OF can fr], goal_cases)
    case (1 s' hs V)
    show ?case
      by (rule Q [OF page_mapped_space [OF sp refl path(1) _ 1(1,2) f(1) _ path(2)] 1(3)]) (use frm in simp_all)
  next
    case (2 s')
    then obtain gs where g: "frames s' gs ?U" "agree ?U (phys s) (phys s')" "same_statics s s'"
        "agree (ran (tables N (phys s) r)) (phys s) (phys s')"
      using 2 agree_mono by (auto simp: grown_def)
    have pg: "address ` ran (pages N (phys s) r) \<subseteq> D" using space_page_frame(1) [OF sp] by (auto simp: ran_def)
    show ?case
      by (rule E [OF space_agree [OF sp g(1) g(4) pg dis]]) (use g agree_mono in auto)
  qed
qed

lemma unmap_page_wp:
  assumes sp: "space N r D s" and path: "pages N (phys s) r (page_path v) = Some e" "0x1000 dvd v"
    and Q: "\<And>s'. space N r (D - {address e}) s' \<Longrightarrow> pages N (phys s') r = (pages N (phys s) r)(page_path v := None) \<Longrightarrow>
      tables N (phys s') r \<subseteq>\<^sub>m tables N (phys s) r \<Longrightarrow> agree (D - {address e}) (phys s) (phys s') \<Longrightarrow>
      same_statics s s' \<Longrightarrow> Q () s'"
  shows "returns (remove_memory_page r v s) Q"
proof -
  let ?U = "D \<union> ran (tables N (phys s) r)"
  obtain fs where fr: "frames s fs ?U" and tree: "tree N (phys s) r ?U" using sp by (auto elim: spaceE)
  have p: "page_path v \<in> N" "node (phys s) r (page_path v) = Some (address e)" using pagesD [OF path(1)] by auto
  show ?thesis
  proof (rule remove_memory_page_wp [OF tree fr p path(2)], goal_cases)
    case (1 s')
    show ?case by (rule Q [OF page_freed_space [OF sp refl path(1) refl 1(1)] 1(2)])
  qed
qed

end

section \<open>Ranges of pages\<close>

lemma page_path_number: "page_path v = page_path w \<Longrightarrow> v div 0x1000 mod 2 ^ 36 = w div 0x1000 mod 2 ^ 36"
proof -
  assume eq: "page_path v = page_path w"
  have split: "x div 0x1000 mod 2 ^ 36 =
      2 ^ 27 * table_index 39 x + (2 ^ 18 * table_index 30 x + (2 ^ 9 * table_index 21 x + table_index 12 x))" for x
  proof -
    let ?y = "x div 0x1000"
    have t: "table_index 12 x = ?y mod 2 ^ 9" "table_index 21 x = ?y div 2 ^ 9 mod 2 ^ 9"
      "table_index 30 x = ?y div 2 ^ 18 mod 2 ^ 9" "table_index 39 x = ?y div 2 ^ 27 mod 2 ^ 9"
      by (simp_all add: table_index_eq div_mult2_eq [symmetric])
    have "?y mod (2 ^ 27 * 2 ^ 9) = 2 ^ 27 * (?y div 2 ^ 27 mod 2 ^ 9) + ?y mod 2 ^ 27" by (rule mod_mult2_eq)
    moreover have "?y mod (2 ^ 18 * 2 ^ 9) = 2 ^ 18 * (?y div 2 ^ 18 mod 2 ^ 9) + ?y mod 2 ^ 18" by (rule mod_mult2_eq)
    moreover have "?y mod (2 ^ 9 * 2 ^ 9) = 2 ^ 9 * (?y div 2 ^ 9 mod 2 ^ 9) + ?y mod 2 ^ 9" by (rule mod_mult2_eq)
    ultimately show ?thesis unfolding t by simp
  qed
  show ?thesis using eq unfolding split by (simp add: page_path_def)
qed

lemma mod_add_inj:
  assumes "(c + i) mod M = (c + j) mod M" and "i < M" and "j < (M :: nat)"
  shows "i = j"
proof -
  have le: "i = j" if "i \<le> j" "(c + j) mod M = (c + i) mod M" "j < M" for i j
  proof -
    have "M dvd (c + j) - (c + i)" using that(1,2) mod_eq_dvd_iff_nat [of "c + i" "c + j" M] by simp
    then have "M dvd j - i" by simp
    then show ?thesis using that(1,3) dvd_imp_le [of M "j - i"] by linarith
  qed
  show ?thesis using le [of i j] le [of j i] assms by linarith
qed

lemma page_path_run:
  assumes "page_path (v + i * 0x1000) = page_path (v + j * 0x1000)" and "i < 2 ^ 36" and "j < 2 ^ 36"
  shows "i = j"
proof (rule mod_add_inj [OF _ assms(2,3), of "v div 0x1000"])
  show "(v div 0x1000 + i) mod 2 ^ 36 = (v div 0x1000 + j) mod 2 ^ 36"
    using page_path_number [OF assms(1)] by (simp add: add.commute)
qed

text \<open>The paths of \<open>n\<close> consecutive pages.\<close>

definition run_paths :: "nat \<Rightarrow> nat \<Rightarrow> nat list list" where
  "run_paths start n = map (\<lambda>i. page_path (start + i * 0x1000)) [0..<n]"

lemma length_run_paths [simp]: "length (run_paths start n) = n"
  by (simp add: run_paths_def)

lemma nth_run_paths [simp]: "i < n \<Longrightarrow> run_paths start n ! i = page_path (start + i * 0x1000)"
  by (simp add: run_paths_def)

lemma run_paths_Suc: "run_paths start (Suc n) = run_paths start n @ [page_path (start + n * 0x1000)]"
  by (simp add: run_paths_def)

lemma set_run_paths: "p \<in> set (run_paths start n) \<longleftrightarrow> (\<exists>i < n. p = page_path (start + i * 0x1000))"
  by (auto simp: run_paths_def)

lemma run_paths_new:
  assumes "k < n" and "n \<le> 2 ^ 36"
  shows "page_path (start + k * 0x1000) \<notin> set (run_paths start k)"
  using page_path_run [of start k] assms by (fastforce simp: set_run_paths)

lemma run_paths_distinct: "n \<le> 2 ^ 36 \<Longrightarrow> distinct (run_paths start n)"
proof (induction n)
  case (Suc n)
  then show ?case using run_paths_new [of n "Suc n" start] by (simp add: run_paths_Suc)
qed (simp add: run_paths_def)

text \<open>
  The address space of \<open>s'\<close> is that of \<open>s\<close>: same pages, same tables, same contents.
\<close>

definition same_space :: "nat list set \<Rightarrow> nat \<Rightarrow> nat set \<Rightarrow> machine \<Rightarrow> machine \<Rightarrow> bool" where
  "same_space N r D s s' \<longleftrightarrow> space N r D s' \<and> pages N (phys s') r = pages N (phys s) r \<and>
     tables N (phys s') r = tables N (phys s) r \<and> agree D (phys s) (phys s') \<and> same_statics s s'"

text \<open>
  In \<open>s'\<close> the pages from \<open>start\<close> on are mapped to the new frames \<open>gs\<close>, with the flags of \<open>options\<close>; the
  other pages and the contents of all frames that were in use are those of \<open>s\<close>.
\<close>

definition option_entry :: "AllocateFrameOptions \<Rightarrow> nat \<Rightarrow> PageEntry" where
  "option_entry options f = leaf_entry f (opt_writable options) (opt_executable options) (opt_user options)"

definition run_mapped ::
  "nat list set \<Rightarrow> nat \<Rightarrow> nat set \<Rightarrow> AllocateFrameOptions \<Rightarrow> nat \<Rightarrow> nat list \<Rightarrow> machine \<Rightarrow> machine \<Rightarrow> bool" where
  "run_mapped N r D options start gs s s' \<longleftrightarrow>
     distinct gs \<and> set gs \<inter> (D \<union> ran (tables N (phys s) r)) = {} \<and> space N r (D \<union> set gs) s' \<and>
     pages N (phys s') r = (pages N (phys s) r)(run_paths start (length gs) [\<mapsto>] map (option_entry options) gs) \<and>
     tables N (phys s) r \<subseteq>\<^sub>m tables N (phys s') r \<and> agree D (phys s) (phys s') \<and> same_statics s s'"

lemma address_option_entry [simp]: "frame f \<Longrightarrow> address (option_entry options f) = f"
  by (simp add: option_entry_def)

lemma map_upds_nth:
  assumes "distinct xs" and "length ys = length xs" and "i < length xs"
  shows "(m(xs [\<mapsto>] ys)) (xs ! i) = Some (ys ! i)"
  using assms
proof (induction xs arbitrary: ys i m)
  case (Cons x xs)
  then obtain y zs where "ys = y # zs" by (cases ys) auto
  then show ?case using Cons by (cases i) (auto simp: nth_mem)
qed simp

lemma map_upds_restrict:
  assumes "length ys = length xs" and "\<And>x. x \<in> set xs \<Longrightarrow> m x = None"
  shows "m(xs [\<mapsto>] ys) |` (- set xs) = m"
  using assms by (auto simp: restrict_map_def fun_eq_iff)

lemma returns_try_map:
  "ends (m s) (\<lambda>_ s'. Q True s') (\<lambda>_ s'. Q False s') \<Longrightarrow> returns (try_map m s) Q"
  by (auto simp: ends_def try_map_def)

context page_area
begin

lemma free_run_wp:
  assumes sp: "space N r D s" and run: "0x1000 dvd start" "start + n * 0x1000 \<le> 2 ^ 64" "n \<le> 2 ^ 36"
    and es: "length es = n" "\<And>i. i < n \<Longrightarrow> pages N (phys s) r (page_path (start + i * 0x1000)) = Some (es ! i)"
    and Q: "\<And>s'. space N r (D - address ` set es) s' \<Longrightarrow>
      pages N (phys s') r = pages N (phys s) r |` (- set (run_paths start n)) \<Longrightarrow>
      tables N (phys s') r \<subseteq>\<^sub>m tables N (phys s) r \<Longrightarrow> agree (D - address ` set es) (phys s) (phys s') \<Longrightarrow>
      same_statics s s' \<Longrightarrow> Q () s'"
  shows "returns (free_mapped_frame r start (n * 0x1000) s) Q"
proof -
  define I where "I k a s' \<longleftrightarrow> space N r (D - address ` set (take k es)) s' \<and>
      pages N (phys s') r = pages N (phys s) r |` (- set (run_paths start k)) \<and>
      tables N (phys s') r \<subseteq>\<^sub>m tables N (phys s) r \<and> agree (D - address ` set (take k es)) (phys s) (phys s') \<and>
      same_statics s s'" for k and a :: unit and s'
  have "returns (free_mapped_frame r start (n * 0x1000) s) (I n)"
    unfolding free_mapped_frame_def nonzero_mult_div_cancel_right [OF zero_neq_numeral [symmetric]]
  proof (rule returns_for_upt [where I = I])
    show "I 0 () s" using sp by (simp add: I_def run_paths_def restrict_map_def)
    fix k a s1 assume k: "k < n" and I: "I k a s1"
    let ?v = "start + k * 0x1000"
    have v: "wadd64 start (k * 0x1000) = ?v" using run(2) k by (simp add: wadd64_small)
    have new: "page_path ?v \<notin> set (run_paths start k)" using run_paths_new [OF k run(3)] .
    then have e: "pages N (phys s1) r (page_path ?v) = Some (es ! k)" using es(2) [OF k] I by (simp add: I_def)
    have sp1: "space N r (D - address ` set (take k es)) s1" using I by (simp add: I_def)
    have tk: "take (Suc k) es = take k es @ [es ! k]" using k es(1) by (simp add: take_Suc_conv_app_nth)
    have D: "D - address ` set (take k es) - {address (es ! k)} = D - address ` set (take (Suc k) es)"
      unfolding tk by auto
    show "returns (remove_memory_page r (wadd64 start (k * 0x1000)) s1) (I (Suc k))"
      unfolding v
    proof (rule unmap_page_wp [OF sp1 e], goal_cases)
      case 1
      then show ?case using run(1) by (simp add: dvd_add)
    next
      case 3: (2 s2)
      have "pages N (phys s2) r = pages N (phys s) r |` (- set (run_paths start (Suc k)))"
        using 3(2) I unfolding I_def run_paths_Suc by (auto simp: restrict_map_def fun_eq_iff)
      moreover have "tables N (phys s2) r \<subseteq>\<^sub>m tables N (phys s) r" using 3(3) I map_le_trans unfolding I_def by blast
      moreover have "agree (D - address ` set (take (Suc k) es)) (phys s) (phys s2)"
      proof (rule agree_trans)
        show "agree (D - address ` set (take (Suc k) es)) (phys s) (phys s1)"
          using I unfolding I_def by (auto intro: agree_mono simp: tk)
        show "agree (D - address ` set (take (Suc k) es)) (phys s1) (phys s2)" using 3(4) by (simp add: D)
      qed
      moreover have "same_statics s s2" using same_statics_trans 3(5) I unfolding I_def by blast
      ultimately show ?case using 3(1) unfolding I_def D by auto
    qed
  qed
  then show ?thesis by (rule returns_mono) (use Q es(1) in \<open>auto simp: I_def\<close>)
qed

lemma run_mapped_free:
  assumes rm: "run_mapped N r D options start gs s s1" and sp: "space N r D s"
    and run: "0x1000 dvd start" "start + length gs * 0x1000 \<le> 2 ^ 64" "length gs \<le> 2 ^ 36"
    and free: "\<And>i. i < length gs \<Longrightarrow> pages N (phys s) r (page_path (start + i * 0x1000)) = None"
    and Q: "\<And>s'. same_space N r D s s' \<Longrightarrow> Q () s'"
  shows "returns (free_mapped_frame r start (length gs * 0x1000) s1) Q"
proof -
  let ?es = "map (option_entry options) gs"
  have rm': "set gs \<inter> (D \<union> ran (tables N (phys s) r)) = {}" "space N r (D \<union> set gs) s1"
      "pages N (phys s1) r = (pages N (phys s) r)(run_paths start (length gs) [\<mapsto>] ?es)"
      "tables N (phys s) r \<subseteq>\<^sub>m tables N (phys s1) r" "agree D (phys s) (phys s1)" "same_statics s s1"
    using rm by (auto simp: run_mapped_def)
  have "frame g" if "g \<in> set gs" for g
    using rm'(2) that by (auto elim!: spaceE dest: framesD(5))
  then have im: "address ` set ?es = set gs" by (force simp: image_image)
  then have D: "D \<union> set gs - address ` set ?es = D" using rm'(1) by auto
  have e: "pages N (phys s1) r (page_path (start + i * 0x1000)) = Some (?es ! i)" if "i < length gs" for i
    using map_upds_nth [OF run_paths_distinct [OF run(3), of start], of ?es i] that by (simp add: rm'(3))
  show ?thesis
  proof (rule free_run_wp [OF rm'(2) run, of ?es], unfold D, goal_cases)
    case 1: (3 s')
    have pg: "pages N (phys s') r = pages N (phys s) r"
      unfolding 1(2) rm'(3) by (rule map_upds_restrict) (use free in \<open>auto simp: set_run_paths\<close>)
    have "tables N (phys s') r = tables N (phys s) r"
      by (rule same_tables [OF sp 1(1) pg rm'(4) 1(3)])
    then show ?case
      using 1 pg agree_trans [OF rm'(5)] same_statics_trans [OF rm'(6)] by (intro Q) (auto simp: same_space_def)
  qed (use e in simp_all)
qed

lemma map_frame_wp:
  assumes rm: "run_mapped N r D options start gs s s1" and sp: "space N r D s"
    and run: "0x1000 dvd start" "start + n * 0x1000 \<le> 2 ^ 64" "n \<le> 2 ^ 36" "k = length gs" "k < n"
    and free: "\<And>i. i < n \<Longrightarrow> page_path (start + i * 0x1000) \<in> N \<and> pages N (phys s) r (page_path (start + i * 0x1000)) = None"
  shows "ends (map_frame r start options k s1) (\<lambda>_ s'. \<exists>g. run_mapped N r D options start (gs @ [g]) s s')
    (\<lambda>e s'. e = OutOfPhysicalMemory \<and> same_space N r D s s')"
proof -
  let ?v = "start + k * 0x1000" and ?E = "\<lambda>e s'. e = OutOfPhysicalMemory \<and> same_space N r D s s'"
  have rm': "distinct gs" "set gs \<inter> (D \<union> ran (tables N (phys s) r)) = {}" "space N r (D \<union> set gs) s1"
      "pages N (phys s1) r = (pages N (phys s) r)(run_paths start k [\<mapsto>] map (option_entry options) gs)"
      "tables N (phys s) r \<subseteq>\<^sub>m tables N (phys s1) r" "agree D (phys s) (phys s1)" "same_statics s s1"
    using rm run(4) by (auto simp: run_mapped_def)
  have v: "wadd64 start (k * 0x1000) = ?v" using run(2,5) by (simp add: wadd64_small)
  have undo: "returns (free_mapped_frame r start (k * 0x1000) s2) (\<lambda>_ s'. same_space N r D s s')"
    if "run_mapped N r D options start gs s s2" for s2
    unfolding run(4) by (rule run_mapped_free [OF that sp run(1)]) (use run free in auto)
  have new: "pages N (phys s1) r (page_path ?v) = None" "page_path ?v \<in> N"
    using free [OF run(5)] run_paths_new [OF run(5,3)] run(4) by (auto simp: rm'(4))
  show ?thesis
    unfolding map_frame_def v
  proof (rule ends_bind, rule alloc_page_wp [OF rm'(3)], goal_cases)
    case (1 f s2)
    have f: "f \<notin> address ` ran (pages N (phys s2) r)"
      using space_page_frame(1) [OF rm'(3)] 1(2) by (auto simp: ran_def 1(4))
    have new2: "pages N (phys s2) r (page_path ?v) = None" using new(1) by (simp add: 1(4))
    have ext: "tables N (phys s) r \<subseteq>\<^sub>m T \<Longrightarrow> ran (tables N (phys s) r) \<subseteq> ran T" for T
      by (auto simp: ran_def map_le_def dom_def) metis
    show ?case
      unfolding option.case
    proof (rule ends_bind, rule returns_try_map, rule map_page_wp [OF 1(6) new(2) new2 _ f], goal_cases)
      case (2 s3)
      have "run_mapped N r D options start (gs @ [f]) s s3"
        unfolding run_mapped_def
      proof (intro conjI)
        show "set (gs @ [f]) \<inter> (D \<union> ran (tables N (phys s) r)) = {}"
          using rm'(2) 1(2,3) ext [OF rm'(5)] by auto
        show "pages N (phys s3) r = (pages N (phys s) r)
            (run_paths start (length (gs @ [f])) [\<mapsto>] map (option_entry options) (gs @ [f]))"
          unfolding 2(2) 1(4) rm'(4) by (simp add: run(4) run_paths_Suc option_entry_def nth_append)
        show "tables N (phys s) r \<subseteq>\<^sub>m tables N (phys s3) r"
          using 2(3) rm'(5) map_le_trans unfolding 1(4) by blast
        have "agree D (phys s1) (phys s3)" using 2(4) unfolding 1(4) by (rule agree_mono) auto
        then show "agree D (phys s) (phys s3)" by (rule agree_trans [OF rm'(6)])
        show "same_statics s s3"
          using same_statics_trans [OF rm'(7) same_statics_trans [OF 1(5) 2(5)]] .
      qed (use 1 2(1) rm'(1) in auto)
      then show ?case by auto
    next
      case (3 s3)
      have f3: "f \<notin> address ` ran (pages N (phys s3) r)" using f by (simp add: 3(2))
      show ?case
        unfolding if_False simp_thms
      proof (rule ends_bind, rule delloc_page_wp [OF 3(1) _ f3], simp, goal_cases)
        case s4: (1 s4)
        have D: "insert f (D \<union> set gs) - {f} = D \<union> set gs" using 1(2) by auto
        have "agree D (phys s1) (phys s4)"
          using agree_trans agree_mono [OF 3(4)] agree_mono [OF s4(4)] unfolding D 1(4) by blast
        then have "agree D (phys s) (phys s4)" by (rule agree_trans [OF rm'(6)])
        moreover have "same_statics s s4"
          using same_statics_trans [OF rm'(7) same_statics_trans [OF 1(5) same_statics_trans [OF 3(5) s4(5)]]] .
        ultimately have "run_mapped N r D options start gs s s4"
          using rm s4(1-3) unfolding run_mapped_def D 3(2,3) 1(4) by auto
        from undo [OF this] show ?case by (intro ends_bind) (auto elim: returns_mono)
      qed
    qed simp
  next
    case (2 s2)
    have "run_mapped N r D options start gs s s2"
      using rm 2 same_statics_trans unfolding run_mapped_def by auto
    from undo [OF this] show ?case
      unfolding option.case by (intro ends_bind) (auto elim: returns_mono)
  qed
qed

lemma map_run_wp:
  assumes sp: "space N r D s" and run: "0x1000 dvd start" "start + n * 0x1000 \<le> 2 ^ 64" "n \<le> 2 ^ 36"
    and free: "\<And>i. i < n \<Longrightarrow> page_path (start + i * 0x1000) \<in> N \<and> pages N (phys s) r (page_path (start + i * 0x1000)) = None"
  shows "ends (for_each [0..<n] (\<lambda>i _. map_frame r start options i) () s)
    (\<lambda>_ s'. \<exists>gs. length gs = n \<and> run_mapped N r D options start gs s s')
    (\<lambda>e s'. e = OutOfPhysicalMemory \<and> same_space N r D s s')"
proof (rule ends_for_upt [where I = "\<lambda>k _ s'. \<exists>gs. length gs = k \<and> run_mapped N r D options start gs s s'"])
  show "\<exists>gs. length gs = 0 \<and> run_mapped N r D options start gs s s"
    using sp by (auto simp: run_mapped_def run_paths_def intro: exI [of _ "[]"])
  fix k s1 assume k: "k < n" "\<exists>gs. length gs = k \<and> run_mapped N r D options start gs s s1"
  then obtain gs where gs: "k = length gs" "run_mapped N r D options start gs s s1" by auto
  have "ends (map_frame r start options k s1) (\<lambda>_ s'. \<exists>g. run_mapped N r D options start (gs @ [g]) s s')
      (\<lambda>e s'. e = OutOfPhysicalMemory \<and> same_space N r D s s')"
    by (rule map_frame_wp [OF gs(2) sp run gs(1) k(1) free])
  then show "ends (map_frame r start options k s1)
      (\<lambda>_ s'. \<exists>gs. length gs = Suc k \<and> run_mapped N r D options start gs s s')
      (\<lambda>e s'. e = OutOfPhysicalMemory \<and> same_space N r D s s')"
    by (rule ends_mono) (use gs(1) in \<open>auto intro: exI [where x = "gs @ [g]" for g]\<close>)
qed

end

section \<open>Translation and the search for free pages\<close>

text \<open>The physical address behind \<open>v\<close>.\<close>

definition physical :: "(nat \<Rightarrow> u8) \<Rightarrow> nat \<Rightarrow> nat \<Rightarrow> nat option" where
  "physical m r v = (case node m r (page_path v) of None \<Rightarrow> None | Some f \<Rightarrow> nonzero (f + v mod 0x1000))"

lemma read_present_step:
  assumes "t + 0x1000 \<le> 2 ^ 52" and "i < 512"
    and "target (phys s) t i = None \<Longrightarrow> (\<And>n. Q None (s\<lparr>temp_page := n\<rparr>))"
    and "\<And>e n. target (phys s) t i = Some (address e) \<Longrightarrow> returns (f e (s\<lparr>temp_page := n\<rparr>)) Q"
  shows "returns (bind (read_memory (t + i * 8) 8) (\<lambda>bs.
    let entry = from_le bs in if \<not> present entry then ret None else f entry) s) Q"
proof -
  have "t + i * 8 + 8 < 2 ^ 64" using assms(1,2) by simp
  moreover have "from_le (get_bytes (phys s) (t + i * 8) 8) = entry_at (phys s) t i"
    by (simp add: entry_at_def load64_def)
  ultimately show ?thesis
    using assms(3,4) by (cases "present (entry_at (phys s) t i)")
      (simp_all add: returns_bind_iff run_read_memory touch_def target_def Let_def)
qed

lemma mapped_physical_wp:
  assumes r: "frame r" and Q: "\<And>n. Q (physical (phys s) r v) (s\<lparr>temp_page := n\<rparr>)"
  shows "returns (get_page_table_mapped_physical r v s) Q"
proof -
  have r': "r + 0x1000 \<le> 2 ^ 52" using r by (simp add: frame_def)
  have ph: "physical (phys s) r v =
      (case target (phys s) r (table_index 39 v) of None \<Rightarrow> None | Some t1 \<Rightarrow>
       case target (phys s) t1 (table_index 30 v) of None \<Rightarrow> None | Some t2 \<Rightarrow>
       case target (phys s) t2 (table_index 21 v) of None \<Rightarrow> None | Some t3 \<Rightarrow>
       case target (phys s) t3 (table_index 12 v) of None \<Rightarrow> None | Some f \<Rightarrow> nonzero (f + v mod 0x1000))"
    by (simp add: physical_def page_path_def node.simps split: option.splits)
  show ?thesis
    unfolding get_page_table_mapped_physical_def
    by (rule read_present_step [OF r'], simp, use Q in \<open>simp add: ph\<close>,
        rule read_present_step [OF address_less], simp, use Q in \<open>simp add: ph\<close>,
        rule read_present_step [OF address_less], simp, use Q in \<open>simp add: ph\<close>,
        rule read_present_step [OF address_less], simp, use Q in \<open>simp add: ph\<close>)
      (use Q in \<open>simp add: ph and_low\<close>)
qed

text \<open>\<open>n\<close> free pages from \<open>v\<close> on.\<close>

definition free_run :: "(nat \<Rightarrow> u8) \<Rightarrow> nat \<Rightarrow> nat \<Rightarrow> nat \<Rightarrow> bool" where
  "free_run m r v n \<longleftrightarrow> (\<forall>j < n. physical m r (v + j * 0x1000) = None)"

lemma find_free_loop_wp:
  assumes r: "frame r" and b: "0 < b" "send + 0x1000 \<le> 2 ^ 64" "0 < n"
    and ac: "a \<le> c" "c - a < n" "\<And>k. a \<le> k \<Longrightarrow> k < c \<Longrightarrow> physical (phys s) r (b + k * 0x1000) = None"
    and before: "\<And>k. k < a \<Longrightarrow> \<not> free_run (phys s) r (b + k * 0x1000) n"
    and some: "\<And>k t. free_run (phys s) r (b + k * 0x1000) n \<Longrightarrow> b + (k + n - 1) * 0x1000 < send \<Longrightarrow>
      (\<And>k'. k' < k \<Longrightarrow> \<not> free_run (phys s) r (b + k' * 0x1000) n) \<Longrightarrow> Q (Some (b + k * 0x1000)) (s\<lparr>temp_page := t\<rparr>)"
    and none: "\<And>t. (\<And>k. b + (k + n - 1) * 0x1000 < send \<Longrightarrow> \<not> free_run (phys s) r (b + k * 0x1000) n) \<Longrightarrow>
      Q None (s\<lparr>temp_page := t\<rparr>)"
  shows "returns (find_free_loop send r n (b + a * 0x1000) (b + c * 0x1000) (n - (c - a)) s) Q"
  using ac before some none
proof (induction "send - (b + c * 0x1000)" arbitrary: a c s rule: less_induct)
  case less
  note ac = less.prems(1-3) and before = less.prems(4) and some = less.prems(5) and none = less.prems(6)
  let ?i = "b + c * 0x1000"
  show ?case
  proof (cases "?i < send")
    case False
    have "\<not> free_run (phys s) r (b + k * 0x1000) n" if "b + (k + n - 1) * 0x1000 < send" for k
    proof (rule before)
      have "(k + n - 1) * 0x1000 < c * 0x1000" using that False by linarith
      then show "k < a" using ac(1,2) b(3) by simp
    qed
    then have "Q None (s\<lparr>temp_page := temp_page s\<rparr>)" by (rule none)
    then show ?thesis using False by (subst find_free_loop.simps) simp
  next
    case True
    have next_i: "wadd64 ?i 0x1000 = b + Suc c * 0x1000" using True b(2) by (simp add: wadd64_small)
    have i0: "?i \<noteq> 0" using b(1) by simp
    have dec: "send - (b + Suc c * 0x1000) < send - ?i" using True by simp
    show ?thesis
      unfolding find_free_loop.simps [of send r n _ ?i] if_P [OF True] unwrap_nonzero_def if_not_P [OF i0] bind_ret
        is_page_free_def next_i returns_bind_iff
    proof (rule mapped_physical_wp [OF r], unfold returns_ret, goal_cases)
      case (1 t)
      show ?case
      proof (cases "physical (phys s) r ?i = None")
        case free: True
        show ?thesis
        proof (cases "c - a = n - 1")
          case last: True
          have "free_run (phys s) r (b + a * 0x1000) n"
            unfolding free_run_def
          proof (intro allI impI)
            fix j assume j: "j < n"
            then have "a + j < c \<or> c = a + j" using last ac(1) by linarith
            then show "physical (phys s) r (b + a * 0x1000 + j * 0x1000) = None"
              using ac(3) [of "a + j"] free by (auto simp: algebra_simps)
          qed
          moreover have "a + n - 1 = c" using last ac(1) b(3) by simp
          ultimately have "Q (Some (b + a * 0x1000)) (s\<lparr>temp_page := t\<rparr>)"
            using some [of a t] True before by simp
          then show ?thesis using free last b by (simp add: wsub64_def nonzero_def)
        next
          case more: False
          have w: "wsub64 (n - (c - a)) 1 = n - (Suc c - a)" "n - (Suc c - a) \<noteq> 0"
            using more ac(1,2) by (auto simp: wsub64_def)
          show ?thesis
          proof (simp only: free w simp_thms if_True if_False, rule less.hyps [OF dec])
            show "physical (phys (s\<lparr>temp_page := t\<rparr>)) r (b + k * 0x1000) = None" if "a \<le> k" "k < Suc c" for k
              using ac(3) [of k] that free by (cases "k = c") auto
          qed (use ac more before some none in auto)
        qed
      next
        case used: False
        show ?thesis
        proof (simp only: used if_False, rule less.hyps [OF dec, of "Suc c", simplified diff_self_eq_0 minus_nat.diff_0])
          fix k assume k: "k < Suc c"
          show "\<not> free_run (phys (s\<lparr>temp_page := t\<rparr>)) r (b + k * 0x1000) n"
          proof (cases "k < a")
            case False
            have "physical (phys s) r (b + k * 0x1000 + (c - k) * 0x1000) \<noteq> None"
              using used k by (simp add: add.assoc flip: distrib_right)
            moreover have "c - k < n" using False ac(2) by simp
            ultimately show ?thesis by (auto simp: free_run_def)
          qed (use before in simp)
        qed (use b some none in auto)
      qed
    qed
  qed
qed

lemma find_free_wp:
  assumes r: "frame r" and b: "0 < b" "send + 0x1000 \<le> 2 ^ 64" "0 < n"
    and some: "\<And>k t. free_run (phys s) r (b + k * 0x1000) n \<Longrightarrow> b + (k + n - 1) * 0x1000 < send \<Longrightarrow>
      (\<And>k'. k' < k \<Longrightarrow> \<not> free_run (phys s) r (b + k' * 0x1000) n) \<Longrightarrow> Q (Some (b + k * 0x1000)) (s\<lparr>temp_page := t\<rparr>)"
    and none: "\<And>t. (\<And>k. b + (k + n - 1) * 0x1000 < send \<Longrightarrow> \<not> free_run (phys s) r (b + k * 0x1000) n) \<Longrightarrow>
      Q None (s\<lparr>temp_page := t\<rparr>)"
  shows "returns (find_free_virtual_memory b send r n s) Q"
  using find_free_loop_wp [OF r b, of 0 0 s Q] some none b(3) by (simp add: find_free_virtual_memory_def)

end
