(* ===== verification/User_Memory.thy ===== *)
theory User_Memory
  imports Address_Space
begin

text \<open>
  The address spaces of user programs and of the kernel (the public operations of
  \<open>kernel/src/memory/page.rs\<close>).

  \<^item> \<open>user_area\<close> and \<open>kernel_area\<close> are the paths each of the two manages: the entries 1 to 510 of the
    topmost table, and the part of entry 511 below the kernel image.
  \<^item> \<open>alloc_mapped_frame\<close> maps fresh pages or leaves the address space as it was;
    \<open>free_mapped_frame\<close> undoes it.
  \<^item> \<open>write_page_table_memory\<close> and \<open>read_page_table_memory\<close> access the bytes behind virtual addresses.
\<close>

section \<open>The areas\<close>

definition user_area :: "nat list set" where
  "user_area = {p. length p \<le> 4 \<and> (\<forall>i \<in> set p. i < 512) \<and> (p \<noteq> [] \<longrightarrow> 1 \<le> hd p \<and> hd p \<le> 510)}"

definition kernel_area :: "nat list set" where
  "kernel_area = {p. length p \<le> 4 \<and> (\<forall>i \<in> set p. i < 512) \<and>
     (p \<noteq> [] \<longrightarrow> hd p = 511 \<and> (tl p \<noteq> [] \<longrightarrow> hd (tl p) < 511))}"

interpretation user_pages: page_area user_area
proof
  fix p :: "nat list" and i assume "p @ [i] \<in> user_area"
  then show "p \<in> user_area" by (cases p) (auto simp: user_area_def)
qed (auto simp: user_area_def)

interpretation kernel_pages: page_area kernel_area
proof
  fix p :: "nat list" and i assume "p @ [i] \<in> kernel_area"
  then show "p \<in> kernel_area" by (cases p; cases "tl p") (auto simp: kernel_area_def)
qed (auto simp: kernel_area_def)

lemma user_path: "USER_SEARCH_START \<le> v \<Longrightarrow> v < 511 * 2 ^ 39 \<Longrightarrow> page_path v \<in> user_area"
proof -
  assume v: "USER_SEARCH_START \<le> v" "v < 511 * 2 ^ 39"
  have "1 \<le> v div 2 ^ 39" using div_le_mono [OF v(1), of "2 ^ 39"] by (simp add: USER_SEARCH_START_def)
  moreover have "v div 2 ^ 39 \<le> 510" using div_le_mono [of v "511 * 2 ^ 39 - 1" "2 ^ 39"] v(2) by simp
  ultimately have "1 \<le> table_index 39 v" "table_index 39 v \<le> 510" by (simp_all add: table_index_eq)
  then show ?thesis by (simp add: user_area_def page_path_def)
qed

lemma kernel_path: "KERNEL_SEARCH_START \<le> v \<Longrightarrow> v < KERNEL_SEARCH_END \<Longrightarrow> page_path v \<in> kernel_area"
proof -
  assume v: "KERNEL_SEARCH_START \<le> v" "v < KERNEL_SEARCH_END"
  have "v div 2 ^ 39 \<le> 0x1FFFFFF" "0x1FFFFFF \<le> v div 2 ^ 39"
    using div_le_mono [OF v(1), of "2 ^ 39"] div_le_mono [of v "KERNEL_SEARCH_END - 1" "2 ^ 39"] v(2)
    by (simp_all add: KERNEL_SEARCH_START_def KERNEL_SEARCH_END_def)
  then have "v div 2 ^ 39 = 0x1FFFFFF" by simp
  then have i39: "table_index 39 v = 511" by (simp add: table_index_eq)
  have "0x3FFFFFE00 \<le> v div 2 ^ 30" "v div 2 ^ 30 \<le> 0x3FFFFFFFE"
    using div_le_mono [OF v(1), of "2 ^ 30"] div_le_mono [of v "KERNEL_SEARCH_END - 1" "2 ^ 30"] v(2)
    by (simp_all add: KERNEL_SEARCH_START_def KERNEL_SEARCH_END_def)
  moreover define d where "d = v div 2 ^ 30 - 0x3FFFFFE00"
  ultimately have "v div 2 ^ 30 = d + 0x1FFFFFF * 512" "d \<le> 510" by linarith+
  then have "table_index 30 v < 511" unfolding table_index_eq by (simp only: mod_mult_self1)
  then show ?thesis using i39 by (simp add: kernel_area_def page_path_def)
qed

section \<open>Allocating pages\<close>

text \<open>In a managed area a page is free exactly when it is not mapped.\<close>

lemma physical_None:
  assumes "tree N m r U" and "page_path v \<in> N"
  shows "physical m r v = None \<longleftrightarrow> pages N m r (page_path v) = None"
proof -
  have "node m r (page_path v) = Some f \<Longrightarrow> f \<noteq> 0" for f
    using treeD(1) [OF assms] by (auto simp: frame_def)
  then show ?thesis using assms(2) by (auto simp: physical_def pages_None nonzero_def split: option.splits)
qed

lemma space_temp: "space N r D (s\<lparr>temp_page := t\<rparr>) = space N r D s"
proof -
  have "frames (s\<lparr>temp_page := t\<rparr>) fs U = frames s fs U" for fs U by (simp add: frames_def)
  then show ?thesis by (simp add: space_def)
qed

lemma run_mapped_temp: "run_mapped N r D options v gs (s\<lparr>temp_page := t\<rparr>) s' = run_mapped N r D options v gs s s'"
  by (simp add: run_mapped_def same_statics_def)

lemma same_space_temp: "same_space N r D (s\<lparr>temp_page := t\<rparr>) s' = same_space N r D s s'"
  by (simp add: same_space_def same_statics_def)

lemma same_space_refl: "space N r D s \<Longrightarrow> same_space N r D s (s\<lparr>temp_page := t\<rparr>)"
  by (simp add: same_space_def same_statics_def space_temp)

lemma space_root: "space user_area r D s \<Longrightarrow> frame r" "space kernel_area r D s \<Longrightarrow> frame r"
  using treeD(1) [of user_area "phys s" r _ "[]" r] treeD(1) [of kernel_area "phys s" r _ "[]" r]
  by (auto elim!: spaceE simp: user_pages.root_area kernel_pages.root_area)

lemma alloc_mapped_frame_search:
  assumes "frame r" and "returns (
      (case static_vaddr options of
         Some vaddr \<Rightarrow> find_user_free_virtual_memory_static n r vaddr
       | None \<Rightarrow> if opt_user options then (find_user_free_virtual_memory n r :: (machine, AllocMappedFrameError, nat option) prog)
                 else find_kernel_free_virtual_memory n) s)
      (\<lambda>v s'. case v of None \<Rightarrow> E OutOfVirtualSpace s' | Some start \<Rightarrow>
         ends (for_each [0..<n] (\<lambda>i _. map_frame r start options i) () s') (\<lambda>_. Q start) E)"
  shows "ends (alloc_mapped_frame r (n * 0x1000) options s) Q E"
proof -
  have low: "and r 0xFFF = 0" "and (n * 0x1000) 0xFFF = 0" using assms(1) by (simp_all add: and_low frame_def)
  show ?thesis
    unfolding alloc_mapped_frame_def low simp_thms(6) bind_assert_True Let_def
      nonzero_mult_div_cancel_right [OF zero_neq_numeral [symmetric]]
    by (rule ends_bind, rule returns_mono [OF assms(2)]) (auto simp: ends_bind_iff split: option.splits)
qed

text \<open>What a successful allocation of \<open>n\<close> pages at \<open>start\<close> promises.\<close>

definition allocated ::
  "nat list set \<Rightarrow> nat \<Rightarrow> nat set \<Rightarrow> AllocateFrameOptions \<Rightarrow> nat \<Rightarrow> nat \<Rightarrow> machine \<Rightarrow> machine \<Rightarrow> bool" where
  "allocated N r D options start n s s' \<longleftrightarrow>
     0x1000 dvd start \<and> (\<forall>i < n. pages N (phys s) r (page_path (start + i * 0x1000)) = None) \<and>
     (\<exists>gs. length gs = n \<and> run_mapped N r D options start gs s s')"

context page_area
begin

lemma alloc_found:
  assumes sp: "space N r D s" and v: "0x1000 dvd v" "v + n * 0x1000 \<le> 2 ^ 64" "n \<le> 2 ^ 36"
    and free: "free_run (phys s) r v n" "\<And>i. i < n \<Longrightarrow> page_path (v + i * 0x1000) \<in> N"
  shows "ends (for_each [0..<n] (\<lambda>i _. map_frame r v options i) () (s\<lparr>temp_page := t\<rparr>))
    (\<lambda>_ s'. allocated N r D options v n s s') (\<lambda>e s'. e = OutOfPhysicalMemory \<and> same_space N r D s s')"
proof -
  have "tree N (phys s) r (D \<union> ran (tables N (phys s) r))" using sp by (auto elim: spaceE)
  then have none: "pages N (phys s) r (page_path (v + i * 0x1000)) = None" if "i < n" for i
    using physical_None free that by (auto simp: free_run_def)
  have sp': "space N r D (s\<lparr>temp_page := t\<rparr>)" using sp by (simp add: space_temp)
  show ?thesis
    by (rule ends_mono [OF map_run_wp [OF sp' v]])
      (use none free v in \<open>auto simp: allocated_def run_mapped_temp same_space_temp\<close>)
qed

end

lemma alloc_user_pages:
  assumes sp: "space user_area r D s" and opt: "opt_user options" "static_vaddr options = None" and n: "0 < n"
    and room: "free_run (phys s) r (USER_SEARCH_START + k * 0x1000) n" "USER_SEARCH_START + (k + n) * 0x1000 \<le> 511 * 2 ^ 39"
  shows "ends (alloc_mapped_frame r (n * 0x1000) options s)
    (\<lambda>start s'. allocated user_area r D options start n s s' \<and>
       USER_SEARCH_START \<le> start \<and> start + n * 0x1000 \<le> 511 * 2 ^ 39)
    (\<lambda>e s'. e = OutOfPhysicalMemory \<and> same_space user_area r D s s')"
proof -
  note r = space_root(1) [OF sp]
  have bd: "0 < USER_SEARCH_START" "USER_SEARCH_END + 0x1000 \<le> 2 ^ 64" by (simp_all add: USER_SEARCH_START_def USER_SEARCH_END_def)
  have reach: "USER_SEARCH_START + (k + n - 1) * 0x1000 < USER_SEARCH_END"
    using room(2) n by (simp add: USER_SEARCH_END_def algebra_simps diff_mult_distrib)
  show ?thesis
  proof (rule alloc_mapped_frame_search [OF r], simp add: opt find_user_free_virtual_memory_def,
      rule find_free_wp [OF r bd n], goal_cases)
    case (1 k' t)
    have "k' \<le> k" using 1(3) [of k] room(1) by (meson not_le_imp_less)
    then have le: "USER_SEARCH_START + k' * 0x1000 + n * 0x1000 \<le> 511 * 2 ^ 39" using room(2) by simp
    have path: "page_path (USER_SEARCH_START + k' * 0x1000 + i * 0x1000) \<in> user_area" if "i < n" for i
      using that le by (intro user_path) auto
    have v: "0x1000 dvd USER_SEARCH_START + k' * 0x1000" by (simp add: USER_SEARCH_START_def)
    have "n \<le> 2 ^ 36" using le by (simp add: USER_SEARCH_START_def)
    then show ?case
      unfolding option.case
      by (intro ends_mono [OF user_pages.alloc_found [OF sp v _ _ 1(1) path]]) (use le in auto)
  next
    case (2 t)
    then show ?case using 2 [OF reach] room(1) by simp
  qed
qed

lemma alloc_kernel_pages:
  assumes sp: "space kernel_area (PML4 s) D s" and opt: "\<not> opt_user options" "static_vaddr options = None" and n: "0 < n"
  shows "ends (alloc_mapped_frame (PML4 s) (n * 0x1000) options s)
    (\<lambda>start s'. allocated kernel_area (PML4 s) D options start n s s' \<and>
       KERNEL_SEARCH_START \<le> start \<and> start + n * 0x1000 \<le> KERNEL_SEARCH_END)
    (\<lambda>e s'. same_space kernel_area (PML4 s) D s s')"
proof -
  note r = space_root(2) [OF sp]
  have bd: "0 < KERNEL_SEARCH_START" "KERNEL_SEARCH_END + 0x1000 \<le> 2 ^ 64"
    by (simp_all add: KERNEL_SEARCH_START_def KERNEL_SEARCH_END_def)
  show ?thesis
  proof (rule alloc_mapped_frame_search [OF r], simp add: opt find_kernel_free_virtual_memory_def,
      rule find_free_wp [OF r bd n], goal_cases)
    case (1 k t)
    let ?v = "KERNEL_SEARCH_START + k * 0x1000"
    have "KERNEL_SEARCH_START + (k + n - 1) * 0x1000 + 0x1000 \<le> KERNEL_SEARCH_END"
    proof -
      have "0x1000 dvd KERNEL_SEARCH_END - (KERNEL_SEARCH_START + (k + n - 1) * 0x1000)"
        by (intro dvd_diff_nat dvd_add) (simp_all add: KERNEL_SEARCH_START_def KERNEL_SEARCH_END_def)
      then have "0x1000 \<le> KERNEL_SEARCH_END - (KERNEL_SEARCH_START + (k + n - 1) * 0x1000)"
        by (rule dvd_imp_le) (use 1(2) in linarith)
      then show ?thesis by linarith
    qed
    then have le: "?v + n * 0x1000 \<le> KERNEL_SEARCH_END" using n by (simp add: algebra_simps diff_mult_distrib)
    have path: "page_path (?v + i * 0x1000) \<in> kernel_area" if "i < n" for i
      using that le by (intro kernel_path) auto
    have v: "0x1000 dvd ?v" by (simp add: KERNEL_SEARCH_START_def)
    have "n \<le> 2 ^ 36" "?v + n * 0x1000 \<le> 2 ^ 64"
      using le by (simp_all add: KERNEL_SEARCH_START_def KERNEL_SEARCH_END_def)
    then show ?case
      unfolding option.case
      by (intro ends_mono [OF kernel_pages.alloc_found [OF sp v _ _ 1(1) path]]) (use le in auto)
  next
    case (2 t)
    then show ?case using same_space_refl [OF sp] by simp
  qed
qed

lemma allocated_free:
  assumes "allocated user_area r D options start n s s'" and "space user_area r D s" and "start + n * 0x1000 \<le> 511 * 2 ^ 39"
  shows "returns (free_mapped_frame r start (n * 0x1000) s') (\<lambda>_ s''. same_space user_area r D s s'')"
proof -
  obtain gs where gs: "length gs = n" "run_mapped user_area r D options start gs s s'"
    and al: "0x1000 dvd start" "\<And>i. i < n \<Longrightarrow> pages user_area (phys s) r (page_path (start + i * 0x1000)) = None"
    using assms(1) by (auto simp: allocated_def)
  show ?thesis
    using user_pages.run_mapped_free [OF gs(2) assms(2) al(1)] al(2) assms(3) by (simp add: gs(1))
qed

section \<open>Access to the memory behind virtual addresses\<close>

definition virtual_byte :: "(nat \<Rightarrow> u8) \<Rightarrow> nat \<Rightarrow> nat \<Rightarrow> u8 option" where
  "virtual_byte m r v = map_option m (physical m r v)"

text \<open>
  \<open>s'\<close> is \<open>s\<close> with the bytes \<open>bs\<close> at the virtual address \<open>v\<close>.  Addresses are below \<open>2^48\<close>, so that two
  of them never name the same byte.
\<close>

definition written :: "nat list set \<Rightarrow> nat \<Rightarrow> nat set \<Rightarrow> nat \<Rightarrow> u8 list \<Rightarrow> machine \<Rightarrow> machine \<Rightarrow> bool" where
  "written N r D v bs s s' \<longleftrightarrow>
     space N r D s' \<and> pages N (phys s') r = pages N (phys s) r \<and> tables N (phys s') r = tables N (phys s) r \<and>
     (\<forall>x < 2 ^ 48. page_path x \<in> N \<longrightarrow> virtual_byte (phys s') r x =
        (if v \<le> x \<and> x < v + length bs then Some (bs ! (x - v)) else virtual_byte (phys s) r x)) \<and>
     agree (D - address ` ran (pages N (phys s) r)) (phys s) (phys s') \<and> same_statics s s'"

lemma written_none: "space N r D s \<Longrightarrow> written N r D v [] s (s\<lparr>temp_page := t\<rparr>)"
  by (auto simp: written_def space_temp same_statics_def)

lemma bind_cong: "(\<And>x s'. m s = Some (Ok x, s') \<Longrightarrow> f x s' = g x s') \<Longrightarrow> bind m f s = bind m g s"
  by (auto simp: bind_def split: option.splits res.splits)

lemma translate_wp:
  assumes "frame r"
    and "\<And>p t. physical (phys s) r v = Some p \<Longrightarrow> ends (f p (s\<lparr>temp_page := t\<rparr>)) Q E"
    and "\<And>t. physical (phys s) r v = None \<Longrightarrow> E PageFault (s\<lparr>temp_page := t\<rparr>)"
  shows "ends (bind (translate r v) f s) Q E"
  unfolding translate_def bind_assoc
  by (rule ends_bind, rule mapped_physical_wp [OF assms(1)])
    (use assms(2,3) in \<open>auto simp: ends_bind_iff split: option.splits\<close>)

lemma page_path_cong: "x div 0x1000 = v div 0x1000 \<Longrightarrow> page_path x = page_path v"
proof -
  have "table_index (12 + n) y = y div 0x1000 div 2 ^ n mod 512" for n y
    by (simp add: table_index_eq power_add div_mult2_eq)
  from this [of 0] this [of 9] this [of 18] this [of 27]
  show "x div 0x1000 = v div 0x1000 \<Longrightarrow> page_path x = page_path v" by (simp add: page_path_def)
qed

context page_area
begin

lemma virtual_frame:
  assumes sp: "space N r D s" and x: "page_path x \<in> N" "physical (phys s) r x = Some p"
  obtains e where "pages N (phys s) r (page_path x) = Some e" and "p = address e + x mod 0x1000" and "p mod 0x1000 = x mod 0x1000"
proof -
  obtain f where f: "node (phys s) r (page_path x) = Some f" "p = f + x mod 0x1000"
    using x(2) by (auto simp: physical_def nonzero_def split: option.splits if_splits)
  obtain e where e: "pages N (phys s) r (page_path x) = Some e"
    using f(1) x(1) pages_None [OF x(1), of "phys s" r] by auto
  have ef: "address e = f" using pagesD [OF e] f(1) by simp
  have "0x1000 dvd f" using space_page_frame(2) [OF sp e] ef by (simp add: frame_def)
  then have "p mod 0x1000 = x mod 0x1000" using f(2) by (auto elim!: dvdE)
  then show ?thesis using that e f(2) ef by blast
qed

lemma chunk_byte:
  assumes sp: "space N r D s" and v: "page_path v \<in> N" "v < 2 ^ 48" "physical (phys s) r v = Some p"
    and e: "pages N (phys s) r (page_path v) = Some e" "p = address e + v mod 0x1000"
    and fits: "v mod 0x1000 + length bs \<le> 0x1000" and x: "x < 2 ^ 48" "page_path x \<in> N"
    and node: "node (put_bytes p bs (phys s)) r (page_path x) = node (phys s) r (page_path x)"
  shows "virtual_byte (put_bytes p bs (phys s)) r x =
    (if v \<le> x \<and> x < v + length bs then Some (bs ! (x - v)) else virtual_byte (phys s) r x)"
proof -
  let ?m = "phys s" and ?m' = "put_bytes p bs (phys s)"
  have ph: "physical ?m' r x = physical ?m r x" by (simp add: physical_def node)
  define k where "k = v div 0x1000"
  have vk: "v = 0x1000 * k + v mod 0x1000" by (simp add: k_def)
  have same: "x div 0x1000 = k" if "page_path x = page_path v"
    using page_path_number [OF that] x(1) v(2) by (simp add: k_def div_less_iff_less_mult)
  have in_page: "page_path x = page_path v" if "v \<le> x" "x < v + length bs"
  proof -
    have "0x1000 * k \<le> x" "x < 0x1000 * Suc k" using that vk fits by (auto simp only: mult_Suc_right)
    then have "x div 0x1000 = k" by (rule div_nat_eqI)
    then show ?thesis by (intro page_path_cong) (simp add: k_def)
  qed
  show ?thesis
  proof (cases "physical ?m r x")
    case None
    have "tree N ?m r (D \<union> ran (tables N ?m r))" using sp by (auto elim: spaceE)
    then have "page_path x \<noteq> page_path v" using physical_None [OF _ x(2)] None e(1) by auto
    then show ?thesis using in_page None by (auto simp: virtual_byte_def ph)
  next
    case (Some q)
    obtain e' where e': "pages N ?m r (page_path x) = Some e'" "q = address e' + x mod 0x1000"
      by (rule virtual_frame [OF sp x(2) Some])
    show ?thesis
    proof (cases "page_path x = page_path v")
      case True
      then have "x = 0x1000 * k + x mod 0x1000" "address e' = address e" using same [OF True] e'(1) e(1) mult_div_mod_eq [of "0x1000" x] by auto
      then have "q + v = p + x" using vk e(2) e'(2) by linarith
      then have "p \<le> q \<longleftrightarrow> v \<le> x" "q < p + length bs \<longleftrightarrow> x < v + length bs" "q - p = x - v" by arith+
      then show ?thesis using Some by (simp add: virtual_byte_def ph put_bytes_def)
    next
      case False
      have "address e' \<noteq> address e" using space_inj [OF sp e'(1) e(1)] False by auto
      then have "address e' + 0x1000 \<le> address e \<or> address e + 0x1000 \<le> address e'"
        using frames_apart space_page_frame(2) [OF sp e'(1)] space_page_frame(2) [OF sp e(1)] by blast
      moreover have "x mod 0x1000 < 0x1000" by simp
      ultimately have "q < p \<or> p + length bs \<le> q" using e(2) e'(2) fits by linarith
      then have "?m' q = ?m q" by (rule put_bytes_other)
      then show ?thesis using in_page False Some by (auto simp: virtual_byte_def ph)
    qed
  qed
qed

lemma physical_chunk:
  assumes sp: "space N r D s" and v: "page_path v \<in> N" "physical (phys s) r v = Some p" "i < 0x1000 - p mod 0x1000"
  shows "physical (phys s) r (v + i) = Some (p + i)"
proof -
  obtain e where e: "pages N (phys s) r (page_path v) = Some e" "p = address e + v mod 0x1000" "p mod 0x1000 = v mod 0x1000"
    by (rule virtual_frame [OF sp v(1,2)])
  define k j where "k = v div 0x1000" and "j = v mod 0x1000"
  have vk: "v = 0x1000 * k + j" "j + i < 0x1000" using v(3) e(3) by (auto simp: k_def j_def)
  have "(v + i) div 0x1000 = k" using vk by (intro div_nat_eqI) auto
  then have path: "page_path (v + i) = page_path v" by (intro page_path_cong) (simp add: k_def)
  have "(v + i) mod 0x1000 = j + i"
    unfolding vk(1) add.assoc mod_mult_self4 using vk(2) by (rule mod_less)
  moreover have "address e \<noteq> 0" using space_page_frame(2) [OF sp e(1)] by (simp add: frame_def)
  ultimately show ?thesis using pagesD [OF e(1)] e(2) by (simp add: physical_def path nonzero_def j_def)
qed

lemma write_chunk:
  assumes sp: "space N r D s" and v: "page_path v \<in> N" "v < 2 ^ 48" "physical (phys s) r v = Some p"
    and bs: "length bs \<le> 0x1000 - p mod 0x1000"
  shows "written N r D v bs s (s\<lparr>temp_page := t, phys := put_bytes p bs (phys s)\<rparr>)"
proof -
  let ?m = "phys s" and ?m' = "put_bytes p bs (phys s)" and ?s = "s\<lparr>temp_page := t, phys := put_bytes p bs (phys s)\<rparr>"
  let ?T = "ran (tables N ?m r)"
  obtain fs where fr: "frames s fs (D \<union> ?T)" and dis: "D \<inter> ?T = {}" using sp by (auto elim: spaceE)
  obtain e where e: "pages N ?m r (page_path v) = Some e" "p = address e + v mod 0x1000" "p mod 0x1000 = v mod 0x1000"
    by (rule virtual_frame [OF sp v(1,3)])
  let ?f = "address e"
  have f: "?f \<in> D" "frame ?f" using space_page_frame [OF sp e(1)] by auto
  have fits: "v mod 0x1000 + length bs \<le> 0x1000" using bs e(3) mod_less_divisor [of "0x1000" v] by linarith
  have pg: "address ` ran (pages N ?m r) \<subseteq> D" using space_page_frame(1) [OF sp] by (auto simp: ran_def)
  have ag: "agree V ?m ?m'" if "V \<subseteq> set fs \<union> D \<union> ?T - {?f}" for V
    unfolding e(2) using that f(2) fits framesD(4,5) [OF fr] by (intro agree_put) auto
  have fT: "?f \<notin> ?T" "?f \<notin> set fs" using f(1) dis framesD(3) [OF fr] by auto
  have "frames ?s fs (D \<union> ?T)"
  proof (rule frames_cong [OF fr])
    fix g x assume g: "g \<in> set fs" "g \<le> x" "x < g + 8"
    have "agree {g} ?m ?m'" by (rule ag) (use g fT in auto)
    then show "phys ?s x = phys s x" using g by (simp add: agree_def)
  qed simp_all
  moreover have agT: "agree ?T ?m (phys ?s)" using ag [of ?T] fT by auto
  ultimately have sp': "space N r D ?s" "pages N (phys ?s) r = pages N ?m r" "tables N (phys ?s) r = tables N ?m r"
    using space_agree [OF sp, of ?s fs D] pg dis by auto
  have "virtual_byte ?m' r x = (if v \<le> x \<and> x < v + length bs then Some (bs ! (x - v)) else virtual_byte ?m r x)"
    if x: "x < 2 ^ 48" "page_path x \<in> N" for x
    by (rule chunk_byte [OF sp v e(1,2) fits x]) (use node_agree [OF agT x(2)] in simp)
  then show ?thesis
    unfolding written_def using sp' ag [of "D - address ` ran (pages N ?m r)"] e(1) by (auto simp: same_statics_def ran_def)
qed

lemma written_append:
  assumes "written N r D v bs s s1" and "written N r D (v + length bs) cs s1 s2"
  shows "written N r D v (bs @ cs) s s2"
proof -
  have "virtual_byte (phys s2) r x =
      (if v \<le> x \<and> x < v + length (bs @ cs) then Some ((bs @ cs) ! (x - v)) else virtual_byte (phys s) r x)"
    if "x < 2 ^ 48" "page_path x \<in> N" for x
    using assms that unfolding written_def by (auto simp: nth_append)
  moreover have "agree (D - address ` ran (pages N (phys s) r)) (phys s) (phys s2)"
    using assms agree_trans unfolding written_def by metis
  moreover have "same_statics s s2" using assms same_statics_trans unfolding written_def by blast
  ultimately show ?thesis using assms unfolding written_def by auto
qed

lemma written_physical:
  assumes "written N r D v bs s s'" and "page_path x \<in> N" and "space N r D s"
  shows "physical (phys s') r x = None \<longleftrightarrow> physical (phys s) r x = None"
proof -
  have "tree N (phys s) r (D \<union> ran (tables N (phys s) r))" "tree N (phys s') r (D \<union> ran (tables N (phys s') r))"
    using assms by (auto elim!: spaceE simp: written_def)
  then show ?thesis using physical_None assms(1,2) by (auto simp: written_def)
qed

text \<open>
  The copy ends with all bytes written, or at the first byte whose page is not mapped, with the bytes
  before it written.
\<close>

lemma write_page_table_wp:
  assumes "frame r" and "space N r D s" and "\<And>i. i < length bs \<Longrightarrow> page_path (v + i) \<in> N" and "v + length bs \<le> 2 ^ 48"
    and "\<And>s'. written N r D v bs s s' \<Longrightarrow> (\<And>i. i < length bs \<Longrightarrow> physical (phys s) r (v + i) \<noteq> None) \<Longrightarrow> Q () s'"
    and "\<And>k s'. k < length bs \<Longrightarrow> physical (phys s) r (v + k) = None \<Longrightarrow> written N r D v (take k bs) s s' \<Longrightarrow> E PageFault s'"
  shows "ends (write_page_table_loop r v bs s) Q E"
  using assms(2-6)
proof (induction "length bs" arbitrary: v bs s rule: less_induct)
  case less
  note sp = less.prems(1) and N = less.prems(2) and bd = less.prems(3) and Q = less.prems(4) and E = less.prems(5)
  show ?case
  proof (cases "bs = []")
    case True
    then show ?thesis using Q [of s] written_none [OF sp, of v "temp_page s"] by (simp add: write_page_table_loop.simps)
  next
    case False
    show ?thesis
      unfolding write_page_table_loop.simps [of r v bs] if_P [OF False]
    proof (rule translate_wp [OF assms(1)], goal_cases)
      case (1 p t)
      have v: "v < 2 ^ 48" using False bd by (cases bs) auto
      define k where "k = min (0x1000 - p mod 0x1000) (length bs)"
      have k: "0 < k" "k \<le> length bs" "length (take k bs) \<le> 0x1000 - p mod 0x1000" "v + k < 2 ^ 64"
        using False bd mod_less_divisor [of "0x1000" p] by (auto simp: k_def)
      let ?s = "s\<lparr>temp_page := page_of p, phys := put_bytes p (take k bs) (phys s)\<rparr>"
      have w: "written N r D v (take k bs) s ?s"
        by (rule write_chunk [OF sp _ v 1 k(3)]) (use N [of 0] False in simp)
      then have sp': "space N r D ?s" by (simp add: written_def)
      have phys: "physical (phys ?s) r (v + i) = None \<longleftrightarrow> physical (phys s) r (v + i) = None" if "i < length bs" for i
        using written_physical [OF w N [OF that] sp] .
      have chunk: "physical (phys s) r (v + i) \<noteq> None" if "i < k" for i
        using physical_chunk [OF sp _ 1, of i] N [of 0] False that by (simp add: k_def)
      have step: "ends (write_page_table_loop r (v + k) (drop k bs) ?s) Q E"
      proof (rule less.hyps)
        fix s' assume wr: "written N r D (v + k) (drop k bs) ?s s'"
          and all: "\<And>i. i < length (drop k bs) \<Longrightarrow> physical (phys ?s) r (v + k + i) \<noteq> None"
        show "Q () s'"
        proof (rule Q)
          show "written N r D v bs s s'" using written_append [OF w, of "drop k bs" s'] wr k(2) by simp
          show "physical (phys s) r (v + i) \<noteq> None" if "i < length bs" for i
          proof (cases "i < k")
            case False
            then have "physical (phys ?s) r (v + k + (i - k)) \<noteq> None" using that by (intro all) auto
            then show ?thesis using phys [OF that] False by auto
          qed (rule chunk)
        qed
      next
        show "E PageFault s'" if "j < length (drop k bs)" "physical (phys ?s) r (v + k + j) = None"
            "written N r D (v + k) (take j (drop k bs)) ?s s'" for j s'
        proof (rule E [of "k + j"])
          show "physical (phys s) r (v + (k + j)) = None" using phys [of "k + j"] that by (simp add: add.assoc)
          show "written N r D v (take (k + j) bs) s s'"
            using written_append [OF w, of "take j (drop k bs)" s'] that k(2) by (simp add: take_add)
        qed (use that in simp)
      qed (use k sp' N bd in \<open>auto simp: add.assoc\<close>)
      have "wadd64 v k = v + k" using k(4) by (rule wadd64_small)
      then show ?case using step by (simp add: ends_bind_iff run_insert_temp flip: k_def)
    next
      case (2 t)
      show ?case by (rule E [of 0]) (use 2 False written_none [OF sp] in auto)
    qed
  qed
qed

lemma read_page_table_wp:
  assumes "frame r" and "space N r D s" and "\<And>i. i < n \<Longrightarrow> page_path (v + i) \<in> N" and "v + n \<le> 2 ^ 48"
    and "\<And>t. (\<And>i. i < n \<Longrightarrow> physical (phys s) r (v + i) \<noteq> None) \<Longrightarrow>
      Q (acc @ map (\<lambda>i. the (virtual_byte (phys s) r (v + i))) [0..<n]) (s\<lparr>temp_page := t\<rparr>)"
    and "\<And>k t. k < n \<Longrightarrow> physical (phys s) r (v + k) = None \<Longrightarrow> E PageFault (s\<lparr>temp_page := t\<rparr>)"
  shows "ends (read_page_table_loop r v n acc s) Q E"
  using assms(2-6)
proof (induction n arbitrary: v acc s rule: less_induct)
  case (less n)
  note sp = less.prems(1) and N = less.prems(2) and bd = less.prems(3) and Q = less.prems(4) and E = less.prems(5)
  show ?case
  proof (cases "n = 0")
    case True
    then show ?thesis using Q [of "temp_page s"] by (simp add: read_page_table_loop.simps)
  next
    case False
    then have n: "0 < n" by simp
    show ?thesis
      unfolding read_page_table_loop.simps [of r v n] if_P [OF n]
    proof (rule translate_wp [OF assms(1)], goal_cases)
      case (1 p t)
      define k where "k = min (0x1000 - p mod 0x1000) n"
      have k: "0 < k" "k \<le> n" "v + k < 2 ^ 64" using n bd mod_less_divisor [of "0x1000" p] by (auto simp: k_def)
      have chunk: "physical (phys s) r (v + i) = Some (p + i)" if "i < k" for i
        using physical_chunk [OF sp _ 1, of i] N [of 0] n that by (simp add: k_def)
      let ?val = "\<lambda>i. the (virtual_byte (phys s) r (v + i))"
      have bytes: "get_bytes (phys s) p k = map ?val [0..<k]"
        by (rule nth_equalityI) (simp_all add: virtual_byte_def chunk)
      have rest: "map (\<lambda>i. the (virtual_byte (phys s) r (v + k + i))) [0..<n - k] = map ?val [k..<n]"
        using k(2) by (intro nth_equalityI) (simp_all add: add.assoc)
      have split: "map ?val [0..<k] @ map ?val [k..<n] = map ?val [0..<n]"
        using k(2) by (metis le_add_diff_inverse map_append upt_add_eq_append zero_le)
      have step: "ends (read_page_table_loop r (v + k) (n - k) (acc @ map ?val [0..<k]) (s\<lparr>temp_page := page_of p\<rparr>)) Q E"
      proof (rule less.IH)
        fix t assume all: "\<And>i. i < n - k \<Longrightarrow> physical (phys (s\<lparr>temp_page := page_of p\<rparr>)) r (v + k + i) \<noteq> None"
        have "physical (phys s) r (v + i) \<noteq> None" if "i < n" for i
        proof (cases "i < k")
          case False
          then show ?thesis using all [of "i - k"] that by simp
        qed (simp add: chunk)
        then have "Q (acc @ map ?val [0..<n]) (s\<lparr>temp_page := t\<rparr>)" by (rule Q)
        then show "Q ((acc @ map ?val [0..<k]) @ map (\<lambda>i. the (virtual_byte (phys (s\<lparr>temp_page := page_of p\<rparr>)) r (v + k + i))) [0..<n - k])
            (s\<lparr>temp_page := page_of p, temp_page := t\<rparr>)"
          by (simp add: rest split)
      next
        show "E PageFault (s\<lparr>temp_page := page_of p, temp_page := t\<rparr>)"
          if "j < n - k" "physical (phys (s\<lparr>temp_page := page_of p\<rparr>)) r (v + k + j) = None" for j t
          using E [of "k + j" t] that by (simp add: add.assoc)
      qed (use k sp N bd in \<open>auto simp: add.assoc space_temp\<close>)
      have "wadd64 v k = v + k" using k(3) by (rule wadd64_small)
      then show ?case using step by (simp add: ends_bind_iff run_insert_temp bytes flip: k_def)
    next
      case (2 t)
      then show ?case using E [of 0] n by simp
    qed
  qed
qed

end

text \<open>Filling is copying a buffer of equal bytes.\<close>

lemma write_bytes_loop_eq:
  "v + n < 2 ^ 64 \<Longrightarrow> write_bytes_loop r b v (v + n) s = write_page_table_loop r v (replicate n b) s"
proof (induction n arbitrary: v s rule: less_induct)
  case (less n)
  show ?case
  proof (cases "n = 0")
    case True
    then show ?thesis by (simp add: write_bytes_loop.simps write_page_table_loop.simps)
  next
    case False
    have step: "write_bytes_loop r b (wadd64 v k) (v + n) s' = write_page_table_loop r (wadd64 v k) (drop k (replicate n b)) s'"
      if "0 < k" "k \<le> n" for k s'
      using less.IH [of "n - k" "v + k" s'] less.prems that by (simp add: wadd64_small)
    have more: "v < v + n" "replicate n b \<noteq> []" using False by auto
    show ?thesis
      unfolding write_bytes_loop.simps [of r b v] write_page_table_loop.simps [of r v "replicate n b"]
        if_P [OF more(1)] if_P [OF more(2)]
    proof (rule bind_cong, goal_cases)
      case (1 p s')
      have "0 < min (0x1000 - p mod 0x1000) n" using False mod_less_divisor [of "0x1000" p] by simp
      then show ?case using step by (simp add: run_insert_temp min.commute)
    qed
  qed
qed

section \<open>New address spaces\<close>

lemma empty_node:
  assumes "\<And>j. 1 \<le> j \<Longrightarrow> j \<le> 510 \<Longrightarrow> \<not> present (entry_at m r j)" and "p \<in> user_area" and "p \<noteq> []"
  shows "node m r p = None"
proof -
  obtain i q where p: "p = i # q" using assms(3) by (cases p) auto
  then have "target m r i = None" using assms(1,2) by (simp add: user_area_def target_def)
  then show ?thesis by (simp add: p node.simps)
qed

lemma empty_space:
  assumes fr: "frames s fs U" and r: "r \<in> U"
    and none: "\<And>j. 1 \<le> j \<Longrightarrow> j \<le> 510 \<Longrightarrow> \<not> present (entry_at (phys s) r j)"
  shows "space user_area r (U - {r}) s" and "pages user_area (phys s) r = Map.empty"
    and "tables user_area (phys s) r = [[] \<mapsto> r]"
proof -
  note no = empty_node [OF none]
  show pg: "pages user_area (phys s) r = Map.empty"
  proof (rule ext)
    fix p show "pages user_area (phys s) r p = None"
      using no [of p] leaf_None [of p "phys s" r] by (cases "p = []") (auto simp: pages_def)
  qed
  show tb: "tables user_area (phys s) r = [[] \<mapsto> r]"
    using no user_pages.root_area by (auto simp: tables_def fun_eq_iff)
  have full: "\<not> (\<exists>i < 512. p @ [i] \<notin> user_area)" if "p \<in> user_area" "p \<noteq> []" "length p < 4" for p
    using that by (cases p) (auto simp: user_area_def)
  have "tree user_area (phys s) r U"
    unfolding tree_def
  proof (intro conjI ballI allI impI)
    fix p f assume "p \<in> user_area" "node (phys s) r p = Some f"
    then have "p = []" using no [of p] by auto
    then show "frame f" "f \<in> U" using framesD(5) [OF fr r] r \<open>node (phys s) r p = Some f\<close> by auto
  next
    fix p q f assume "p \<in> user_area" "q \<in> user_area" "node (phys s) r p = Some f \<and> node (phys s) r q = Some f"
    then show "p = q" using no [of p] no [of q] by fastforce
  qed (use full in blast)
  moreover have "filled {} user_area (phys s) r" unfolding filled_def using no by fastforce
  moreover have "U - {r} \<union> ran [[] \<mapsto> r] = U" using r by auto
  ultimately show "space user_area r (U - {r}) s" unfolding space_def tb using fr by auto
qed

lemma alloc_user_page_table_wp:
  assumes fr: "frames s fs U" and pml4: "PML4 s \<in> U"
    and some: "\<And>a s'. a \<notin> U \<Longrightarrow> space user_area a U s' \<Longrightarrow> pages user_area (phys s') a = Map.empty \<Longrightarrow>
      entry_at (phys s') a 0 = entry_at (phys s) (PML4 s) 0 \<Longrightarrow>
      entry_at (phys s') a 511 = entry_at (phys s) (PML4 s) 511 \<Longrightarrow>
      agree U (phys s) (phys s') \<Longrightarrow> same_statics s s' \<Longrightarrow> Q (Some a) s'"
    and none: "\<And>s'. frames s' [] U \<Longrightarrow> phys s' = phys s \<Longrightarrow> same_statics s s' \<Longrightarrow> Q None s'"
  shows "returns (alloc_user_page_table s) Q"
  unfolding alloc_user_page_table_def returns_bind_iff
proof (rule alloc_frame_wp [OF fr], goal_cases)
  case (2 s')
  then show ?case using none by simp
next
  case (1 a s1)
  have a: "frame a" "a + 0x1000 < 2 ^ 64" using 1(3) frame_less by auto
  have P: "frame (PML4 s)" "PML4 s \<noteq> a" using framesD(5) [OF fr pml4] pml4 1(4) by auto
  define x0 x1 where "x0 = entry_at (phys s) (PML4 s) 0" and "x1 = entry_at (phys s) (PML4 s) 511"
  have x: "x0 < 2 ^ 64" "x1 < 2 ^ 64" by (simp_all add: x0_def x1_def entry_at_def load64_less [simplified])
  let ?z = "put_bytes a (replicate 4096 0) (phys s)"
  let ?w = "put_bytes a (to_le 8 x0) ?z"
  let ?m = "put_bytes (a + 4088) (to_le 8 x1) ?w"
  have st: "PML4 s1 = PML4 s" using 1(2) by (simp add: same_statics_def)
  have le: "to_le 8 x0 = get_bytes (phys s) (PML4 s) 8" "to_le 8 x1 = get_bytes (phys s) (PML4 s + 4088) 8"
    by (simp_all add: x0_def x1_def entry_at_def load64_def to_le_from_le)
  have g: "get_bytes ?z (PML4 s) 8 = to_le 8 x0" "get_bytes ?w (PML4 s + 4088) 8 = to_le 8 x1"
    using frames_apart [OF P(1) a(1) P(2)] by (auto simp: get_put_other le)
  have ag: "agree V (phys s) ?m" if "\<forall>f \<in> V. frame f" "a \<notin> V" for V
  proof -
    have m0: "agree V (phys s) ?z" using agree_put [OF a(1) that, of 0 "replicate 4096 0" "phys s"] by simp
    have m1: "agree V ?z ?w" using agree_put [OF a(1) that, of 0 "to_le 8 x0" ?z] by simp
    have "agree V ?w ?m" by (rule agree_put [OF a(1) that]) simp
    then show ?thesis by (rule agree_trans [OF agree_trans [OF m0 m1]])
  qed
  have ent: "entry_at ?m a j = (if j = 511 then x1 else if j = 0 then x0 else 0)" if "j < 512" for j
    using entry_at_put [OF x(2) a(1) a(1) _ that, of 511 ?w] entry_at_put [OF x(1) a(1) a(1) _ that, of 0 ?z]
      entry_at_zeroed [OF that, of a "phys s"] by simp
  have "Q (Some a) (s1\<lparr>temp_page := t, phys := ?m\<rparr>)" for t
  proof -
    let ?s = "s1\<lparr>temp_page := t, phys := ?m\<rparr>"
    have inv: "\<And>f. f \<in> set (tl fs) \<Longrightarrow> frame f" "a \<notin> set (tl fs)" "\<And>f. f \<in> U \<Longrightarrow> frame f"
      using framesD(3-5) [OF 1(5)] by auto
    have "agree (set (tl fs)) (phys s) ?m" using ag inv by blast
    then have fr': "frames ?s (tl fs) (insert a U)"
      by (intro frames_cong [OF 1(5)]) (auto simp: agree_def 1(1))
    have "insert a U - {a} = U" using 1(4) by auto
    then have "space user_area a U ?s" "pages user_area (phys ?s) a = Map.empty"
      using empty_space [OF fr', of a] ent by auto
    then show ?thesis
      by (rule some [OF 1(4)]) (use ent ag inv(3) 1(2,4) in \<open>auto simp: x0_def x1_def same_statics_def\<close>)
  qed
  then show ?case
    using a(2) by (simp add: run_zero_memory run_write_memory touch_def g st 1(1))
qed

end
