(* ===== verification/Page_Release.thy ===== *)
theory Page_Release
  imports User_Memory
begin

text \<open>
  Destroying a user address space (\<open>release_user_page_table\<close> of \<open>kernel/src/memory/page.rs\<close>): the walk
  returns the tables of the three upper levels and the page tables, but not the pages.
\<close>

section \<open>Reading a table\<close>

lemma read_table_wp:
  assumes "frame t" and "\<And>n. Q (map (entry_at (phys s) t) [0..<512]) (s\<lparr>temp_page := n\<rparr>)"
  shows "returns (read_table t s) Q"
proof -
  have "slice (j * 8) 8 (get_bytes (phys s) t 4096) = get_bytes (phys s) (t + j * 8) 8" if "j < 512" for j
    using that by (intro nth_equalityI) (simp_all add: slice_def add.assoc)
  then have "map from_le (chunks 8 512 (get_bytes (phys s) t 4096)) = map (entry_at (phys s) t) [0..<512]"
    by (intro nth_equalityI) (simp_all add: entry_at_def load64_def)
  moreover have "t + 4096 < 2 ^ 64" using frame_less [OF assms(1)] by simp
  ultimately show ?thesis using assms(2) by (simp add: read_table_def returns_bind_iff run_read_memory touch_def)
qed

section \<open>The walk\<close>

text \<open>The tables at and below the path \<open>p\<close>.\<close>

definition below_path :: "nat list set \<Rightarrow> (nat \<Rightarrow> u8) \<Rightarrow> nat \<Rightarrow> nat list \<Rightarrow> nat set" where
  "below_path N m r p = {t. \<exists>q. p @ q \<in> N \<and> length (p @ q) < 4 \<and> node m r (p @ q) = Some t}"

text \<open>
  The links of the tables are marked as user-accessible, those outside the area are not, and none is a large page.
\<close>

definition user_links :: "nat list set \<Rightarrow> (nat \<Rightarrow> u8) \<Rightarrow> nat \<Rightarrow> bool" where
  "user_links N m r \<longleftrightarrow>
     (\<forall>p \<in> N. \<forall>t. \<forall>i < 512. length p < 3 \<and> node m r p = Some t \<and> present (entry_at m t i) \<longrightarrow>
        user (entry_at m t i) = (p @ [i] \<in> N) \<and> \<not> ps (entry_at m t i))"

context page_area
begin

lemma below_path_disjoint:
  assumes "tree N m r U" and "i \<noteq> j"
  shows "below_path N m r (p @ [i]) \<inter> below_path N m r (p @ [j]) = {}"
proof -
  have False if t: "t \<in> below_path N m r (p @ [i])" "t \<in> below_path N m r (p @ [j])" for t
  proof -
    obtain q where q: "(p @ [i]) @ q \<in> N" "node m r ((p @ [i]) @ q) = Some t"
      using t(1) unfolding below_path_def by blast
    obtain q' where q': "(p @ [j]) @ q' \<in> N" "node m r ((p @ [j]) @ q') = Some t"
      using t(2) unfolding below_path_def by blast
    have "(p @ [j]) @ q' = (p @ [i]) @ q" by (rule treeD(3) [OF assms(1) q q'])
    then show False using assms(2) by simp
  qed
  then show ?thesis by blast
qed

lemma below_pathI: "p @ q \<in> N \<Longrightarrow> length (p @ q) < 4 \<Longrightarrow> node m r (p @ q) = Some t \<Longrightarrow> t \<in> below_path N m r p"
  unfolding below_path_def by blast

lemma below_path_node:
  assumes "tree N m r U" and "p \<in> N" "length p < 4" "node m r p = Some u"
  shows "below_path N m r p = insert u (\<Union>j < 512. below_path N m r (p @ [j]))"
    and "u \<notin> below_path N m r (p @ [j])"
proof -
  show "below_path N m r p = insert u (\<Union>j < 512. below_path N m r (p @ [j]))"
  proof (intro equalityI subsetI)
    fix t assume "t \<in> below_path N m r p"
    then obtain q where q: "p @ q \<in> N" "length (p @ q) < 4" "node m r (p @ q) = Some t"
      unfolding below_path_def by blast
    show "t \<in> insert u (\<Union>j < 512. below_path N m r (p @ [j]))"
    proof (cases q)
      case Nil
      then show ?thesis using q(3) assms(4) by simp
    next
      case (Cons j q')
      then have j: "j < 512" using bound_area(2) [OF q(1)] by simp
      have "t \<in> below_path N m r (p @ [j])" by (rule below_pathI [of _ q']) (use q Cons in auto)
      then show ?thesis using j by blast
    qed
  next
    fix t assume t: "t \<in> insert u (\<Union>j < 512. below_path N m r (p @ [j]))"
    show "t \<in> below_path N m r p"
    proof (cases "t = u")
      case True
      then show ?thesis using assms(2-4) by (intro below_pathI [of _ "[]"]) auto
    next
      case False
      then obtain j q where "(p @ [j]) @ q \<in> N" "length ((p @ [j]) @ q) < 4" "node m r ((p @ [j]) @ q) = Some t"
        using t unfolding below_path_def by blast
      then show ?thesis by (intro below_pathI [of _ "j # q"]) auto
    qed
  qed
  show "u \<notin> below_path N m r (p @ [j])"
  proof
    assume "u \<in> below_path N m r (p @ [j])"
    then obtain q where q: "(p @ [j]) @ q \<in> N" "node m r ((p @ [j]) @ q) = Some u" unfolding below_path_def by blast
    have "(p @ [j]) @ q = p" by (rule treeD(3) [OF assms(1,2,4) q])
    then show False by simp
  qed
qed

lemma below_path_none:
  assumes "node m r p = None \<or> p \<notin> N"
  shows "below_path N m r p = {}"
  using assms append_area [of p] by (auto simp: below_path_def node_append)

lemma walk_children_wp:
  fixes F :: "PageEntry \<Rightarrow> unit \<Rightarrow> (machine, 'e, unit) prog"
  assumes tree: "tree N m r U" and p: "p \<in> N" "length p < 4" "node m r p = Some u"
    and fr: "frames s fs V" and sub: "below_path N m r p \<subseteq> V" and ag: "agree (below_path N m r p) m (phys s)"
    and step: "\<And>k s1 gs W Q. k < 512 \<Longrightarrow> frames s1 gs W \<Longrightarrow> below_path N m r (p @ [k]) \<subseteq> W \<Longrightarrow>
      agree (below_path N m r (p @ [k])) m (phys s1) \<Longrightarrow>
      (\<And>s2 hs. frames s2 hs (W - below_path N m r (p @ [k])) \<Longrightarrow>
        agree (W - below_path N m r (p @ [k])) (phys s1) (phys s2) \<Longrightarrow> same_statics s1 s2 \<Longrightarrow> Q () s2) \<Longrightarrow>
      returns (F (entry_at m u k) () s1) Q"
    and Q: "\<And>s' gs. frames s' gs (V - below_path N m r p) \<Longrightarrow> agree (V - below_path N m r p) (phys s) (phys s') \<Longrightarrow>
      same_statics s s' \<Longrightarrow> Q () s'"
  shows "returns (bind (read_table u) (\<lambda>table. bind (for_each table F ()) (\<lambda>_. delloc_frame u)) s) Q"
proof -
  let ?b = "\<lambda>j. below_path N m r (p @ [j])"
  let ?B = "\<lambda>k. \<Union>j < k. ?b j"
  note bp = below_path_node [OF tree p]
  have u: "u \<in> V" "u \<in> below_path N m r p" "frame u" using bp(1) sub treeD(1) [OF tree p(1,3)] by auto
  define I where "I k a s' \<longleftrightarrow> (\<exists>gs. frames s' gs (V - ?B k)) \<and> agree (V - ?B k) (phys s) (phys s') \<and> same_statics s s'"
    for k and a :: unit and s'
  have table: "map (entry_at (phys s) u) [0..<512] = map (entry_at m u) [0..<512]"
    using agree_entry [OF ag u(2)] by simp
  have loop: "returns (for_each (map (entry_at m u) [0..<512]) F () s1) (I 512)" if s1: "I 0 () s1" for s1
  proof -
    have "returns (F (map (entry_at m u) [0..<512] ! k) a s2) (I (Suc k))" if k: "k < 512" and I: "I k a s2" for k a s2
    proof -
      obtain gs where g: "frames s2 gs (V - ?B k)" "agree (V - ?B k) (phys s) (phys s2)" "same_statics s s2"
        using I by (auto simp: I_def)
      have "?b k \<inter> ?b j = {}" if "j < k" for j by (rule below_path_disjoint [OF tree]) (use that in simp)
      then have dis: "?b k \<inter> ?B k = {}" by blast
      have sb: "?b k \<subseteq> below_path N m r p" using bp(1) k by auto
      have in_W: "?b k \<subseteq> V - ?B k" using sb sub dis by auto
      have agk: "agree (?b k) m (phys s2)"
        using agree_trans [OF agree_mono [OF ag sb] agree_mono [OF g(2) in_W]] .
      have B: "V - ?B k - ?b k = V - ?B (Suc k)" by (auto simp: less_Suc_eq)
      have "returns (F (entry_at m u k) () s2) (I (Suc k))"
      proof (rule step [OF k g(1) in_W agk], goal_cases)
        case (1 s3 hs)
        have "agree (V - ?B (Suc k)) (phys s) (phys s3)"
          using agree_trans [OF agree_mono [OF g(2)] 1(2)] B by auto
        then show ?case using 1(1) same_statics_trans [OF g(3) 1(3)] unfolding I_def B by auto
      qed
      then show ?thesis using k by simp
    qed
    from returns_for_each [of I "()" s1 "map (entry_at m u) [0..<512]" F, OF s1] this show ?thesis by simp
  qed
  have fin: "V - ?B 512 - {u} = V - below_path N m r p" using bp(1) by auto
  show ?thesis
    unfolding returns_bind_iff
  proof (rule read_table_wp [OF u(3)], unfold table, goal_cases)
    case (1 n)
    have "I 0 () (s\<lparr>temp_page := n\<rparr>)" using fr frames_cong [OF fr, of "s\<lparr>temp_page := n\<rparr>"] by (auto simp: I_def same_statics_def)
    from loop [OF this] show ?case
    proof (rule returns_mono)
      fix x s1 assume "I 512 x s1"
      then obtain gs where g: "frames s1 gs (V - ?B 512)" "agree (V - ?B 512) (phys s) (phys s1)" "same_statics s s1"
        by (auto simp: I_def)
      show "returns (delloc_frame u s1) Q"
      proof (rule delloc_agree_wp [OF g(1)])
        show "u \<in> V - ?B 512" using u(1) bp(2) by auto
        fix s2 assume s2: "agree (V - ?B 512 - {u}) (phys s1) (phys s2)" "same_statics s1 s2" "frames s2 (u # gs) (V - ?B 512 - {u})"
        show "Q () s2"
          by (rule Q) (use s2 g fin agree_trans [OF agree_mono [OF g(2)] s2(1)] same_statics_trans in auto)
      qed
    qed
  qed
qed

lemma walk_free_page_wp:
  assumes "tree N m r U" and "user_links N m r" and "0 < d" and "length q + d = 3"
    and "q \<in> N" and "node m r q = Some t" and "i < 512"
    and "frames s fs V" and "below_path N m r (q @ [i]) \<subseteq> V" and "agree (below_path N m r (q @ [i])) m (phys s)"
    and "\<And>s' gs. frames s' gs (V - below_path N m r (q @ [i])) \<Longrightarrow>
      agree (V - below_path N m r (q @ [i])) (phys s) (phys s') \<Longrightarrow> same_statics s s' \<Longrightarrow> Q () s'"
  shows "returns (walk_free_page (entry_at m t i) d s) Q"
  using assms(3-)
proof (induction d arbitrary: q t i s fs V Q)
  case (Suc d)
  let ?e = "entry_at m t i" and ?p = "q @ [i]"
  note tree = assms(1) and q = Suc.prems(3-5) and fr = Suc.prems(6) and sub = Suc.prems(7) and ag = Suc.prems(8) and Q = Suc.prems(9)
  have nd: "node m r ?p = (if present ?e then Some (address ?e) else None)" using q(2) by (simp add: node_snoc target_def)
  show ?case
  proof (cases "present ?e \<and> user ?e")
    case False
    have "node m r ?p = None \<or> ?p \<notin> N"
    proof (cases "present ?e")
      case True
      then have "user ?e = (?p \<in> N)" using assms(2) q Suc.prems(2) unfolding user_links_def by fastforce
      then show ?thesis using False True by simp
    qed (use nd in simp)
    then have "below_path N m r ?p = {}" by (rule below_path_none)
    then have "Q () s" using Q [of s fs] fr by simp
    then show ?thesis using False by auto
  next
    case True
    have l: "length ?p < 4" "?p \<in> N" "\<not> ps ?e"
      using assms(2) q True Suc.prems(2) unfolding user_links_def by fastforce+
    define u where "u = address ?e"
    have u: "node m r ?p = Some u" using nd True by (simp add: u_def)
    have uf: "frame u" "u \<noteq> 0" using treeD(1) [OF tree l(2) u] by (auto simp: frame_def)
    note bp = below_path_node [OF tree l(2,1) u]
    have uV: "u \<in> V" "u \<in> below_path N m r ?p" using sub bp(1) by auto
    show ?thesis
    proof (cases "d = 0")
      case True
      then have l3: "length ?p = 3" using Suc.prems(2) by simp
      have "below_path N m r (?p @ [j]) = {}" for j using l3 by (simp add: below_path_def)
      then have only: "below_path N m r ?p = {u}" using bp(1) by simp
      have "returns (delloc_frame u s) Q"
        by (rule delloc_agree_wp [OF fr uV(1)]) (use Q only in auto)
      then show ?thesis
        using \<open>present ?e \<and> user ?e\<close> True l(3) uf(2) by (simp add: u_def unwrap_nonzero_def bind_ret)
    next
      case False
      have nps: "(\<not> ps ?e) = True" using l(3) by simp
      have deep: "1 < Suc d" using False by simp
      have c: "\<not> (\<not> present ?e \<or> \<not> user ?e)" using \<open>present ?e \<and> user ?e\<close> by simp
      show ?thesis
        unfolding walk_free_page.simps if_not_P [OF c] nps bind_assert_True if_P [OF deep]
          u_def [symmetric] unwrap_nonzero_def if_not_P [OF uf(2)] bind_ret
      proof (rule walk_children_wp [OF tree l(2,1) u fr sub ag], goal_cases)
        case (1 k s1 gs W Q)
        show ?case by (rule Suc.IH [OF _ _ l(2) u 1(1-4)]) (use False Suc.prems(2) 1(5) in auto)
      qed (rule Q)
    qed
  qed
qed simp

end

lemma release_wp:
  assumes sp: "space user_area r D s" and links: "user_links user_area (phys s) r"
    and Q: "\<And>s' gs. frames s' gs D \<Longrightarrow> agree D (phys s) (phys s') \<Longrightarrow> same_statics s s' \<Longrightarrow> Q () s'"
  shows "returns (release_user_page_table r s) Q"
proof -
  let ?m = "phys s" and ?T = "ran (tables user_area (phys s) r)"
  obtain fs where fr: "frames s fs (D \<union> ?T)" and tree: "tree user_area ?m r (D \<union> ?T)" and dis: "D \<inter> ?T = {}"
    using sp by (auto elim: spaceE)
  have all: "below_path user_area ?m r [] = ?T" by (auto simp: below_path_def ran_tables)
  have rest: "D \<union> ?T - below_path user_area ?m r [] = D" using dis all by auto
  show ?thesis
    unfolding release_user_page_table_def
  proof (rule user_pages.walk_children_wp [OF tree user_pages.root_area _ _ fr], goal_cases)
    case (5 k s1 gs W Q)
    show ?case
      by (rule user_pages.walk_free_page_wp [OF tree links _ _ user_pages.root_area _ 5(1,2)]) (use 5(3-5) in auto)
  next
    case (6 s' gs)
    then show ?case using Q unfolding rest by auto
  qed (auto simp: all)
qed

section \<open>Separate address spaces\<close>

text \<open>Two user address spaces over the same frames, with no table and no page in common.\<close>

definition apart_spaces :: "nat \<Rightarrow> nat set \<Rightarrow> nat \<Rightarrow> nat set \<Rightarrow> machine \<Rightarrow> bool" where
  "apart_spaces r D q E s \<longleftrightarrow>
     space user_area r D s \<and> space user_area q E s \<and>
     D \<union> ran (tables user_area (phys s) r) = E \<union> ran (tables user_area (phys s) q) \<and>
     nodes user_area (phys s) r \<inter> nodes user_area (phys s) q = {}"

text \<open>What a program sees through the tables at \<open>q\<close>.\<close>

definition same_view :: "nat \<Rightarrow> machine \<Rightarrow> machine \<Rightarrow> bool" where
  "same_view q s s' \<longleftrightarrow> pages user_area (phys s') q = pages user_area (phys s) q \<and>
     (\<forall>x. page_path x \<in> user_area \<longrightarrow> virtual_byte (phys s') q x = virtual_byte (phys s) q x)"

lemma apart_view:
  assumes "apart_spaces r D q E s" and "agree (D - address ` ran (pages user_area (phys s) r)) (phys s) (phys s')"
  shows "same_view q s s'"
proof -
  let ?m = "phys s" and ?m' = "phys s'"
  have sp: "space user_area r D s" "space user_area q E s"
    and U: "D \<union> ran (tables user_area ?m r) = E \<union> ran (tables user_area ?m q)"
    and dis: "nodes user_area ?m r \<inter> nodes user_area ?m q = {}" using assms(1) by (auto simp: apart_spaces_def)
  have sub: "nodes user_area ?m q \<subseteq> D - address ` ran (pages user_area ?m r)"
  proof
    fix f assume f: "f \<in> nodes user_area ?m q"
    have "f \<in> E \<union> ran (tables user_area ?m q)"
      using f user_pages.space_page_frame(1) [OF sp(2)] by (auto simp: user_pages.nodes_eq ran_def)
    then show "f \<in> D - address ` ran (pages user_area ?m r)"
      using f dis U by (auto simp: user_pages.nodes_eq)
  qed
  have ag: "agree (nodes user_area ?m q) ?m ?m'" using agree_mono [OF assms(2) sub] .
  then have agT: "agree (ran (tables user_area ?m q)) ?m ?m'" by (rule agree_mono) (auto simp: user_pages.nodes_eq)
  have "virtual_byte ?m' q x = virtual_byte ?m q x" if x: "page_path x \<in> user_area" for x
  proof -
    have ph: "physical ?m' q x = physical ?m q x" using user_pages.node_agree [OF agT x] by (simp add: physical_def)
    have "?m' p = ?m p" if p: "physical ?m q x = Some p" for p
    proof -
      obtain e where e: "pages user_area ?m q (page_path x) = Some e" "p = address e + x mod 0x1000"
        by (rule user_pages.virtual_frame [OF sp(2) x p])
      have "address e \<in> nodes user_area ?m q" using e(1) by (auto simp: user_pages.nodes_eq ran_def)
      then show ?thesis using ag e(2) mod_less_divisor [of "0x1000" x] by (simp add: agree_def)
    qed
    then show ?thesis using ph by (cases "physical ?m q x") (auto simp: virtual_byte_def)
  qed
  then show ?thesis using user_pages.pages_agree(1) [OF agT] by (simp add: same_view_def)
qed

end
