(* ===== verification/Page_Props.thy ===== *)
theory Page_Props
  imports Page_Release
begin

text \<open>
  The properties of the page tables, with machines that satisfy their hypotheses.
\<close>

section \<open>Machines with user address spaces\<close>

lemma example_used:
  assumes "finite U" and "\<And>f. f \<in> U \<Longrightarrow> frame f \<and> f < 0x600000"
  shows "frames (example_machine m) [] U"
proof -
  have "f + 0x1000 \<le> 0x600000" if "f \<in> U" for f
    using assms(2) [OF that] by (auto simp: frame_def elim!: dvdE)
  then show ?thesis
    using assms(2) by (auto simp: frames_def example_machine_def below_def aligned_regions_def)
qed

definition blank_machine :: machine where
  "blank_machine = example_machine (\<lambda>_. 0)"

lemma blank_entry: "entry_at (phys blank_machine) t j = 0"
proof -
  have "get_bytes (phys blank_machine) (t + j * 8) 8 = replicate 8 0"
    by (rule nth_equalityI) (simp_all add: blank_machine_def example_machine_def)
  then show ?thesis by (simp add: entry_at_def load64_def numeral_eq_Suc)
qed

lemma blank_space:
  assumes "r \<in> U" and "finite U" and "\<And>f. f \<in> U \<Longrightarrow> frame f \<and> f < 0x600000"
  shows "space user_area r (U - {r}) blank_machine" and "pages user_area (phys blank_machine) r = Map.empty"
    and "tables user_area (phys blank_machine) r = [[] \<mapsto> r]"
proof -
  have fr: "frames blank_machine [] U" unfolding blank_machine_def by (rule example_used [OF assms(2,3)])
  have none: "\<not> present (entry_at (phys blank_machine) r j)" for j by (simp add: blank_entry)
  show "space user_area r (U - {r}) blank_machine" "pages user_area (phys blank_machine) r = Map.empty"
      "tables user_area (phys blank_machine) r = [[] \<mapsto> r]"
    using empty_space [OF fr assms(1)] none by auto
qed

lemma blank_free: "page_path v \<in> user_area \<Longrightarrow> physical (phys blank_machine) r v = None"
  using empty_node [of "phys blank_machine" r "page_path v"] by (auto simp: blank_entry physical_def page_path_def)

lemma blank_run: "free_run (phys blank_machine) r USER_SEARCH_START 2"
  unfolding free_run_def
proof (intro allI impI blank_free user_path)
  fix j :: nat assume "j < 2"
  then show "USER_SEARCH_START + j * 0x1000 < 511 * 2 ^ 39" by (simp add: USER_SEARCH_START_def)
qed simp

text \<open>A machine in which the first user page is mapped.\<close>

definition mapped_memory :: "nat \<Rightarrow> u8" where
  "mapped_memory = chain_put True 0x9000 1 [0, 0, 0] [0xA000, 0xC000, 0xD000] (leaf_entry 0xE000 True False True) (\<lambda>_. 0)"

definition mapped_machine :: machine where
  "mapped_machine = example_machine mapped_memory"

lemma mapped_page:
  "page_mapped user_area 0x9000 [1, 0, 0, 0] 0xE000 (leaf_entry 0xE000 True False True) (phys blank_machine)
     {0x9000, 0xE000} mapped_memory ({0x9000, 0xE000} \<union> set [0xA000, 0xC000, 0xD000])"
proof -
  let ?U = "{0x9000, 0xE000} :: nat set" and ?gs = "[0xA000, 0xC000, 0xD000] :: nat list"
  have U: "finite ?U" "\<And>f. f \<in> ?U \<Longrightarrow> frame f \<and> f < 0x600000" by (auto simp: frame_def)
  note b = blank_space [where r = "0x9000", OF _ U, simplified]
  have tree: "tree user_area (phys blank_machine) 0x9000 ?U"
    using b(1,3) unfolding space_def by (auto simp: insert_commute)
  have "frames blank_machine [] (?U \<union> set ?gs)"
    unfolding blank_machine_def by (rule example_used) (auto simp: frame_def)
  then have g: "grown blank_machine ?U blank_machine ?gs" by (auto simp: grown_def blank_entry)
  have no: "node (phys blank_machine) 0x9000 p = None" if "p \<in> user_area" "p \<noteq> []" for p
    using that by (intro empty_node) (simp_all add: blank_entry)
  have z: "phys blank_machine = (\<lambda>_. 0)" by (simp add: blank_machine_def example_machine_def)
  have "page_mapped user_area 0x9000 ([] @ 1 # [0, 0, 0]) 0xE000 (leaf_entry 0xE000 True False True) (phys blank_machine)
     ?U (chain_put True 0x9000 1 [0, 0, 0] ?gs (leaf_entry 0xE000 True False True) (phys blank_machine)) (?U \<union> set ?gs)"
  proof (rule user_pages.finish_mapped [OF tree g])
    show "node (phys blank_machine) 0x9000 p \<noteq> Some 0xE000" if "p \<in> user_area" for p
      using no [OF that] by (cases "p = []") auto
  qed (auto simp: user_area_def frame_def target_def blank_entry)
  then show ?thesis by (simp add: mapped_memory_def z)
qed

lemma mapped_space:
  "space user_area 0x9000 {0xE000} mapped_machine"
  "pages user_area (phys mapped_machine) 0x9000 = [[1, 0, 0, 0] \<mapsto> leaf_entry 0xE000 True False True]"
proof -
  let ?U = "{0x9000, 0xE000} :: nat set"
  have U: "finite ?U" "\<And>f. f \<in> ?U \<Longrightarrow> frame f \<and> f < 0x600000" by (auto simp: frame_def)
  note b = blank_space [where r = "0x9000", OF _ U, simplified]
  have m: "phys mapped_machine = mapped_memory" by (simp add: mapped_machine_def example_machine_def)
  have fr: "frames mapped_machine [] ({0x9000, 0xE000} \<union> set [0xA000, 0xC000, 0xD000])"
    unfolding mapped_machine_def by (rule example_used) (auto simp: frame_def)
  note * = user_pages.page_mapped_space [OF b(1) _ _ _ mapped_page [folded m] fr]
  show "space user_area 0x9000 {0xE000} mapped_machine"
    "pages user_area (phys mapped_machine) 0x9000 = [[1, 0, 0, 0] \<mapsto> leaf_entry 0xE000 True False True]"
    using *(1,2) b by (auto simp: user_area_def frame_def insert_commute)
qed

lemma mapped_entries:
  assumes "j < 512"
  shows "entry_at mapped_memory 0x9000 j = (if j = 1 then 0xA007 else 0)"
    and "entry_at mapped_memory 0xA000 j = (if j = 0 then 0xC007 else 0)"
    and "entry_at mapped_memory 0xC000 j = (if j = 0 then 0xD007 else 0)"
proof -
  let ?gs = "[0xA000, 0xC000, 0xD000] :: nat list" and ?e = "leaf_entry 0xE000 True False True"
  have z: "entry_at (\<lambda>_. 0) t j = 0" for t j
    using blank_entry [of t j] by (simp add: blank_machine_def example_machine_def)
  have e: "?e < 2 ^ 64" by (rule leaf_entry_bits) (simp add: frame_def)
  have fr: "length ?gs = length [0, 0, 0 :: nat]" "distinct (0x9000 # ?gs)" "\<forall>h \<in> set (0x9000 # ?gs). frame h"
    "\<forall>j \<in> set [1, 0, 0, 0 :: nat]. j < 512" by (simp_all add: frame_def)
  note put = chain_put_entry [OF fr(1-3) fr(4) e, where u = True and m = "\<lambda>_. 0", folded mapped_memory_def]
  have link: "link_entry 0xA000 True = 0xA007" "link_entry 0xC000 True = 0xC007" "link_entry 0xD000 True = 0xD007"
    by (simp_all add: link_entry_def P_PRESENT_def P_RW_def P_US_def)
  show "entry_at mapped_memory 0x9000 j = (if j = 1 then 0xA007 else 0)"
    using put(1) [OF assms] by (simp add: z link)
  show "entry_at mapped_memory 0xA000 j = (if j = 0 then 0xC007 else 0)"
    using put(2) [of 0 j] assms by (simp add: z link)
  show "entry_at mapped_memory 0xC000 j = (if j = 0 then 0xD007 else 0)"
    using put(2) [of 1 j] assms by (simp add: z link)
qed

lemma mapped_links: "user_links user_area (phys mapped_machine) 0x9000"
proof -
  have m: "phys mapped_machine = mapped_memory" by (simp add: mapped_machine_def example_machine_def)
  have n: "node mapped_memory 0x9000 [1] = Some 0xA000" "node mapped_memory 0x9000 [1, 0] = Some 0xC000"
    by (simp_all add: node.simps target_def mapped_entries present_odd address_eq)
  have only: "p = [] \<and> t = 0x9000 \<or> p = [1] \<and> t = 0xA000 \<or> p = [1, 0] \<and> t = 0xC000"
    if p: "p \<in> user_area" "length p < 3" "node mapped_memory 0x9000 p = Some t" for p t
  proof (cases "p = []")
    case False
    have "node (phys blank_machine) 0x9000 p = None" using p(1) False by (intro empty_node) (simp_all add: blank_entry)
    then obtain k where "p = take k [1, 0, 0, 0]" using mapped_page p(1,3) unfolding page_mapped_def by fastforce
    then have "p = [1] \<or> p = [1, 0]"
      using p(2) False by (cases k; cases "k - 1"; cases "k - 2") auto
    then show ?thesis using n p(3) by auto
  qed (use p in simp)
  show ?thesis
    unfolding user_links_def m
  proof (intro ballI allI impI, elim conjE)
    fix p t i assume p: "p \<in> user_area" "i < 512" "length p < 3" "node mapped_memory 0x9000 p = Some t" "present (entry_at mapped_memory t i)"
    then show "user (entry_at mapped_memory t i) = (p @ [i] \<in> user_area) \<and> \<not> ps (entry_at mapped_memory t i)"
      using only [OF p(1,3,4)]
      by (auto simp: mapped_entries user_def ps_def P_US_def P_PS_def user_area_def split: if_splits)
  qed
qed


section \<open>Allocating and freeing\<close>





section \<open>Isolation\<close>



section \<open>Copying\<close>

text \<open>
  C9. Bytes written through the tables of a program are the bytes read back, and every other byte of its
  memory is unchanged; or the copy ends with a page fault at the first byte whose page is not mapped,
  and exactly the bytes before it have been written.
\<close>

theorem write_read_back:
  assumes sp: "space user_area r D s" and v: "USER_SEARCH_START \<le> v" "v + length bs \<le> 511 * 2 ^ 39"
  shows "ends (bind (write_page_table_memory r v bs) (\<lambda>_. read_page_table_memory r v (length bs)) s)
    (\<lambda>bs' s'. bs' = bs \<and> written user_area r D v bs s s')
    (\<lambda>e s'. \<exists>k < length bs. physical (phys s) r (v + k) = None \<and> written user_area r D v (take k bs) s s')"
proof -
  note r = space_root(1) [OF sp]
  have path: "page_path (v + i) \<in> user_area" if "i < length bs" for i
    using that v by (intro user_path) auto
  have bd: "v + length bs \<le> 2 ^ 48" using v(2) by simp
  show ?thesis
    unfolding write_page_table_memory_def read_page_table_memory_def ends_bind_iff
  proof (rule user_pages.write_page_table_wp [OF r sp path bd], goal_cases)
    case (2 s')
    have sp': "space user_area r D s'" using 2(1) by (simp add: written_def)
    have b: "virtual_byte (phys s') r (v + i) = Some (bs ! i)" if "i < length bs" for i
      using 2(1) path [OF that] bd that unfolding written_def by auto
    have w: "written user_area r D v bs s (s'\<lparr>temp_page := t\<rparr>)" for t
      using 2(1) by (simp add: written_def space_temp same_statics_def)
    have "map (\<lambda>i. the (virtual_byte (phys s') r (v + i))) [0..<length bs] = bs"
      by (rule nth_equalityI) (simp_all add: b)
    then show ?case
      by (intro user_pages.read_page_table_wp [OF r sp' path bd])
        (use w user_pages.written_physical [OF 2(1) path sp] 2(2) in auto)
  qed auto
qed

theorem write_read_back_witness:
  "ends (bind (write_page_table_memory 0x9000 USER_SEARCH_START [1, 2]) (\<lambda>_. read_page_table_memory 0x9000 USER_SEARCH_START 2) mapped_machine)
    (\<lambda>bs' s'. bs' = [1, 2] \<and> written user_area 0x9000 {0xE000} USER_SEARCH_START [1, 2] mapped_machine s')
    (\<lambda>e s'. \<exists>k < 2. physical (phys mapped_machine) 0x9000 (USER_SEARCH_START + k) = None \<and>
       written user_area 0x9000 {0xE000} USER_SEARCH_START (take k [1, 2]) mapped_machine s')"
proof -
  have two: "length [1, 2 :: u8] = 2" by simp
  show ?thesis
    using write_read_back [of "0x9000" "{0xE000}" mapped_machine USER_SEARCH_START "[1, 2]", unfolded two] mapped_space(1)
    by (simp add: USER_SEARCH_START_def)
qed



section \<open>Making and destroying an address space\<close>





section \<open>Entries\<close>



end
