(* ===== verification/Spec2Isabelle.thy ===== *)
theory Spec2Isabelle
  imports Mbr Path Fat32_Handle Async_Condvar Async_Watch Memory_Map Phys_Memory Page_Table Page_Map Address_Space User_Memory Page_Release Page_Props
begin

text \<open>
  A model of the operating system \<open>cos-rs\<close>.
\<close>

end
